(* ===== verification/Pk_Prelude.thy ===== *)
theory Pk_Prelude
  imports Main "HOL-Library.Word"
begin

text \<open>
  Vocabulary shared by every component of the PassKeeper model: how a C call may end
  (a value, process termination, or undefined behaviour), C strings and bytes, blocks of
  allocated memory whose bytes may be uninitialised, and the few functions of the C
  standard library the sources lean on.

  The modelled build is the LP64 Linux one (\<open>size_t\<close> and pointers of 64 bits,
  \<open>int\<close> and \<open>unsigned\<close> of 32 bits).  A \<open>size_t\<close> is a \<open>nat\<close>; every
  addition or multiplication that can wrap is written with its reduction \<open>sz_wrap\<close>.
\<close>

named_theorems res_simps \<open>evaluation of computations that may stop the process\<close>
named_theorems mem_simps \<open>reading and writing memory blocks\<close>
named_theorems ctype_simps \<open>character classification\<close>

section \<open>How a call ends\<close>

text \<open>
  \<open>Exit n\<close> is a call of exit with status \<open>n\<close>; \<open>Die\<close> and \<open>Bug\<close> are the
  noreturn reports die() and bug() of \<^verbatim>\<open>src/src/usage.c\<close> (both leave with
  EXIT_FAILURE); \<open>Undef\<close> is undefined behaviour of the C program; \<open>Waits\<close> is a
  system call that never answers.  The string names
  the site.
\<close>

datatype halt = Exit int | Die string | Bug string | Undef string | Waits

datatype 'a res = Ok 'a | Halt halt

fun bind_res :: "'a res \<Rightarrow> ('a \<Rightarrow> 'b res) \<Rightarrow> 'b res" where
  "bind_res (Ok x) f = f x"
| "bind_res (Halt h) f = Halt h"

lemma bind_res_cong [fundef_cong]:
  "m = m' \<Longrightarrow> (\<And>x. m' = Ok x \<Longrightarrow> f x = g x) \<Longrightarrow> bind_res m f = bind_res m' g"
  by (cases m') auto

lemma bind_res_eq_Ok [res_simps]:
  "bind_res m f = Ok y \<longleftrightarrow> (\<exists>x. m = Ok x \<and> f x = Ok y)"
  by (cases m) auto

lemma bind_res_assoc [res_simps]:
  "bind_res (bind_res m f) g = bind_res m (\<lambda>x. bind_res (f x) g)"
  by (cases m) auto

lemma bind_res_Ok_id [simp]: "bind_res m Ok = m"
  by (cases m) auto

lemma bind_res_if [res_simps]:
  "bind_res (if b then m else n) f = (if b then bind_res m f else bind_res n f)"
  by simp

text \<open>Running the same operation over a list of arguments, from left to right.\<close>

fun fold_res :: "('s \<Rightarrow> 'x \<Rightarrow> 's res) \<Rightarrow> 's \<Rightarrow> 'x list \<Rightarrow> 's res" where
  "fold_res f s [] = Ok s"
| "fold_res f s (x # xs) = bind_res (f s x) (\<lambda>s'. fold_res f s' xs)"

lemma fold_res_append [res_simps]:
  "fold_res f s (xs @ ys) = bind_res (fold_res f s xs) (\<lambda>s'. fold_res f s' ys)"
  by (induction xs arbitrary: s) (simp_all add: res_simps)

section \<open>Machine sizes\<close>

type_synonym size_t = nat
type_synonym byte = "8 word"
type_synonym uint = "32 word"

definition SIZE_MAX :: nat where "SIZE_MAX = 2 ^ 64 - 1"
definition INT_MAX :: nat where "INT_MAX = 2 ^ 31 - 1"
definition UINT_MAX :: nat where "UINT_MAX = 2 ^ 32 - 1"

text \<open>The largest request malloc and realloc grant (PTRDIFF_MAX, as in glibc and musl).\<close>

definition ALLOC_MAX :: nat where "ALLOC_MAX = 2 ^ 63 - 1"

definition sz_wrap :: "nat \<Rightarrow> size_t" where
  "sz_wrap n = n mod 2 ^ 64"

definition sz_sub :: "size_t \<Rightarrow> size_t \<Rightarrow> size_t" where
  "sz_sub x y = (x + (2 ^ 64 - y)) mod 2 ^ 64"

lemma sz_sub_exact [simp]: "y \<le> x \<Longrightarrow> x \<le> SIZE_MAX \<Longrightarrow> sz_sub x y = x - y"
proof -
  assume le: "y \<le> x" "x \<le> SIZE_MAX"
  then have "x + (2 ^ 64 - y) = (x - y) + 2 ^ 64"
    by (simp add: SIZE_MAX_def)
  then have "sz_sub x y = ((x - y) + 2 ^ 64) mod 2 ^ 64"
    by (simp only: sz_sub_def)
  moreover have "x - y < 2 ^ 64"
    using le by (simp add: SIZE_MAX_def)
  ultimately show ?thesis
    by (simp only: mod_add_self2 mod_less)
qed

lemma sz_wrap_small [simp]: "n \<le> SIZE_MAX \<Longrightarrow> sz_wrap n = n"
  by (simp add: sz_wrap_def SIZE_MAX_def)

text \<open>
  The sizes for which the properties promise success: above the user address space of
  x86-64 (2 ^ 47 bytes), so above any object the program can hold, and low
  enough that no growth computation below can reach SIZE_MAX or ALLOC_MAX.
\<close>

definition SAFE_SIZE :: nat where "SAFE_SIZE = 2 ^ 48"

lemmas size_bounds = SIZE_MAX_def INT_MAX_def UINT_MAX_def ALLOC_MAX_def SAFE_SIZE_def

section \<open>C strings\<close>

text \<open>
  A C string is the list of its bytes before the terminating NUL; \<open>cstring s\<close> says
  that \<open>s\<close> can be one.
\<close>

abbreviation NUL :: char where "NUL \<equiv> CHR 0x00"
abbreviation NL :: char where "NL \<equiv> CHR 0x0A"

definition cstring :: "string \<Rightarrow> bool" where
  "cstring s \<longleftrightarrow> NUL \<notin> set s"

text \<open>The C string that starts at the beginning of some bytes.\<close>

definition cstr_of :: "string \<Rightarrow> string" where
  "cstr_of = takeWhile (\<lambda>c. c \<noteq> NUL)"

lemma cstr_of_cstring [simp]: "cstring s \<Longrightarrow> cstr_of (s @ NUL # r) = s"
  by (induction s) (auto simp: cstr_of_def cstring_def)

lemma cstr_of_id [simp]: "cstring s \<Longrightarrow> cstr_of s = s"
  by (induction s) (auto simp: cstr_of_def cstring_def)

lemma cstring_cstr_of [simp]: "cstring (cstr_of s)"
  by (auto simp: cstring_def cstr_of_def dest: set_takeWhileD)

lemma cstring_append [simp]: "cstring (s @ t) \<longleftrightarrow> cstring s \<and> cstring t"
  by (auto simp: cstring_def)

lemma cstring_Nil [simp]: "cstring []"
  by (simp add: cstring_def)

lemma cstring_Cons [simp]: "cstring (c # s) \<longleftrightarrow> c \<noteq> NUL \<and> cstring s"
  by (auto simp: cstring_def)

text \<open>\<^verbatim>\<open>*str\<close>: the first byte, which is the terminator for the empty string.\<close>

fun first_char :: "string \<Rightarrow> char" where
  "first_char [] = NUL"
| "first_char (c # s) = c"

section \<open>Characters (the C locale)\<close>

definition c_isspace :: "char \<Rightarrow> bool" where
  "c_isspace c \<longleftrightarrow> c \<in> {CHR 0x20, CHR 0x09, CHR 0x0A, CHR 0x0B, CHR 0x0C, CHR 0x0D}"

definition char_code :: "char \<Rightarrow> nat" where
  "char_code c = of_char c"

definition c_between :: "char \<Rightarrow> char \<Rightarrow> char \<Rightarrow> bool" where
  "c_between lo hi c \<longleftrightarrow> char_code lo \<le> char_code c \<and> char_code c \<le> char_code hi"

definition c_isdigit :: "char \<Rightarrow> bool" where
  "c_isdigit = c_between (CHR ''0'') (CHR ''9'')"

definition c_isupper :: "char \<Rightarrow> bool" where
  "c_isupper = c_between (CHR ''A'') (CHR ''Z'')"

definition c_islower :: "char \<Rightarrow> bool" where
  "c_islower = c_between (CHR ''a'') (CHR ''z'')"

definition c_tolower :: "char \<Rightarrow> char" where
  "c_tolower c = (if c_isupper c then char_of (char_code c + 32) else c)"

lemmas ctype_defs [ctype_simps] =
  c_isspace_def c_between_def c_isdigit_def c_isupper_def c_islower_def char_code_def

section \<open>Memory blocks\<close>

text \<open>
  An allocated block is the list of its cells; \<open>None\<close> is a cell nothing has been
  written to since malloc or realloc returned it.  Writing outside the block, and using an
  uninitialised cell, are undefined behaviour.
\<close>

type_synonym 'a block = "'a option list"

definition mem_write :: "'a block \<Rightarrow> nat \<Rightarrow> 'a list \<Rightarrow> 'a block res" where
  "mem_write b i xs =
     (if i + length xs \<le> length b
      then Ok (take i b @ map Some xs @ drop (i + length xs) b)
      else Halt (Undef ''write outside the block''))"

definition mem_read :: "'a block \<Rightarrow> nat \<Rightarrow> nat \<Rightarrow> 'a list res" where
  "mem_read b i n =
     (if i + n \<le> length b
      then (if None \<in> set (take n (drop i b))
            then Halt (Undef ''read of an uninitialised cell'')
            else Ok (map the (take n (drop i b))))
      else Halt (Undef ''read outside the block''))"

lemma mem_write_Nil [mem_simps]: "i \<le> length b \<Longrightarrow> mem_write b i [] = Ok b"
  by (simp add: mem_write_def)

lemma mem_write_prefix [mem_simps]:
  assumes "take (length s) b = map Some s" "length s + length xs \<le> length b"
  shows "mem_write b (length s) xs
         = Ok (map Some (s @ xs) @ drop (length s + length xs) b)"
  using assms by (simp add: mem_write_def)

lemma mem_read_prefix [mem_simps]:
  assumes "take n b = map Some s"
  shows "n \<le> length b \<Longrightarrow> mem_read b 0 n = Ok s"
  using assms by (auto simp: mem_read_def comp_def)

lemma take_map_Some_snocD:
  assumes "take (Suc (length s)) b = map Some (s @ [c])"
  shows "take (length s) b = map Some s" "b ! length s = Some c" "length s < length b"
proof -
  from arg_cong [OF assms, of length] show l: "length s < length b"
    by (simp split: if_splits)
  with assms have "take (length s) b @ [b ! length s] = map Some s @ [Some c]"
    by (simp add: take_Suc_conv_app_nth)
  then show "take (length s) b = map Some s" "b ! length s = Some c"
    by simp_all
qed

lemma mem_write_length: "mem_write b i xs = Ok b' \<Longrightarrow> length b' = length b"
  by (auto simp: mem_write_def split: if_splits)

end
