(* ===== verification/Helper.thy ===== *)
theory Helper
  imports Pk_Prelude
begin

text \<open>
  \<^verbatim>\<open>src/src/helper.h\<close>: checked size arithmetic and the growth of dynamic arrays,
  with the allocation wrappers of \<^verbatim>\<open>src/src/wrapper.h\<close> they call.  Every dynamic
  buffer of the program (strbuf, strlist, the cipher blob, strlist_join) grows through
  \<open>capacity_grow\<close>; the lemmas here say what it keeps and how far it grows.
\<close>

section \<open>Checked size arithmetic\<close>

definition st_add :: "size_t \<Rightarrow> size_t \<Rightarrow> size_t res" where
  "st_add x y =
     (if SIZE_MAX - x < y then Halt (Die ''size_t overflow (+)'') else Ok (sz_wrap (x + y)))"

definition st_mult :: "size_t \<Rightarrow> size_t \<Rightarrow> size_t res" where
  "st_mult x y =
     (if x = 0 then Halt (Undef ''division by zero'')
      else if SIZE_MAX div x < y then Halt (Die ''size_t overflow (*)'')
      else Ok (sz_wrap (x * y)))"

definition fixed_growth :: "size_t \<Rightarrow> size_t res" where
  "fixed_growth len =
     bind_res (st_add len 16) (\<lambda>a. bind_res (st_mult a 3) (\<lambda>b. Ok (b div 2)))"

lemma st_add_exact: "x + y \<le> SIZE_MAX \<Longrightarrow> st_add x y = Ok (x + y)"
  by (simp add: st_add_def)

lemma st_add_no_wrap: "st_add x y = Ok z \<Longrightarrow> x \<le> SIZE_MAX \<Longrightarrow> z = x + y \<and> z \<le> SIZE_MAX"
  by (auto simp: st_add_def not_less split: if_splits)

lemma st_mult_exact: "0 < x \<Longrightarrow> x * y \<le> SIZE_MAX \<Longrightarrow> st_mult x y = Ok (x * y)"
  by (auto simp: st_mult_def not_less div_less_iff_less_mult mult.commute)

lemma st_mult_no_wrap: "st_mult x y = Ok z \<Longrightarrow> z = x * y \<and> z \<le> SIZE_MAX"
proof -
  assume ok: "st_mult x y = Ok z"
  then have "0 < x" and "y \<le> SIZE_MAX div x" and z: "z = sz_wrap (x * y)"
    by (auto simp: st_mult_def split: if_splits)
  then have "x * y \<le> SIZE_MAX"
    by (metis less_eq_div_iff_mult_less_eq mult.commute)
  with z show ?thesis by simp
qed

lemma fixed_growth_exact:
  "(len + 16) * 3 \<le> SIZE_MAX \<Longrightarrow> fixed_growth len = Ok ((len + 16) * 3 div 2)"
  by (simp add: fixed_growth_def st_add_exact st_mult_exact mult.commute)

section \<open>Allocation\<close>

text \<open>
  xmalloc and xrealloc stop the process when the allocator refuses.  A fresh block, and
  the part of a block that realloc added, are uninitialised.
\<close>

definition xmalloc :: "size_t \<Rightarrow> 'a block res" where
  "xmalloc sz =
     (if ALLOC_MAX < sz then Halt (Die ''out of memory, malloc failed'')
      else Ok (replicate sz None))"

definition resize_block :: "'a block \<Rightarrow> nat \<Rightarrow> 'a block" where
  "resize_block b n = take n b @ replicate (n - length b) None"

text \<open>
  A pointer to an array of \<open>'a\<close>: \<open>None\<close> is NULL.  REALLOC_ARRAY asks for \<open>n\<close>
  elements of \<open>esz\<close> bytes each.
\<close>

definition realloc_array :: "nat \<Rightarrow> 'a block option \<Rightarrow> size_t \<Rightarrow> 'a block res" where
  "realloc_array esz p n =
     bind_res (st_mult esz n) (\<lambda>bytes.
       if ALLOC_MAX < bytes then Halt (Die ''out of memory, realloc failed'')
       else Ok (resize_block (case p of None \<Rightarrow> [] | Some b \<Rightarrow> b) n))"

definition malloc_array :: "nat \<Rightarrow> size_t \<Rightarrow> 'a block res" where
  "malloc_array esz n =
     bind_res (st_mult esz n) (\<lambda>bytes.
       if ALLOC_MAX < bytes then Halt (Die ''out of memory, malloc failed'')
       else Ok (replicate n None))"

text \<open>CAPACITY_GROW(ptr, size, cap), with \<open>esz\<close> the size of \<^verbatim>\<open>*ptr\<close>.\<close>

definition capacity_grow ::
    "nat \<Rightarrow> 'a block option \<Rightarrow> size_t \<Rightarrow> size_t \<Rightarrow> ('a block option \<times> size_t) res" where
  "capacity_grow esz p sz cap =
     (if sz > cap
      then bind_res (fixed_growth cap) (\<lambda>c.
             let cap' = (if c < sz then sz else c)
             in bind_res (realloc_array esz p cap') (\<lambda>b. Ok (Some b, cap')))
      else Ok (p, cap))"

lemma length_resize_block [simp]: "length (resize_block b n) = n"
  by (simp add: resize_block_def)

lemma take_resize_block [simp]:
  "k \<le> n \<Longrightarrow> k \<le> length b \<Longrightarrow> take k (resize_block b n) = take k b"
  by (simp add: resize_block_def min_def)

section \<open>Bit tests and ranges\<close>

definition is_pow2 :: "uint \<Rightarrow> bool" where
  "is_pow2 x \<longleftrightarrow> x \<noteq> 0 \<and> and x (x - 1) = 0"

definition in_range_e :: "'a::linorder \<Rightarrow> 'a \<Rightarrow> 'a \<Rightarrow> bool" where
  "in_range_e x r1 r2 \<longleftrightarrow> x > r1 \<and> x < r2"

definition in_range_i :: "'a::linorder \<Rightarrow> 'a \<Rightarrow> 'a \<Rightarrow> bool" where
  "in_range_i x r1 r2 \<longleftrightarrow> x \<ge> r1 \<and> x \<le> r2"

section \<open>Growth keeps the contents and always makes room\<close>

definition grown_bound :: "nat \<Rightarrow> nat \<Rightarrow> nat" where
  "grown_bound sz cap = max cap (2 * sz + 24)"

lemma capacity_grow_step:
  assumes "cap < sz" "sz \<le> 4 * SAFE_SIZE" "0 < esz" "esz \<le> 16"
  obtains cap' where
    "capacity_grow esz p sz cap
       = Ok (Some (resize_block (case p of None \<Rightarrow> [] | Some b \<Rightarrow> b) cap'), cap')"
    "sz \<le> cap'" "cap' \<le> grown_bound sz cap" "cap + cap div 2 \<le> cap'"
proof -
  define c where "c = (cap + 16) * 3 div 2"
  define cap' where "cap' = (if c < sz then sz else c)"
  have fg: "fixed_growth cap = Ok c"
    unfolding c_def using assms by (intro fixed_growth_exact) (simp add: size_bounds)
  have le: "cap' \<le> 2 * sz + 24"
    using assms(1) by (auto simp: cap'_def c_def)
  have "esz * cap' \<le> 16 * (2 * sz + 24)"
    using assms(4) le by (intro mult_mono) auto
  also have "\<dots> \<le> ALLOC_MAX"
    using assms(2) by (simp add: size_bounds)
  finally have fits: "esz * cap' \<le> ALLOC_MAX" .
  then have "st_mult esz cap' = Ok (esz * cap')"
    using assms(3) by (intro st_mult_exact) (auto simp: size_bounds)
  with fits have "realloc_array esz p cap'
      = Ok (resize_block (case p of None \<Rightarrow> [] | Some b \<Rightarrow> b) cap')"
    by (simp add: realloc_array_def)
  with fg assms(1) have "capacity_grow esz p sz cap
      = Ok (Some (resize_block (case p of None \<Rightarrow> [] | Some b \<Rightarrow> b) cap'), cap')"
    by (simp add: capacity_grow_def cap'_def)
  moreover have "sz \<le> cap'" "cap' \<le> grown_bound sz cap" "cap + cap div 2 \<le> cap'"
    using le by (auto simp: grown_bound_def cap'_def c_def)
  ultimately show thesis by (rule that)
qed

text \<open>The form the clients use: the pointer points to a block of \<open>cap\<close> cells.\<close>

lemma capacity_grow_block:
  assumes "length b = cap" "sz \<le> 4 * SAFE_SIZE" "0 < esz" "esz \<le> 16"
  obtains b' cap' where
    "capacity_grow esz (Some b) sz cap = Ok (Some b', cap')"
    "length b' = cap'" "sz \<le> cap'" "cap' \<le> grown_bound sz cap"
    "take cap b' = b"
proof (cases "cap < sz")
  case True
  then obtain cap' where g:
      "capacity_grow esz (Some b) sz cap = Ok (Some (resize_block b cap'), cap')"
      "sz \<le> cap'" "cap' \<le> grown_bound sz cap"
    using capacity_grow_step [of cap sz esz "Some b"] assms by auto
  then have "take cap (resize_block b cap') = b"
    using assms(1) True by simp
  with g show thesis by (intro that) auto
next
  case False
  with assms show thesis
    by (intro that [of b cap]) (auto simp: capacity_grow_def grown_bound_def)
qed

end
