(* ===== verification/Strbuf.thy ===== *)
theory Strbuf
  imports Helper
begin

text \<open>
  The string buffer of \<^verbatim>\<open>src/src/strbuf.c\<close> and \<^verbatim>\<open>src/src/strbuf.h\<close>, kept at the
  level of its memory block: every operation writes the bytes the C code writes, grows
  through \<open>capacity_grow\<close>, and fails where the C code would.  \<open>strbuf_rep sb s\<close>
  says that a buffer holds the string \<open>s\<close>; the lemmas of the last sections show that
  each operation is total on such buffers and does to \<open>s\<close> what its name says.
  The locale \<open>append_sink\<close> is the interface the rest of the program uses.
\<close>

section \<open>State\<close>

text \<open>
  The buffer pointer is NULL, the shared one-byte \<^verbatim>\<open>strbuf_defbuf\<close>, or a heap block.
\<close>

datatype bufptr = NullBuf | Defbuf | Heap "char block"

record strbuf =
  sb_buf :: bufptr
  sb_length :: size_t
  sb_capacity :: size_t

definition STRBUF_INIT :: strbuf where
  "STRBUF_INIT = \<lparr>sb_buf = Defbuf, sb_length = 0, sb_capacity = 0\<rparr>"

text \<open>
  Stores through the buffer pointer.  The default buffer has one byte, which the code
  only ever sets to NUL, its initial value.
\<close>

fun buf_write :: "bufptr \<Rightarrow> nat \<Rightarrow> char list \<Rightarrow> bufptr res" where
  "buf_write NullBuf i xs = (if xs = [] then Ok NullBuf else Halt (Undef ''store through NULL''))"
| "buf_write Defbuf i xs =
     (if xs = [] \<or> (i = 0 \<and> xs = [NUL]) then Ok Defbuf
      else Halt (Undef ''store into strbuf_defbuf''))"
| "buf_write (Heap b) i xs = bind_res (mem_write b i xs) (\<lambda>b'. Ok (Heap b'))"

fun buf_read :: "bufptr \<Rightarrow> nat \<Rightarrow> nat \<Rightarrow> char list res" where
  "buf_read NullBuf i n = (if n = 0 then Ok [] else Halt (Undef ''load through NULL''))"
| "buf_read Defbuf i n = mem_read [Some NUL] i n"
| "buf_read (Heap b) i n = mem_read b i n"

definition set_byte :: "strbuf \<Rightarrow> nat \<Rightarrow> char \<Rightarrow> strbuf res" where
  "set_byte sb i c = bind_res (buf_write (sb_buf sb) i [c]) (\<lambda>p. Ok (sb\<lparr>sb_buf := p\<rparr>))"

definition copy_in :: "strbuf \<Rightarrow> nat \<Rightarrow> char list \<Rightarrow> strbuf res" where
  "copy_in sb i xs = bind_res (buf_write (sb_buf sb) i xs) (\<lambda>p. Ok (sb\<lparr>sb_buf := p\<rparr>))"

section \<open>Operations\<close>

text \<open>strbuf_destroy frees the block; only whether there was one to free is visible.\<close>

definition strbuf_destroy :: "strbuf \<Rightarrow> bool" where
  "strbuf_destroy sb \<longleftrightarrow> sb_capacity sb \<noteq> 0"

definition strbuf_trunc :: "strbuf \<Rightarrow> strbuf res" where
  "strbuf_trunc sb = bind_res (set_byte sb 0 NUL) (\<lambda>sb. Ok (sb\<lparr>sb_length := 0\<rparr>))"

fun bufptr_block :: "bufptr \<Rightarrow> char block option res" where
  "bufptr_block NullBuf = Ok None"
| "bufptr_block Defbuf = Halt (Undef ''realloc of strbuf_defbuf'')"
| "bufptr_block (Heap b) = Ok (Some b)"

fun block_bufptr :: "char block option \<Rightarrow> bufptr" where
  "block_bufptr None = NullBuf"
| "block_bufptr (Some b) = Heap b"

definition strbuf_grow :: "strbuf \<Rightarrow> size_t \<Rightarrow> strbuf res" where
  "strbuf_grow sb request_size =
     (let factory_new = (sb_capacity sb = 0);
          sb = (if factory_new then sb\<lparr>sb_buf := NullBuf\<rparr> else sb)
      in bind_res (bufptr_block (sb_buf sb)) (\<lambda>p.
         bind_res (capacity_grow 1 p (sz_wrap (sb_length sb + request_size + 1))
                                     (sb_capacity sb)) (\<lambda>(p', cap').
         let sb = sb\<lparr>sb_buf := block_bufptr p', sb_capacity := cap'\<rparr>
         in if factory_new then set_byte sb 0 NUL else Ok sb)))"

definition strbuf_setlen :: "strbuf \<Rightarrow> size_t \<Rightarrow> strbuf res" where
  "strbuf_setlen sb len =
     bind_res (if sb_buf sb \<noteq> Defbuf then set_byte sb len NUL else Ok sb)
              (\<lambda>sb. Ok (sb\<lparr>sb_length := len\<rparr>))"

definition strbuf_addlen :: "strbuf \<Rightarrow> size_t \<Rightarrow> strbuf res" where
  "strbuf_addlen sb newlen = strbuf_setlen sb (sz_wrap (sb_length sb + newlen))"

definition strbuf_size_avail :: "strbuf \<Rightarrow> size_t" where
  "strbuf_size_avail sb =
     (if sb_capacity sb = 0 then 0
      else sz_sub (sz_sub (sb_capacity sb) (sb_length sb)) 1)"

text \<open>
  vsnprintf into the free part of the buffer: \<open>out\<close> is the text the format produces,
  of which at most \<open>size - 1\<close> bytes and a NUL are stored.
\<close>

definition vsnprintf_tail :: "strbuf \<Rightarrow> string \<Rightarrow> strbuf res" where
  "vsnprintf_tail sb out =
     (let room = sb_capacity sb - sb_length sb
      in if room = 0 then Ok sb
         else copy_in sb (sb_length sb) (take (room - 1) out @ [NUL]))"

definition strbuf_vprintf :: "strbuf \<Rightarrow> string \<Rightarrow> strbuf res" where
  "strbuf_vprintf sb out =
     bind_res (if strbuf_size_avail sb = 0 then strbuf_grow sb 64 else Ok sb) (\<lambda>sb.
     bind_res (vsnprintf_tail sb out) (\<lambda>sb.
     if INT_MAX < length out then Halt (Bug ''your vsnprintf is broken'')
     else bind_res
            (if strbuf_size_avail sb < length out
             then bind_res (strbuf_grow sb (length out)) (\<lambda>sb. vsnprintf_tail sb out)
             else Ok sb)
            (\<lambda>sb. strbuf_addlen sb (length out))))"

definition strbuf_printf :: "strbuf \<Rightarrow> string \<Rightarrow> strbuf res" where
  "strbuf_printf sb out = strbuf_vprintf sb out"

definition strbuf_putchar :: "strbuf \<Rightarrow> char \<Rightarrow> strbuf res" where
  "strbuf_putchar sb c =
     bind_res (if strbuf_size_avail sb = 0 then strbuf_grow sb 1 else Ok sb) (\<lambda>sb.
     bind_res (set_byte sb (sb_length sb) c) (\<lambda>sb.
     let sb = sb\<lparr>sb_length := sz_wrap (sb_length sb + 1)\<rparr>
     in set_byte sb (sb_length sb) NUL))"

text \<open>\<open>str\<close> is the memory at the source pointer, from which \<open>sz\<close> bytes are copied.\<close>

definition strbuf_write :: "strbuf \<Rightarrow> string \<Rightarrow> size_t \<Rightarrow> strbuf res" where
  "strbuf_write sb str sz =
     bind_res (if strbuf_size_avail sb < sz then strbuf_grow sb sz else Ok sb) (\<lambda>sb.
     if length str < sz then Halt (Undef ''memcpy reads outside the source'')
     else bind_res (copy_in sb (sb_length sb) (take sz str)) (\<lambda>sb.
          strbuf_addlen sb sz))"

definition strbuf_concat :: "strbuf \<Rightarrow> string \<Rightarrow> strbuf res" where
  "strbuf_concat sb str = strbuf_write sb str (length str)"

definition strbuf_puts :: "strbuf \<Rightarrow> string \<Rightarrow> strbuf res" where
  "strbuf_puts sb str =
     (let sz = length str + 1
      in bind_res (if strbuf_size_avail sb < sz then strbuf_grow sb sz else Ok sb) (\<lambda>sb.
         bind_res (copy_in sb (sb_length sb) (take (sz - 1) str)) (\<lambda>sb.
         bind_res (set_byte sb (sb_length sb + (sz - 1)) NL) (\<lambda>sb.
         strbuf_addlen sb sz))))"

fun trim_end_loop :: "bufptr \<Rightarrow> size_t \<Rightarrow> size_t res" where
  "trim_end_loop p 0 = Ok 0"
| "trim_end_loop p (Suc n) =
     bind_res (buf_read p n 1) (\<lambda>cs.
       if c_isspace (hd cs) then trim_end_loop p n else Ok (Suc n))"

definition strbuf_trim_end :: "strbuf \<Rightarrow> strbuf res" where
  "strbuf_trim_end sb =
     bind_res (trim_end_loop (sb_buf sb) (sb_length sb)) (\<lambda>len.
       set_byte (sb\<lparr>sb_length := len\<rparr>) len NUL)"

text \<open>The copy strbuf_detach returns is given as its bytes, terminator included.\<close>

definition strbuf_detach :: "strbuf \<Rightarrow> (string \<times> strbuf) res" where
  "strbuf_detach sb =
     (let n = sz_wrap (sb_length sb + 1)
      in if ALLOC_MAX < n then Halt (Undef ''memcpy to the NULL of a failed malloc'')
         else bind_res (buf_read (sb_buf sb) 0 n) (\<lambda>bufcopy.
              bind_res (strbuf_trunc sb) (\<lambda>sb. Ok (bufcopy, sb))))"

text \<open>strlen on a block: the number of initialised bytes before the first NUL.\<close>

fun block_strlen :: "char block \<Rightarrow> nat res" where
  "block_strlen [] = Halt (Undef ''strlen runs off the block'')"
| "block_strlen (None # b) = Halt (Undef ''read of an uninitialised cell'')"
| "block_strlen (Some c # b) =
     (if c = NUL then Ok 0 else bind_res (block_strlen b) (\<lambda>n. Ok (Suc n)))"

definition strbuf_from_buf :: "strbuf \<Rightarrow> char block option \<Rightarrow> strbuf res" where
  "strbuf_from_buf sb buf =
     (if sb_buf sb \<noteq> NullBuf
      then Halt (Bug ''calling strbuf_from_buf() on a non empty strbuf'')
      else case buf of
             None \<Rightarrow> Ok sb
           | Some b \<Rightarrow>
               bind_res (block_strlen b) (\<lambda>n.
                 strbuf_grow (sb\<lparr>sb_buf := Heap b, sb_length := n, sb_capacity := n + 1\<rparr>) 64))"

section \<open>What a buffer represents\<close>

definition strbuf_rep :: "strbuf \<Rightarrow> string \<Rightarrow> bool" where
  "strbuf_rep sb s \<longleftrightarrow>
     (case sb_buf sb of
        NullBuf \<Rightarrow> False
      | Defbuf \<Rightarrow> s = [] \<and> sb_length sb = 0 \<and> sb_capacity sb = 0
      | Heap b \<Rightarrow> sb_length sb = length s \<and> length b = sb_capacity sb
                \<and> sb_capacity sb \<le> 4 * SAFE_SIZE
                \<and> take (length s + 1) b = map Some (s @ [NUL]))"

lemma strbuf_rep_INIT [simp]: "strbuf_rep STRBUF_INIT []"
  by (simp add: strbuf_rep_def STRBUF_INIT_def)

lemma strbuf_rep_cases:
  assumes "strbuf_rep sb s"
  obtains (fresh) "sb_buf sb = Defbuf" "s = []" "sb_length sb = 0" "sb_capacity sb = 0"
  | (heap) b where "sb_buf sb = Heap b" "sb_length sb = length s" "length b = sb_capacity sb"
      "sb_capacity sb \<le> 4 * SAFE_SIZE" "length s < sb_capacity sb"
      "take (length s) b = map Some s" "b ! length s = Some NUL"
proof (cases "sb_buf sb")
  case (Heap b)
  with assms have h: "sb_length sb = length s" "length b = sb_capacity sb"
      "sb_capacity sb \<le> 4 * SAFE_SIZE" "take (length s + 1) b = map Some (s @ [NUL])"
    by (auto simp: strbuf_rep_def)
  from arg_cong [OF h(4), of length] have l: "length s < length b"
    by (simp split: if_splits)
  with h(4) have "take (length s) b @ [b ! length s] = map Some s @ [Some NUL]"
    by (simp add: take_Suc_conv_app_nth)
  with heap [OF Heap h(1-3)] h(2) l show thesis
    by simp
qed (use assms in \<open>auto simp: strbuf_rep_def intro: fresh\<close>)

lemma strbuf_rep_heapI:
  assumes "sb_buf sb = Heap b" "sb_length sb = length s" "length b = sb_capacity sb"
    "sb_capacity sb \<le> 4 * SAFE_SIZE" "length s < sb_capacity sb"
    "take (length s) b = map Some s" "b ! length s = Some NUL"
  shows "strbuf_rep sb s"
  using assms by (simp add: strbuf_rep_def take_Suc_conv_app_nth)

lemma strbuf_size_avail_rep:
  "strbuf_rep sb s \<Longrightarrow>
   strbuf_size_avail sb = (if sb_capacity sb = 0 then 0 else sb_capacity sb - length s - 1)"
  by (erule strbuf_rep_cases) (simp_all add: strbuf_size_avail_def size_bounds)

section \<open>Growing\<close>

text \<open>Growing a heap buffer keeps every byte of the block.\<close>

lemma strbuf_grow_heap:
  assumes "sb_buf sb = Heap b" "length b = sb_capacity sb" "0 < sb_capacity sb"
    "sb_capacity sb \<le> 4 * SAFE_SIZE" "sb_length sb + n \<le> SAFE_SIZE + 64"
  obtains b' where
    "strbuf_grow sb n = Ok (sb\<lparr>sb_buf := Heap b', sb_capacity := length b'\<rparr>)"
    "length b' \<le> 4 * SAFE_SIZE" "sb_length sb + n < length b'"
    "take (sb_capacity sb) b' = b" "sb_capacity sb \<le> length b'"
proof -
  let ?n = "sb_length sb + n + 1"
  have pre: "length b = sb_capacity sb" "?n \<le> 4 * SAFE_SIZE" "(0::nat) < 1" "(1::nat) \<le> 16"
    using assms by (simp_all add: size_bounds)
  obtain b' cap' where g:
      "capacity_grow 1 (Some b) ?n (sb_capacity sb) = Ok (Some b', cap')"
      "length b' = cap'" "?n \<le> cap'" "cap' \<le> grown_bound ?n (sb_capacity sb)"
      "take (sb_capacity sb) b' = b"
    by (rule capacity_grow_block [OF pre])
  have wrap: "sz_wrap ?n = ?n"
    using assms by (intro sz_wrap_small) (simp add: size_bounds)
  have "strbuf_grow sb n = Ok (sb\<lparr>sb_buf := Heap b', sb_capacity := length b'\<rparr>)"
    using g assms wrap by (simp add: strbuf_grow_def Let_def)
  moreover have "length b' \<le> 4 * SAFE_SIZE"
    using g(2,4) assms by (simp add: grown_bound_def size_bounds)
  moreover have "sb_capacity sb \<le> length b'"
    using arg_cong [OF g(5), of length] assms(2) by simp
  ultimately show thesis
    using g by (intro that) auto
qed

lemma take_nth_of_prefix:
  assumes "take n xs = ys" "k < n"
  shows "take k xs = take k ys" "xs ! k = ys ! k"
  using assms by (auto simp: min_def)

lemma strbuf_grow_fresh:
  assumes "sb_length sb = 0" "sb_capacity sb = 0" "n \<le> SAFE_SIZE + 64"
  obtains b' where
    "strbuf_grow sb n = Ok (sb\<lparr>sb_buf := Heap b', sb_capacity := length b'\<rparr>)"
    "length b' \<le> 4 * SAFE_SIZE" "n < length b'" "b' ! 0 = Some NUL"
proof -
  have pre: "0 < n + 1" "n + 1 \<le> 4 * SAFE_SIZE" "(0::nat) < 1" "(1::nat) \<le> 16"
    using assms by (simp_all add: size_bounds)
  obtain cap' where g:
      "capacity_grow 1 (None :: char block option) (n + 1) 0
         = Ok (Some (resize_block [] cap'), cap')"
      "n + 1 \<le> cap'" "cap' \<le> grown_bound (n + 1) 0"
    by (rule capacity_grow_step [of 0 "n + 1" 1 "None :: char block option",
          unfolded option.case, OF pre]) blast
  let ?b = "Some NUL # replicate (cap' - 1) None"
  have "mem_write (resize_block [] cap') 0 [NUL] = Ok ?b"
    using g(2) by (cases cap') (auto simp: mem_write_def resize_block_def)
  moreover have "length ?b = cap'"
    using g(2) by simp
  ultimately have "strbuf_grow sb n = Ok (sb\<lparr>sb_buf := Heap ?b, sb_capacity := length ?b\<rparr>)"
    using g(1) assms by (simp add: strbuf_grow_def Let_def set_byte_def size_bounds)
  then show thesis
    using g assms(3) by (intro that [of ?b]) (auto simp: grown_bound_def size_bounds)
qed

lemma strbuf_grow_rep:
  assumes rep: "strbuf_rep sb s" and room: "length s + n \<le> SAFE_SIZE + 64"
  obtains sb' b where "strbuf_grow sb n = Ok sb'" "strbuf_rep sb' s"
    "sb_buf sb' = Heap b" "length s + n < length b"
  using rep
proof (cases rule: strbuf_rep_cases)
  case fresh
  obtain b' where g:
      "strbuf_grow sb n = Ok (sb\<lparr>sb_buf := Heap b', sb_capacity := length b'\<rparr>)"
      "length b' \<le> 4 * SAFE_SIZE" "n < length b'" "b' ! 0 = Some NUL"
    using strbuf_grow_fresh fresh room by (metis add_0 list.size(3))
  then show thesis
    using fresh by (intro that [of _ b']) (auto intro!: strbuf_rep_heapI)
next
  case (heap b)
  have pre: "0 < sb_capacity sb" "sb_length sb + n \<le> SAFE_SIZE + 64"
    using heap room by auto
  obtain b' where g:
      "strbuf_grow sb n = Ok (sb\<lparr>sb_buf := Heap b', sb_capacity := length b'\<rparr>)"
      "length b' \<le> 4 * SAFE_SIZE" "sb_length sb + n < length b'"
      "take (sb_capacity sb) b' = b" "sb_capacity sb \<le> length b'"
    by (rule strbuf_grow_heap [OF heap(1,3) pre(1) heap(4) pre(2)])
  from g(4) heap(5) have "take (length s) b' = take (length s) b" "b' ! length s = b ! length s"
    by (rule take_nth_of_prefix)+
  then show thesis
    using heap g by (intro that [of _ b']) (auto intro!: strbuf_rep_heapI)
qed

text \<open>The prologue of every writer: room for \<open>n\<close> more bytes and the terminator.\<close>

lemma strbuf_room:
  assumes rep: "strbuf_rep sb s" and fits: "length s + n \<le> SAFE_SIZE"
  obtains sb' where
    "(if strbuf_size_avail sb < n then strbuf_grow sb n else Ok sb) = Ok sb'"
    "strbuf_rep sb' s"
    "(n = 0 \<and> sb' = sb) \<or> (\<exists>b. sb_buf sb' = Heap b \<and> length s + n < length b)"
proof (cases "strbuf_size_avail sb < n")
  case True
  obtain sb' b where "strbuf_grow sb n = Ok sb'" "strbuf_rep sb' s"
      "sb_buf sb' = Heap b" "length s + n < length b"
    using strbuf_grow_rep [OF rep] fits by (metis le_add1 order_trans)
  with True show thesis by (intro that) auto
next
  case False
  with rep show thesis
    by (intro that [of sb]) (auto simp: strbuf_size_avail_rep elim!: strbuf_rep_cases)
qed

text \<open>The epilogue: bytes copied behind the contents become contents.\<close>

lemma strbuf_append_rep:
  assumes rep: "strbuf_rep sb s"
    and room: "(xs = []) \<or> (\<exists>b. sb_buf sb = Heap b \<and> length s + length xs < length b)"
  obtains sb' where
    "bind_res (copy_in sb (sb_length sb) xs) (\<lambda>sb. strbuf_addlen sb (length xs)) = Ok sb'"
    "strbuf_rep sb' (s @ xs)"
  using rep
proof (cases rule: strbuf_rep_cases)
  case fresh
  with room have "xs = []" by auto
  with fresh rep show thesis
    by (intro that [of "sb\<lparr>sb_buf := Defbuf, sb_length := 0\<rparr>"])
       (auto simp: copy_in_def strbuf_addlen_def strbuf_setlen_def strbuf_rep_def sz_wrap_def)
next
  case (heap b)
  have len: "length s + length xs < length b"
    using room heap by auto
  let ?b1 = "map Some (s @ xs) @ drop (length s + length xs) b"
  let ?b2 = "map Some (s @ xs @ [NUL]) @ drop (length s + length xs + 1) b"
  let ?sb = "sb\<lparr>sb_buf := Heap ?b2, sb_length := length (s @ xs)\<rparr>"
  have w1: "mem_write b (length s) xs = Ok ?b1"
    using heap len by (intro mem_write_prefix) auto
  have w2: "mem_write ?b1 (length (s @ xs)) [NUL] = Ok ?b2"
    using len mem_write_prefix [of "s @ xs" ?b1 "[NUL]"] by (simp add: Suc_diff_Suc)
  have wrap: "sz_wrap (length s + length xs) = length s + length xs"
    using len heap by (intro sz_wrap_small) (simp add: size_bounds)
  have "bind_res (copy_in sb (sb_length sb) xs) (\<lambda>sb. strbuf_addlen sb (length xs)) = Ok ?sb"
    using heap w1 w2 wrap
    by (simp add: copy_in_def strbuf_addlen_def strbuf_setlen_def set_byte_def)
  moreover have "strbuf_rep ?sb (s @ xs)"
    using heap len by (intro strbuf_rep_heapI [where b = ?b2]) (auto simp: nth_append)
  ultimately show thesis by (rule that)
qed

section \<open>Every operation on a represented buffer\<close>

lemma strbuf_write_rep:
  assumes "strbuf_rep sb s" "length s + sz \<le> SAFE_SIZE" "sz \<le> length str"
  obtains sb' where "strbuf_write sb str sz = Ok sb'" "strbuf_rep sb' (s @ take sz str)"
proof -
  obtain sb1 where r: "(if strbuf_size_avail sb < sz then strbuf_grow sb sz else Ok sb) = Ok sb1"
      "strbuf_rep sb1 s"
      "sz = 0 \<and> sb1 = sb \<or> (\<exists>b. sb_buf sb1 = Heap b \<and> length s + sz < length b)"
    by (rule strbuf_room [OF assms(1,2)])
  have "take sz str = [] \<or> (\<exists>b. sb_buf sb1 = Heap b \<and> length s + length (take sz str) < length b)"
    using r(3) assms(3) by auto
  then obtain sb2 where
      "bind_res (copy_in sb1 (sb_length sb1) (take sz str))
         (\<lambda>sb. strbuf_addlen sb (length (take sz str))) = Ok sb2"
      "strbuf_rep sb2 (s @ take sz str)"
    by (rule strbuf_append_rep [OF r(2)])
  with r(1) assms(3) show thesis
    by (intro that) (auto simp: strbuf_write_def)
qed

lemma mem_write_append:
  assumes "i + length xs + length ys \<le> length b"
  obtains b1 where "mem_write b i xs = Ok b1"
    "mem_write b1 (i + length xs) ys = mem_write b i (xs @ ys)"
proof
  let ?b1 = "take i b @ map Some xs @ drop (i + length xs) b"
  show "mem_write b i xs = Ok ?b1"
    using assms by (simp add: mem_write_def)
  have "length (take i b) = i"
    using assms by simp
  then show "mem_write ?b1 (i + length xs) ys = mem_write b i (xs @ ys)"
    using assms by (simp add: mem_write_def ac_simps)
qed

lemma copy_in_append_heap:
  assumes "sb_buf sb = Heap b" "i + length xs + length ys \<le> length b"
  shows "bind_res (copy_in sb i xs) (\<lambda>sb'. bind_res (copy_in sb' (i + length xs) ys) f)
         = bind_res (copy_in sb i (xs @ ys)) f"
proof -
  obtain b1 where "mem_write b i xs = Ok b1"
      "mem_write b1 (i + length xs) ys = mem_write b i (xs @ ys)"
    by (rule mem_write_append [OF assms(2)])
  with assms(1) show ?thesis
    by (simp add: copy_in_def res_simps)
qed

lemma copy_in_length: "copy_in sb i xs = Ok sb' \<Longrightarrow> sb_length sb' = sb_length sb"
  by (auto simp: copy_in_def res_simps)

lemma strbuf_puts_rep:
  assumes "strbuf_rep sb s" "length s + length str + 1 \<le> SAFE_SIZE"
  obtains sb' where "strbuf_puts sb str = Ok sb'" "strbuf_rep sb' (s @ str @ [NL])"
proof -
  let ?sz = "length str + 1"
  have fits: "length s + ?sz \<le> SAFE_SIZE" using assms(2) by simp
  obtain sb1 where r: "(if strbuf_size_avail sb < ?sz then strbuf_grow sb ?sz else Ok sb) = Ok sb1"
      "strbuf_rep sb1 s"
      "?sz = 0 \<and> sb1 = sb \<or> (\<exists>b. sb_buf sb1 = Heap b \<and> length s + ?sz < length b)"
    by (rule strbuf_room [OF assms(1) fits])
  then obtain b where b: "sb_buf sb1 = Heap b" "length s + ?sz < length b"
    by auto
  have len: "sb_length sb1 = length s"
    using r(2) b(1) by (auto elim: strbuf_rep_cases)
  obtain sb2 where s2:
      "bind_res (copy_in sb1 (sb_length sb1) (str @ [NL]))
         (\<lambda>sb. strbuf_addlen sb (length (str @ [NL]))) = Ok sb2"
      "strbuf_rep sb2 (s @ str @ [NL])"
    by (rule strbuf_append_rep [OF r(2), of "str @ [NL]"]) (use b in auto)
  have "strbuf_puts sb str =
      bind_res (copy_in sb1 (length s) str)
        (\<lambda>sb. bind_res (copy_in sb (length s + length str) [NL]) (\<lambda>sb. strbuf_addlen sb ?sz))"
    using r(1) len
    by (auto simp: strbuf_puts_def copy_in_def set_byte_def res_simps
        intro!: bind_res_cong)
  also have "\<dots> = bind_res (copy_in sb1 (length s) (str @ [NL])) (\<lambda>sb. strbuf_addlen sb ?sz)"
    using b by (intro copy_in_append_heap) auto
  finally show thesis
    using s2 len by (intro that) auto
qed

lemma strbuf_putchar_rep:
  assumes "strbuf_rep sb s" "length s + 1 \<le> SAFE_SIZE"
  obtains sb' where "strbuf_putchar sb c = Ok sb'" "strbuf_rep sb' (s @ [c])"
proof -
  obtain sb1 where r: "(if strbuf_size_avail sb < 1 then strbuf_grow sb 1 else Ok sb) = Ok sb1"
      "strbuf_rep sb1 s"
      "(1::nat) = 0 \<and> sb1 = sb \<or> (\<exists>b. sb_buf sb1 = Heap b \<and> length s + 1 < length b)"
    by (rule strbuf_room [OF assms])
  then obtain b where b: "sb_buf sb1 = Heap b" "length s + 1 < length b"
    by auto
  obtain sb2 where s2:
      "bind_res (copy_in sb1 (sb_length sb1) [c]) (\<lambda>sb. strbuf_addlen sb (length [c])) = Ok sb2"
      "strbuf_rep sb2 (s @ [c])"
    by (rule strbuf_append_rep [OF r(2), of "[c]"]) (use b in auto)
  have "(if strbuf_size_avail sb = 0 then strbuf_grow sb 1 else Ok sb) = Ok sb1"
    using r(1) by simp
  then have eq: "strbuf_putchar sb c =
      bind_res (copy_in sb1 (sb_length sb1) [c]) (\<lambda>sb. 
        set_byte (sb\<lparr>sb_length := sz_wrap (sb_length sb + 1)\<rparr>) (sz_wrap (sb_length sb + 1)) NUL)"
    by (simp add: strbuf_putchar_def copy_in_def set_byte_def Let_def)
  obtain b1 where c1: "copy_in sb1 (sb_length sb1) [c] = Ok (sb1\<lparr>sb_buf := Heap b1\<rparr>)"
    using s2(1) b(1) by (auto simp: copy_in_def res_simps)
  then have "strbuf_putchar sb c = Ok sb2"
    using s2(1) eq
    by (cases sb1) (simp add: strbuf_addlen_def strbuf_setlen_def set_byte_def res_simps)
  from this s2(2) show thesis by (rule that)
qed

lemma strbuf_trunc_rep:
  assumes "strbuf_rep sb s"
  obtains sb' where "strbuf_trunc sb = Ok sb'" "strbuf_rep sb' []"
  using assms
proof (cases rule: strbuf_rep_cases)
  case fresh
  with assms show thesis
    by (intro that [of sb]) (auto simp: strbuf_trunc_def set_byte_def strbuf_rep_def)
next
  case (heap b)
  then have "mem_write b 0 [NUL] = Ok (Some NUL # drop 1 b)"
    by (simp add: mem_write_def)
  with heap show thesis
    by (intro that [of "sb\<lparr>sb_buf := Heap (Some NUL # drop 1 b), sb_length := 0\<rparr>"])
       (auto simp: strbuf_trunc_def set_byte_def intro!: strbuf_rep_heapI)
qed

lemma strbuf_detach_rep:
  assumes "strbuf_rep sb s" "length s \<le> SAFE_SIZE"
  obtains sb' where "strbuf_detach sb = Ok (s @ [NUL], sb')" "strbuf_rep sb' []"
proof -
  obtain sb' where t: "strbuf_trunc sb = Ok sb'" "strbuf_rep sb' []"
    by (rule strbuf_trunc_rep [OF assms(1)])
  have len: "sb_length sb = length s"
    using assms(1) by (auto elim: strbuf_rep_cases)
  then have n: "sz_wrap (sb_length sb + 1) = length s + 1" "\<not> ALLOC_MAX < length s + 1"
    using assms(2) by (auto simp: size_bounds)
  have "buf_read (sb_buf sb) 0 (length s + 1) = Ok (s @ [NUL])"
    using assms(1)
  proof (cases rule: strbuf_rep_cases)
    case fresh
    then show ?thesis by (simp add: mem_read_def)
  next
    case (heap b)
    then have "take (length s + 1) b = map Some (s @ [NUL])"
      by (simp add: take_Suc_conv_app_nth)
    then show ?thesis
      using heap mem_read_prefix [of "length s + 1" b "s @ [NUL]"] by simp
  qed
  with t n show thesis
    by (intro that) (auto simp: strbuf_detach_def Let_def)
qed

text \<open>
  strbuf_vprintf formats twice when the first attempt was cut off.  The cut-off text lies
  behind the contents, so the second attempt still finds \<open>s\<close> in front of it.
\<close>

lemma vsnprintf_tail_fits:
  assumes "sb_buf sb = Heap b" "sb_length sb = length s" "length b = sb_capacity sb"
    "sb_capacity sb \<le> 4 * SAFE_SIZE" "take (length s) b = map Some s"
    "length s + length out < length b"
  obtains sb' where
    "bind_res (vsnprintf_tail sb out) (\<lambda>sb. strbuf_addlen sb (length out)) = Ok sb'"
    "strbuf_rep sb' (s @ out)"
proof -
  let ?b1 = "map Some (s @ out @ [NUL]) @ drop (length s + length out + 1) b"
  let ?sb = "sb\<lparr>sb_buf := Heap ?b1, sb_length := length (s @ out)\<rparr>"
  have room: "take (sb_capacity sb - sb_length sb - 1) out = out"
    using assms by simp
  have "mem_write b (length s) (out @ [NUL]) = Ok ?b1"
    using assms(5,6) mem_write_prefix [OF assms(5), of "out @ [NUL]"] by simp
  then have "vsnprintf_tail sb out = Ok (sb\<lparr>sb_buf := Heap ?b1\<rparr>)"
    unfolding vsnprintf_tail_def Let_def room using assms by (simp add: copy_in_def)
  moreover have "mem_write ?b1 (length (s @ out)) [NUL] = Ok ?b1"
    using assms(6) mem_write_prefix [of "s @ out" ?b1 "[NUL]"] by simp
  moreover have "sz_wrap (length s + length out) = length s + length out"
    using assms by (intro sz_wrap_small) (simp add: size_bounds)
  ultimately have "bind_res (vsnprintf_tail sb out) (\<lambda>sb. strbuf_addlen sb (length out)) = Ok ?sb"
    using assms by (simp add: strbuf_addlen_def strbuf_setlen_def set_byte_def)
  moreover have "strbuf_rep ?sb (s @ out)"
    using assms by (intro strbuf_rep_heapI [where b = ?b1]) (auto simp: nth_append)
  ultimately show thesis by (rule that)
qed

lemma vsnprintf_tail_cut:
  assumes "sb_buf sb = Heap b" "sb_length sb = length s" "length b = sb_capacity sb"
    "take (length s) b = map Some s" "length s < length b" "length b \<le> length s + length out"
  obtains b1 where
    "vsnprintf_tail sb out = Ok (sb\<lparr>sb_buf := Heap b1\<rparr>)" "length b1 = length b"
    "take (length s) b1 = map Some s"
proof -
  let ?part = "take (length b - length s - 1) out @ [NUL]"
  have "length s + length ?part = length b"
    using assms(5,6) by simp
  then have "mem_write b (length s) ?part = Ok (map Some (s @ ?part))"
    using mem_write_prefix [OF assms(4), of ?part] by simp
  then have "vsnprintf_tail sb out = Ok (sb\<lparr>sb_buf := Heap (map Some (s @ ?part))\<rparr>)"
    using assms by (simp add: vsnprintf_tail_def Let_def copy_in_def)
  then show thesis
    using assms(5,6) by (intro that [of "map Some (s @ ?part)"]) auto
qed

lemma strbuf_printf_rep:
  assumes rep: "strbuf_rep sb s" and out: "length out \<le> INT_MAX"
    and fits: "length s + length out \<le> SAFE_SIZE"
  obtains sb' where "strbuf_printf sb out = Ok sb'" "strbuf_rep sb' (s @ out)"
proof -
  obtain sb1 b where r: "(if strbuf_size_avail sb = 0 then strbuf_grow sb 64 else Ok sb) = Ok sb1"
      "strbuf_rep sb1 s" "sb_buf sb1 = Heap b"
  proof (cases "strbuf_size_avail sb = 0")
    case True
    have "length s + 64 \<le> SAFE_SIZE + 64" using fits by simp
    from strbuf_grow_rep [OF rep this] that True show ?thesis by metis
  next
    case False
    with rep obtain b where "sb_buf sb = Heap b"
      by (auto simp: strbuf_size_avail_def elim!: strbuf_rep_cases)
    with that [of sb b] rep False show ?thesis by simp
  qed
  from r(2,3) have h: "sb_length sb1 = length s" "length b = sb_capacity sb1"
      "sb_capacity sb1 \<le> 4 * SAFE_SIZE" "length s < length b" "take (length s) b = map Some s"
    by (auto elim: strbuf_rep_cases)
  have avail: "strbuf_size_avail (sb1\<lparr>sb_buf := p\<rparr>) = length b - length s - 1" for p
    using h by (auto simp: strbuf_size_avail_def size_bounds)
  show thesis
  proof (cases "length s + length out < length b")
    case True
    obtain sb' where sb': "bind_res (vsnprintf_tail sb1 out) (\<lambda>sb. strbuf_addlen sb (length out)) = Ok sb'"
        "strbuf_rep sb' (s @ out)"
      by (rule vsnprintf_tail_fits [OF r(3) h(1-3,5) True])
    moreover obtain p where "vsnprintf_tail sb1 out = Ok (sb1\<lparr>sb_buf := p\<rparr>)"
      using sb'(1) h by (auto simp: vsnprintf_tail_def copy_in_def Let_def res_simps)
    ultimately show ?thesis
      using r(1) out True avail
      by (intro that [of sb']) (auto simp: strbuf_printf_def strbuf_vprintf_def)
  next
    case False
    have cut: "length b \<le> length s + length out" using False by simp
    obtain b1 where b1: "vsnprintf_tail sb1 out = Ok (sb1\<lparr>sb_buf := Heap b1\<rparr>)"
        "length b1 = length b" "take (length s) b1 = map Some s"
      by (rule vsnprintf_tail_cut [OF r(3) h(1,2,5,4) cut])
    let ?sb2 = "sb1\<lparr>sb_buf := Heap b1\<rparr>"
    have pre: "sb_buf ?sb2 = Heap b1" "length b1 = sb_capacity ?sb2" "0 < sb_capacity ?sb2"
        "sb_capacity ?sb2 \<le> 4 * SAFE_SIZE" "sb_length ?sb2 + length out \<le> SAFE_SIZE + 64"
      using b1(2) h fits by auto
    obtain b2 where b2: "strbuf_grow ?sb2 (length out)
          = Ok (?sb2\<lparr>sb_buf := Heap b2, sb_capacity := length b2\<rparr>)"
        "length b2 \<le> 4 * SAFE_SIZE" "sb_length ?sb2 + length out < length b2"
        "take (sb_capacity ?sb2) b2 = b1"
      by (rule strbuf_grow_heap [OF pre])
    have "take (length s) b2 = map Some s"
      using take_nth_of_prefix(1) [OF b2(4), of "length s"] b1(3) h by simp
    then obtain sb' where
        "bind_res (vsnprintf_tail (?sb2\<lparr>sb_buf := Heap b2, sb_capacity := length b2\<rparr>) out)
           (\<lambda>sb. strbuf_addlen sb (length out)) = Ok sb'" "strbuf_rep sb' (s @ out)"
      using vsnprintf_tail_fits [of "?sb2\<lparr>sb_buf := Heap b2, sb_capacity := length b2\<rparr>" b2 s out]
        h b2 by auto
    moreover have "strbuf_size_avail ?sb2 < length out"
      using avail [of "Heap b1"] False h(4) by auto
    ultimately show ?thesis
      using r(1) out b1(1) b2(1)
      by (intro that [of sb']) (auto simp: strbuf_printf_def strbuf_vprintf_def res_simps)
  qed
qed

text \<open>Trimming: the trailing white space goes, the block stays.\<close>

definition rtrim :: "string \<Rightarrow> string" where
  "rtrim s = rev (dropWhile c_isspace (rev s))"

lemma rtrim_snoc: "rtrim (s @ [c]) = (if c_isspace c then rtrim s else s @ [c])"
  by (simp add: rtrim_def)

lemma length_rtrim: "length (rtrim s) \<le> length s"
  by (simp add: rtrim_def) (metis length_dropWhile_le length_rev)

lemma trim_end_loop_heap:
  "take (length s) b = map Some s \<Longrightarrow> length s \<le> length b \<Longrightarrow>
   trim_end_loop (Heap b) (length s) = Ok (length (rtrim s))"
proof (induction s rule: rev_induct)
  case Nil
  then show ?case by (simp add: rtrim_def)
next
  case (snoc c s)
  then have pre: "take (length s) b = map Some s" and nth: "b ! length s = Some c"
    by (auto simp: take_Suc_conv_app_nth)
  have "take 1 (drop (length s) b) = [Some c]"
    using nth snoc.prems(2) by (simp add: take_Suc drop_eq_Nil hd_drop_conv_nth)
  then have "mem_read b (length s) 1 = Ok [c]"
    using snoc.prems(2) by (simp add: mem_read_def)
  with snoc.IH [OF pre] snoc.prems(2) show ?case
    by (simp add: rtrim_snoc)
qed

lemma rtrim_prefix: "take (length (rtrim s)) s = rtrim s"
  by (metis rev_rev_ident rtrim_def append_eq_conv_conj rev_append takeWhile_dropWhile_id)

lemma strbuf_trim_end_rep:
  assumes "strbuf_rep sb s"
  obtains sb' where "strbuf_trim_end sb = Ok sb'" "strbuf_rep sb' (rtrim s)"
  using assms
proof (cases rule: strbuf_rep_cases)
  case fresh
  with assms show thesis
    by (intro that [of sb])
       (auto simp: strbuf_trim_end_def set_byte_def rtrim_def strbuf_rep_def)
next
  case (heap b)
  let ?t = "rtrim s"
  have len: "length ?t < length b" "length ?t \<le> length s"
    using heap length_rtrim [of s] by auto
  have pre: "take (length ?t) b = map Some ?t"
    using heap(6) len(2) rtrim_prefix [of s] by (metis min.absorb1 take_map take_take)
  let ?b1 = "map Some (?t @ [NUL]) @ drop (length ?t + 1) b"
  have "mem_write b (length ?t) [NUL] = Ok ?b1"
    using mem_write_prefix [OF pre, of "[NUL]"] len by simp
  moreover have "trim_end_loop (sb_buf sb) (sb_length sb) = Ok (length ?t)"
    using heap trim_end_loop_heap [of s b] by simp
  ultimately have "strbuf_trim_end sb
      = Ok (sb\<lparr>sb_length := length ?t, sb_buf := Heap ?b1\<rparr>)"
    using heap by (simp add: strbuf_trim_end_def set_byte_def)
  moreover have "strbuf_rep (sb\<lparr>sb_length := length ?t, sb_buf := Heap ?b1\<rparr>) ?t"
    using heap len by (intro strbuf_rep_heapI [where b = ?b1]) (auto simp: nth_append)
  ultimately show thesis by (rule that)
qed

text \<open>
  Adopting a heap string (strbuf_from_buf) gives a buffer that represents it; a buffer
  that already has one is refused.
\<close>

lemma block_strlen_cstring:
  "cstring s \<Longrightarrow> block_strlen (map Some s @ Some NUL # r) = Ok (length s)"
  by (induction s) (auto simp: cstring_def)

lemma strbuf_from_buf_rep:
  assumes "sb_buf sb = NullBuf" "cstring s" "length s + 64 \<le> SAFE_SIZE"
  obtains sb' where "strbuf_from_buf sb (Some (map Some (s @ [NUL]))) = Ok sb'" "strbuf_rep sb' s"
proof -
  let ?b = "map Some (s @ [NUL])"
  let ?sb = "sb\<lparr>sb_buf := Heap ?b, sb_length := length s, sb_capacity := length s + 1\<rparr>"
  have rep: "strbuf_rep ?sb s"
    using assms(3) by (intro strbuf_rep_heapI [where b = ?b]) (auto simp: nth_append size_bounds)
  have "length s + 64 \<le> SAFE_SIZE + 64" using assms(3) by simp
  from strbuf_grow_rep [OF rep this] obtain sb' where "strbuf_grow ?sb 64 = Ok sb'" "strbuf_rep sb' s"
    by metis
  with assms(1,2) that [of sb'] show thesis
    using block_strlen_cstring [OF assms(2), of "[]"] by (simp add: strbuf_from_buf_def)
qed

lemma strbuf_from_buf_nonempty:
  "sb_buf sb \<noteq> NullBuf \<Longrightarrow>
   strbuf_from_buf sb buf = Halt (Bug ''calling strbuf_from_buf() on a non empty strbuf'')"
  by (simp add: strbuf_from_buf_def)

section \<open>The buffer as an interface\<close>

text \<open>
  Clients only append.  A text sink has a representation relation and an operation that
  appends the text an item stands for, as long as the total stays below a limit; a run of
  appends then yields the concatenation of the texts.
\<close>

locale append_sink =
  fixes rep :: "'b \<Rightarrow> 'c list \<Rightarrow> bool"
    and put :: "'b \<Rightarrow> 'x \<Rightarrow> 'b res"
    and render :: "'x \<Rightarrow> 'c list"
    and admissible :: "'x \<Rightarrow> bool"
    and limit :: nat
  assumes put_appends:
    "rep b s \<Longrightarrow> admissible x \<Longrightarrow> length s + length (render x) \<le> limit \<Longrightarrow>
     \<exists>b'. put b x = Ok b' \<and> rep b' (s @ render x)"
begin

lemma put_all:
  assumes "rep b s" "\<forall>x\<in>set xs. admissible x"
    "length s + length (concat (map render xs)) \<le> limit"
  shows "\<exists>b'. fold_res put b xs = Ok b' \<and> rep b' (s @ concat (map render xs))"
  using assms
proof (induction xs arbitrary: b s)
  case Nil
  then show ?case by simp
next
  case (Cons x xs)
  then obtain b1 where b1: "put b x = Ok b1" "rep b1 (s @ render x)"
    using put_appends [of b s x] by auto
  have "\<exists>b'. fold_res put b1 xs = Ok b' \<and> rep b' ((s @ render x) @ concat (map render xs))"
    using Cons.prems by (intro Cons.IH b1) auto
  with b1(1) show ?case by simp
qed

end

lemma strbuf_contents:
  assumes "strbuf_rep sb s" "s \<noteq> []" "cstring s"
  shows "sb_length sb = length s" "buf_read (sb_buf sb) 0 (sb_length sb + 1) = Ok (s @ [NUL])"
proof -
  obtain b where b: "sb_buf sb = Heap b" "sb_length sb = length s"
      "take (length s + 1) b = map Some (s @ [NUL])"
    using assms by (auto simp: strbuf_rep_def split: bufptr.splits)
  have len: "length s + 1 \<le> length b" using arg_cong [OF b(3), of length] by simp
  show "sb_length sb = length s" by (rule b(2))
  show "buf_read (sb_buf sb) 0 (sb_length sb + 1) = Ok (s @ [NUL])"
    using b len mem_read_prefix [OF b(3)] by simp
qed

text \<open>One append of the program: each writer of the C interface is an item.\<close>

datatype sink_op = Puts string | Putchar char | Write string | Printf string

fun sink_put :: "strbuf \<Rightarrow> sink_op \<Rightarrow> strbuf res" where
  "sink_put sb (Puts s) = strbuf_puts sb s"
| "sink_put sb (Putchar c) = strbuf_putchar sb c"
| "sink_put sb (Write s) = strbuf_concat sb s"
| "sink_put sb (Printf s) = strbuf_printf sb s"

fun sink_text :: "sink_op \<Rightarrow> string" where
  "sink_text (Puts s) = s @ [NL]"
| "sink_text (Putchar c) = [c]"
| "sink_text (Write s) = s"
| "sink_text (Printf s) = s"

fun sink_ok :: "sink_op \<Rightarrow> bool" where
  "sink_ok (Printf s) = (length s \<le> INT_MAX)"
| "sink_ok x = True"

interpretation sb: append_sink strbuf_rep sink_put sink_text sink_ok SAFE_SIZE
proof unfold_locales
  fix b s x
  assume rep: "strbuf_rep b s" and ok: "sink_ok x"
    and fits: "length s + length (sink_text x) \<le> SAFE_SIZE"
  show "\<exists>b'. sink_put b x = Ok b' \<and> strbuf_rep b' (s @ sink_text x)"
  proof (cases x)
    case (Puts t)
    with fits have "length s + length t + 1 \<le> SAFE_SIZE" by simp
    from strbuf_puts_rep [OF rep this] Puts show ?thesis by (metis sink_put.simps(1) sink_text.simps(1))
  next
    case (Putchar c)
    with fits have "length s + 1 \<le> SAFE_SIZE" by simp
    from strbuf_putchar_rep [OF rep this] Putchar show ?thesis by (metis sink_put.simps(2) sink_text.simps(2))
  next
    case (Write t)
    with fits have f: "length s + length t \<le> SAFE_SIZE" by simp
    from strbuf_write_rep [OF rep f order_refl] Write show ?thesis
      by (metis sink_put.simps(3) sink_text.simps(3) strbuf_concat_def take_all_iff order_refl)
  next
    case (Printf t)
    with ok fits have "length t \<le> INT_MAX" "length s + length t \<le> SAFE_SIZE" by simp_all
    from strbuf_printf_rep [OF rep this] Printf show ?thesis by (metis sink_put.simps(4) sink_text.simps(4))
  qed
qed

text \<open>
  C16. Any sequence of strbuf_puts, strbuf_putchar, strbuf_concat and strbuf_printf calls
  on a buffer initialised with STRBUF_INIT succeeds and leaves exactly the concatenation of
  what was written, NUL-terminated, inside the allocated block; growing never loses or
  exposes a byte, whatever the mix of calls.
\<close>

theorem strbuf_refines_concat:
  assumes "\<forall>x\<in>set xs. sink_ok x" "length (concat (map sink_text xs)) \<le> SAFE_SIZE"
  shows "\<exists>sb'. fold_res sink_put STRBUF_INIT xs = Ok sb'
             \<and> strbuf_rep sb' (concat (map sink_text xs))"
  using sb.put_all [of STRBUF_INIT "[]" xs] assms by simp

theorem strbuf_refines_concat_witness:
  "\<exists>sb'. fold_res sink_put STRBUF_INIT [Puts ''site'', Putchar (CHR ''x''), Printf ''abc'']
       = Ok sb' \<and> strbuf_rep sb' (''site'' @ [NL] @ ''xabc'')"
  using strbuf_refines_concat [of "[Puts ''site'', Putchar (CHR ''x''), Printf ''abc'']"]
  by (simp add: size_bounds)

text \<open>
  strbuf_trim_end and strbuf_detach: on a buffer that holds \<open>s\<close>, trimming keeps
  \<open>s\<close> without its trailing white space, and detaching returns the contents with their
  terminator and leaves an empty buffer that can be used again.
\<close>

theorem strbuf_trim_detach:
  assumes "strbuf_rep sb s" "length s \<le> SAFE_SIZE"
  shows "\<exists>sb1 sb2. strbuf_trim_end sb = Ok sb1
           \<and> strbuf_detach sb1 = Ok (rtrim s @ [NUL], sb2) \<and> strbuf_rep sb2 []"
proof -
  obtain sb1 where t: "strbuf_trim_end sb = Ok sb1" "strbuf_rep sb1 (rtrim s)"
    by (rule strbuf_trim_end_rep [OF assms(1)])
  have "length (rtrim s) \<le> SAFE_SIZE"
    using assms(2) length_rtrim [of s] by linarith
  with t show ?thesis
    by (metis strbuf_detach_rep)
qed

theorem strbuf_trim_detach_witness:
  "\<exists>sb1 sb2. strbuf_trim_end \<lparr>sb_buf = Heap (map Some (''ab '' @ [NUL]) @ [None]),
                             sb_length = 3, sb_capacity = 5\<rparr> = Ok sb1
           \<and> strbuf_detach sb1 = Ok (''ab'' @ [NUL], sb2) \<and> strbuf_rep sb2 []"
  using strbuf_trim_detach [of "\<lparr>sb_buf = Heap (map Some (''ab '' @ [NUL]) @ [None]),
                             sb_length = 3, sb_capacity = 5\<rparr>" "''ab ''"]
  by (simp add: strbuf_rep_def size_bounds rtrim_def ctype_simps)

end
