(* ===== verification/Strutil.thy ===== *)
theory Strutil
  imports Helper
begin

unbundle bit_operations_syntax

text \<open>
  The plain string functions at the end of \<^verbatim>\<open>src/src/strbuf.c\<close>: prefixes,
  concatenation, UTF-8 length and substring, number parsing and white-space tests.
  The pointer walks of the C code are recursions over the list of bytes; the end of the
  list is the terminating NUL.
\<close>

section \<open>Prefixes\<close>

fun starts_with :: "string \<Rightarrow> string \<Rightarrow> bool" where
  "starts_with str [] = True"
| "starts_with [] (p # prefix) = False"
| "starts_with (c # str) (p # prefix) = (if c \<noteq> p then False else starts_with str prefix)"

text \<open>\<open>Some rest\<close> is the true return with \<^verbatim>\<open>*out = rest\<close>; \<open>None\<close> leaves \<^verbatim>\<open>*out\<close> alone.\<close>

fun skip_prefix :: "string \<Rightarrow> string \<Rightarrow> string option" where
  "skip_prefix str [] = Some str"
| "skip_prefix [] (p # prefix) = None"
| "skip_prefix (c # str) (p # prefix) = (if c = p then skip_prefix str prefix else None)"

lemma starts_with_iff: "starts_with str prefix \<longleftrightarrow> (\<exists>rest. str = prefix @ rest)"
  by (induction str prefix rule: starts_with.induct) auto

lemma skip_prefix_iff: "skip_prefix str prefix = Some rest \<longleftrightarrow> str = prefix @ rest"
  by (induction str prefix rule: skip_prefix.induct) auto

lemma skip_prefix_None: "skip_prefix str prefix = None \<longleftrightarrow> \<not> starts_with str prefix"
  by (induction str prefix rule: skip_prefix.induct) auto

lemma starts_with_append [simp]: "starts_with (p @ s) p"
  by (auto simp: starts_with_iff)

lemma skip_prefix_append [simp]: "skip_prefix (p @ s) p = Some s"
  by (simp add: skip_prefix_iff)

section \<open>Concatenation\<close>

definition concat_str :: "string \<Rightarrow> string \<Rightarrow> string res" where
  "concat_str str1 str2 =
     (let destlen = sz_wrap (length str1 + length str2)
      in bind_res (xmalloc (sz_wrap (destlen + 1)) :: char block res) (\<lambda>dest.
         bind_res (mem_write dest 0 str1) (\<lambda>dest.
         bind_res (mem_write dest (length str1) str2) (\<lambda>dest.
         bind_res (mem_write dest destlen [NUL]) (\<lambda>dest.
         bind_res (mem_read dest 0 (destlen + 1)) (\<lambda>bytes. Ok (cstr_of bytes)))))))"

lemma concat_str_correct:
  assumes "cstring s" "cstring t" "length s + length t \<le> SAFE_SIZE"
  shows "concat_str s t = Ok (s @ t)"
proof -
  let ?n = "length s + length t"
  have "sz_wrap ?n = ?n" "sz_wrap (?n + 1) = ?n + 1" "\<not> ALLOC_MAX < ?n + 1"
    using assms(3) by (simp_all add: size_bounds)
  then show ?thesis
    using assms(1,2) cstr_of_cstring [of "s @ t" "[]"]
    by (simp add: concat_str_def Let_def xmalloc_def mem_write_def mem_read_def comp_def)
qed

section \<open>UTF-8\<close>

definition is_start_byte :: "char \<Rightarrow> bool" where
  "is_start_byte c \<longleftrightarrow> (of_char c :: byte) AND 0xC0 \<noteq> 0x80"

fun u8strlen_loop :: "string \<Rightarrow> size_t \<Rightarrow> size_t" where
  "u8strlen_loop [] len = len"
| "u8strlen_loop (c # iter) len = u8strlen_loop iter (if is_start_byte c then len + 1 else len)"

definition u8strlen :: "string \<Rightarrow> size_t" where
  "u8strlen iter = u8strlen_loop iter 0"

text \<open>
  The loop of u8substr.  \<open>pos\<close> is the offset of \<open>iter\<close> in the source string and
  \<open>head\<close> the offset kept by \<^verbatim>\<open>head = iter - 1\<close>; the result is the pair of
  \<open>head\<close> and the offset where the walk stops.
\<close>

fun u8substr_loop ::
    "string \<Rightarrow> nat \<Rightarrow> size_t \<Rightarrow> size_t \<Rightarrow> bool \<Rightarrow> size_t \<Rightarrow> bool \<Rightarrow> nat option
       \<Rightarrow> nat option \<times> nat" where
  "u8substr_loop [] pos start_index char_count unknow_length substr_length finish_calc head =
     (head, pos)"
| "u8substr_loop (c # iter) pos start_index char_count unknow_length substr_length finish_calc head =
     (if \<not> is_start_byte c
      then u8substr_loop iter (pos + 1) start_index char_count unknow_length substr_length
             finish_calc head
      else if finish_calc then (head, pos)
      else let char_count = char_count + 1
           in if char_count - 1 < start_index
              then u8substr_loop iter (pos + 1) start_index char_count unknow_length
                     substr_length finish_calc head
              else let head = (if char_count - 1 = start_index then Some pos else head)
                   in if unknow_length
                      then u8substr_loop iter (pos + 1) start_index char_count unknow_length
                             substr_length finish_calc head
                      else let substr_length = substr_length - 1
                           in u8substr_loop iter (pos + 1) start_index char_count
                                unknow_length substr_length
                                (if substr_length = 0 then True else finish_calc) head)"

definition u8substr :: "string \<Rightarrow> size_t \<Rightarrow> size_t \<Rightarrow> string res" where
  "u8substr src start_index substr_length =
     (case u8substr_loop src 0 start_index 0 (substr_length = 0) substr_length False None of
        (None, _) \<Rightarrow> Halt (Bug ''u8substr() has an out-of-size start_index'')
      | (Some head, end) \<Rightarrow>
          bind_res (xmalloc (sz_wrap (end - head + 1)) :: char block res) (\<lambda>_.
            Ok (take (end - head) (drop head src))))"

text \<open>
  Reference: the characters of a byte string, each a start byte with the continuation
  bytes that follow it.  Continuation bytes in front of the first start byte belong to no
  character.
\<close>

fun u8chars :: "string \<Rightarrow> string list" where
  "u8chars [] = []"
| "u8chars (c # s) =
     (if is_start_byte c
      then (c # takeWhile (\<lambda>c. \<not> is_start_byte c) s) # u8chars s
      else u8chars s)"

lemma u8strlen_loop_eq: "u8strlen_loop s n = n + length (u8chars s)"
  by (induction s arbitrary: n) auto

lemma u8strlen_eq: "u8strlen s = length (u8chars s)"
  by (simp add: u8strlen_def u8strlen_loop_eq)

lemma concat_u8chars:
  "concat (u8chars s) = dropWhile (\<lambda>c. \<not> is_start_byte c) s"
proof (induction s)
  case (Cons c s)
  then show ?case
    using takeWhile_dropWhile_id [of "\<lambda>c. \<not> is_start_byte c" s] by auto
qed simp

subsection \<open>u8substr takes whole characters\<close>

abbreviation cont :: "char \<Rightarrow> bool" where "cont c \<equiv> \<not> is_start_byte c"

lemma u8substr_loop_finish:
  "u8substr_loop s pos st n False m True h = (h, pos + length (takeWhile cont s))"
  by (induction s arbitrary: pos) auto

lemma u8substr_loop_rest:
  "st < n \<Longrightarrow> u8substr_loop s pos st n True m False h = (h, pos + length s)"
  by (induction s arbitrary: pos n) (auto simp: Let_def)

lemma u8substr_loop_take:
  "st < n \<Longrightarrow> 0 < m \<Longrightarrow>
   u8substr_loop s pos st n False m False h =
     (h, pos + length (takeWhile cont s) + length (concat (take m (u8chars s))))"
proof (induction s arbitrary: pos n m)
  case (Cons c s)
  show ?case
  proof (cases "is_start_byte c \<and> m \<noteq> 1")
    case True
    then have "u8substr_loop s (pos + 1) st (n + 1) False (m - 1) False h
        = (h, pos + 1 + length (takeWhile cont s) + length (concat (take (m - 1) (u8chars s))))"
      using Cons.prems by (intro Cons.IH) auto
    with True Cons.prems show ?thesis
      by (cases m) (auto simp: Let_def)
  next
    case False
    then show ?thesis
      using Cons.prems Cons.IH [of n m "pos + 1"] by (auto simp: Let_def u8substr_loop_finish)
  qed
qed simp

text \<open>The characters from number \<open>k\<close> on are a suffix of the string.\<close>

lemma u8chars_suffix:
  obtains pre where "s = pre @ concat (drop k (u8chars s))"
proof -
  have "s = takeWhile cont s @ concat (u8chars s)"
    by (simp add: concat_u8chars)
  also have "concat (u8chars s) = concat (take k (u8chars s)) @ concat (drop k (u8chars s))"
    by (metis append_take_drop_id concat_append)
  finally show thesis
    by (intro that [of "takeWhile cont s @ concat (take k (u8chars s))"]) simp
qed

lemma length_u8chars_suffix: "length (concat (drop k (u8chars s))) \<le> length s"
  by (metis u8chars_suffix length_append le_add2)

definition char_offset :: "string \<Rightarrow> nat \<Rightarrow> nat" where
  "char_offset s k = length s - length (concat (drop k (u8chars s)))"

lemma char_offset_cont:
  "cont c \<Longrightarrow> char_offset (c # s) k = Suc (char_offset s k)"
  using length_u8chars_suffix [of k s] by (simp add: char_offset_def Suc_diff_le)

lemma char_offset_start:
  "is_start_byte c \<Longrightarrow> char_offset (c # s) (Suc k) = Suc (char_offset s k)"
  using length_u8chars_suffix [of k s] by (simp add: char_offset_def Suc_diff_le)

lemma char_offset_first:
  "is_start_byte c \<Longrightarrow> char_offset (c # s) 0 = 0"
  by (simp add: char_offset_def concat_u8chars)

lemma u8substr_loop_skip:
  "n \<le> st \<Longrightarrow>
   u8substr_loop s pos st n (m = 0) m False None =
     (if st - n < length (u8chars s)
      then (Some (pos + char_offset s (st - n)),
            if m = 0 then pos + length s
            else pos + char_offset s (st - n)
                 + length (concat (take m (drop (st - n) (u8chars s)))))
      else (None, pos + length s))"
proof (induction s arbitrary: pos n)
  case (Cons c s)
  consider "cont c" | "is_start_byte c" "n < st" | "is_start_byte c" "n = st"
    using Cons.prems by linarith
  then show ?case
  proof cases
    case 1
    then show ?thesis
      using Cons.IH [OF Cons.prems, of "pos + 1"] by (simp add: char_offset_cont)
  next
    case 2
    then obtain k where k: "st - n = Suc k" "st - (n + 1) = k"
      by (metis Suc_diff_Suc Suc_eq_plus1)
    with 2 show ?thesis
      using Cons.IH [of "n + 1" "pos + 1"] by (simp add: char_offset_start)
  next
    case 3
    show ?thesis
    proof (cases "m \<le> 1")
      case True
      then have "m = 0 \<or> m = 1" by auto
      with 3 show ?thesis
        by (auto simp: char_offset_first u8substr_loop_rest u8substr_loop_finish)
    next
      case False
      then obtain k where m: "m = Suc k" "0 < k" by (cases m) auto
      with 3 show ?thesis
        using u8substr_loop_take [of st "Suc st" k s "pos + 1"]
        by (simp add: char_offset_first)
    qed
  qed
qed simp

text \<open>
  u8substr(src, i, n) is exactly the characters i, i+1, ..., i+n-1 of the string (all
  the rest when n is 0), never a broken UTF-8 sequence; it stops the program with bug()
  exactly when the string has no character i.
\<close>

theorem u8substr_correct:
  assumes "length s \<le> SAFE_SIZE"
  shows "u8substr s i n =
    (if i < u8strlen s
     then Ok (concat (if n = 0 then drop i (u8chars s) else take n (drop i (u8chars s))))
     else Halt (Bug ''u8substr() has an out-of-size start_index''))"
proof -
  let ?tl = "concat (drop i (u8chars s))"
  let ?o = "char_offset s i"
  obtain pre where s: "s = pre @ ?tl"
    by (rule u8chars_suffix)
  have "length s = length pre + length ?tl"
    by (subst s) (simp only: length_append)
  then have o: "?o = length pre" "?o + length ?tl = length s"
    by (simp_all add: char_offset_def)
  then have dr: "drop ?o s = ?tl"
    by (subst s) simp
  have tk: "take (length (concat (take n (drop i (u8chars s))))) ?tl
      = concat (take n (drop i (u8chars s)))"
    by (metis append_eq_conv_conj append_take_drop_id concat_append)
  have fit: "\<not> ALLOC_MAX < sz_wrap (k + 1)" if "k \<le> length s" for k
    using that assms by (simp add: size_bounds sz_wrap_def)
  have le: "length (concat (take n (drop i (u8chars s)))) \<le> length s"
    using tk o(2) by (metis length_take min.bounded_iff le_add2 nle_le order_trans)
  show ?thesis
    using u8substr_loop_skip [of 0 i s 0 n] dr tk o(2) fit le
    by (auto simp: u8substr_def u8strlen_eq xmalloc_def)
qed

theorem u8substr_correct_witness:
  "u8substr [CHR ''a'', CHR 0xC3, CHR 0xA9, CHR ''b''] 1 1 = Ok [CHR 0xC3, CHR 0xA9]"
  using u8substr_correct [of "[CHR ''a'', CHR 0xC3, CHR 0xA9, CHR ''b'']" 1 1]
  by (simp add: size_bounds u8strlen_eq is_start_byte_def of_char_Char)

section \<open>Numbers\<close>

datatype strtou_errno = EINVAL_number | EILSEQ_number | ERANGE_number

text \<open>
  strtoul(str, \&end, 10) of the C library: leading white space, an optional sign, digits.
  The value wraps when the number is negative and saturates (with ERANGE) beyond
  ULONG_MAX; without digits nothing is consumed and the value is 0.
\<close>

fun digits_value :: "string \<Rightarrow> nat \<Rightarrow> nat \<times> string" where
  "digits_value [] acc = (acc, [])"
| "digits_value (c # s) acc =
     (if c_isdigit c then digits_value s (acc * 10 + (char_code c - 48)) else (acc, c # s))"

definition strtoul10 :: "string \<Rightarrow> nat \<times> bool \<times> string" where
  "strtoul10 str =
     (let s1 = dropWhile c_isspace str;
          neg = (first_char s1 = CHR ''-'');
          s2 = (if first_char s1 = CHR ''-'' \<or> first_char s1 = CHR ''+'' then drop 1 s1 else s1)
      in if c_isdigit (first_char s2)
         then (case digits_value s2 0 of (v, rest) \<Rightarrow>
                 if SIZE_MAX < v then (SIZE_MAX, True, rest)
                 else (if neg then sz_sub 0 v else v, False, rest))
         else (0, False, str))"

definition strtou :: "string \<Rightarrow> strtou_errno + uint" where
  "strtou str =
     (if first_char str = CHR ''-'' then Inl EINVAL_number
      else case strtoul10 str of (v, over, end) \<Rightarrow>
        if over then Inl ERANGE_number
        else if first_char end \<noteq> NUL then Inl EILSEQ_number
        else if v > UINT_MAX then Inl ERANGE_number
        else Inr (of_nat v))"

subsection \<open>What strtou accepts\<close>

text \<open>Decimal notation, as printf's \<^verbatim>\<open>%u\<close> writes it, and its value.\<close>

definition digit_char :: "nat \<Rightarrow> char" where
  "digit_char d = char_of (48 + d)"

fun dec_string :: "nat \<Rightarrow> string" where
  "dec_string n = (if n < 10 then [digit_char n] else dec_string (n div 10) @ [digit_char (n mod 10)])"

declare dec_string.simps [simp del]

definition dec_value :: "string \<Rightarrow> nat" where
  "dec_value ds = foldl (\<lambda>acc c. acc * 10 + (char_code c - 48)) 0 ds"

lemma digits_value_eq:
  "\<forall>c\<in>set ds. c_isdigit c \<Longrightarrow> r = [] \<or> \<not> c_isdigit (hd r) \<Longrightarrow>
   digits_value (ds @ r) acc = (foldl (\<lambda>acc c. acc * 10 + (char_code c - 48)) acc ds, r)"
  by (induction ds arbitrary: acc) (cases r, auto)

lemma digit_not_special:
  "c_isdigit c \<Longrightarrow> \<not> c_isspace c \<and> c \<noteq> CHR ''-'' \<and> c \<noteq> CHR ''+'' \<and> c \<noteq> NUL"
  by (auto simp: ctype_simps)

lemma strtoul10_digits:
  assumes "ds \<noteq> []" "\<forall>c\<in>set ds. c_isdigit c" "r = [] \<or> \<not> c_isdigit (hd r)"
  shows "strtoul10 (ds @ r) =
    (if SIZE_MAX < dec_value ds then (SIZE_MAX, True, r) else (dec_value ds, False, r))"
proof -
  obtain d ds' where ds: "ds = d # ds'" using assms(1) by (cases ds) auto
  then have d: "c_isdigit d" "\<not> c_isspace d" "d \<noteq> CHR ''-''" "d \<noteq> CHR ''+''"
    using assms(2) digit_not_special [of d] by auto
  show ?thesis
    using digits_value_eq [OF assms(2,3), of 0] d
    by (auto simp: strtoul10_def Let_def ds dec_value_def)
qed

text \<open>
  strtou on a non-empty run of decimal digits returns the number they denote when it
  fits in an unsigned int and ERANGE otherwise, without wrap-around however long the run
  is; with anything but a NUL behind the digits it reports EILSEQ (when the digits fit).
\<close>

theorem strtou_digits:
  assumes "ds \<noteq> []" "\<forall>c\<in>set ds. c_isdigit c" "cstring r" "r = [] \<or> \<not> c_isdigit (hd r)"
  shows "strtou (ds @ r) =
    (if SIZE_MAX < dec_value ds then Inl ERANGE_number
     else if r \<noteq> [] then Inl EILSEQ_number
     else if dec_value ds \<le> UINT_MAX then Inr (of_nat (dec_value ds))
     else Inl ERANGE_number)"
proof -
  have "first_char (ds @ r) \<noteq> CHR ''-''"
    using assms(1,2) digit_not_special by (cases ds) auto
  moreover have "first_char r \<noteq> NUL \<longleftrightarrow> r \<noteq> []"
    using assms(3) by (cases r) auto
  ultimately show ?thesis
    using strtoul10_digits [OF assms(1,2,4)] by (auto simp: strtou_def)
qed

theorem strtou_digits_witness:
  "strtou ''4096'' = Inr 4096 \<and> strtou ''4294967296'' = Inl ERANGE_number
   \<and> strtou ''12x'' = Inl EILSEQ_number"
  using strtou_digits [of "''4096''" "[]"] strtou_digits [of "''4294967296''" "[]"]
    strtou_digits [of "''12''" "''x''"]
  by (simp add: ctype_simps dec_value_def size_bounds)

lemma char_code_digit_char: "d < 10 \<Longrightarrow> char_code (digit_char d) = 48 + d"
  by (simp add: char_code_def digit_char_def)

lemma c_isdigit_digit_char: "d < 10 \<Longrightarrow> c_isdigit (digit_char d)"
  using char_code_digit_char [of d] by (simp add: c_isdigit_def c_between_def) (simp add: char_code_def)

lemma dec_string_digits: "\<forall>c\<in>set (dec_string n). c_isdigit c"
proof (induction n rule: dec_string.induct)
  case (1 n)
  then show ?case
    by (subst dec_string.simps) (auto intro: c_isdigit_digit_char)
qed

lemma dec_value_dec_string: "dec_value (dec_string n) = n"
proof (induction n rule: dec_string.induct)
  case (1 n)
  then show ?case
    by (subst dec_string.simps) (simp add: dec_value_def char_code_digit_char)
qed

lemma dec_string_nonempty: "dec_string n \<noteq> []"
  by (subst dec_string.simps) simp

text \<open>Reading back a number that was printed with \<^verbatim>\<open>%u\<close>.\<close>

lemma strtou_dec_string:
  assumes "n \<le> UINT_MAX"
  shows "strtou (dec_string n) = Inr (of_nat n)"
proof -
  have "strtoul10 (dec_string n) = (n, False, [])"
    using strtoul10_digits [OF dec_string_nonempty dec_string_digits, of "[]" n] assms
    by (simp add: dec_value_dec_string size_bounds)
  moreover have "first_char (dec_string n) \<noteq> CHR ''-''"
    using dec_string_digits [of n] dec_string_nonempty [of n] digit_not_special
    by (cases "dec_string n") auto
  ultimately show ?thesis
    using assms by (simp add: strtou_def)
qed

text \<open>
  The guard of strtou only looks at the very first byte: a minus sign behind white space
  reaches strtoul, whose result wraps around.
\<close>

lemma strtou_space_minus: "strtou '' -18446744073709551615'' = Inr 1"
  by (simp add: strtou_def strtoul10_def ctype_simps size_bounds sz_sub_def)

section \<open>Characters of a string\<close>

fun replace_char :: "string \<Rightarrow> char \<Rightarrow> char \<Rightarrow> string" where
  "replace_char [] c1 c2 = []"
| "replace_char (c # str) c1 c2 = (if c = c1 then c2 else c) # replace_char str c1 c2"

text \<open>\<open>None\<close> is the NULL pointer.\<close>

definition is_empty_str :: "string option \<Rightarrow> bool" where
  "is_empty_str str = (case str of None \<Rightarrow> True | Some s \<Rightarrow> first_char s = NUL)"

fun blank_loop :: "string \<Rightarrow> string" where
  "blank_loop [] = []"
| "blank_loop (c # str) = (if c_isspace c then blank_loop str else c # str)"

definition is_blank_str :: "string option \<Rightarrow> bool" where
  "is_blank_str str0 =
     (if is_empty_str str0 then True
      else case str0 of None \<Rightarrow> True | Some s \<Rightarrow> blank_loop s = [])"

lemma blank_loop_eq: "blank_loop s = dropWhile c_isspace s"
  by (induction s) auto

lemma is_blank_str_Some: "cstring s \<Longrightarrow> is_blank_str (Some s) \<longleftrightarrow> (\<forall>c\<in>set s. c_isspace c)"
  by (cases s) (auto simp: is_blank_str_def is_empty_str_def blank_loop_eq dropWhile_eq_Nil_conv)

lemma is_blank_str_None [simp]: "is_blank_str None"
  by (simp add: is_blank_str_def is_empty_str_def)

end
