(* ===== verification/Strlist.thy ===== *)
theory Strlist
  imports Helper
begin

text \<open>
  The string list of \<^verbatim>\<open>src/src/strlist.c\<close>: a dynamic array of strings with an
  extra word each, splitting, filtering, joining and copying out.  \<open>strlist_rep sl xs\<close>
  says that the list holds the elements \<open>xs\<close>.  The array is kept at the level of its
  memory block, because the in-place compaction of strlist_filter depends on it.

  Strings are values here: that a dupstr list owns copies shows only in what
  strlist_destroy and strlist_trunc release, which is returned as a list of \<open>freed\<close>.
\<close>

section \<open>State\<close>

text \<open>The extra word is a number, or a pointer to a string; 0 is also NULL.\<close>

datatype ext = ExtNum int | ExtStr string

record strlist_elem =
  el_str :: string
  el_ext :: ext

datatype elem_array = NullArr | FreedArr | Arr "strlist_elem block"

record strlist =
  elvec :: elem_array
  sl_size :: size_t
  sl_capacity :: size_t
  dupstr :: bool

datatype strlist_join_ext_pos = EXT_JOIN_NONE | EXT_JOIN_HEAD | EXT_JOIN_TAIL

definition STRLIST_INIT_NODUP :: strlist where
  "STRLIST_INIT_NODUP = \<lparr>elvec = NullArr, sl_size = 0, sl_capacity = 0, dupstr = False\<rparr>"

definition STRLIST_INIT_DUPSTR :: strlist where
  "STRLIST_INIT_DUPSTR = \<lparr>elvec = NullArr, sl_size = 0, sl_capacity = 0, dupstr = True\<rparr>"

text \<open>sizeof(struct strlist_elem): a pointer and an intptr_t.\<close>

definition ELEM_SIZE :: nat where "ELEM_SIZE = 16"

fun arr_block :: "elem_array \<Rightarrow> strlist_elem block res" where
  "arr_block NullArr = Halt (Undef ''access through a NULL elvec'')"
| "arr_block FreedArr = Halt (Undef ''access to a freed elvec'')"
| "arr_block (Arr b) = Ok b"

definition elem_at :: "strlist \<Rightarrow> nat \<Rightarrow> strlist_elem res" where
  "elem_at sl i =
     bind_res (arr_block (elvec sl)) (\<lambda>b. bind_res (mem_read b i 1) (\<lambda>xs. Ok (hd xs)))"

section \<open>Releasing, pushing and popping\<close>

datatype freed = FreeStr string | FreeExt ext

definition strlist_erase_at :: "strlist \<Rightarrow> nat \<Rightarrow> bool \<Rightarrow> freed list res" where
  "strlist_erase_at sl idx rmext =
     (if dupstr sl \<or> rmext
      then bind_res (elem_at sl idx) (\<lambda>el.
             Ok ((if dupstr sl then [FreeStr (el_str el)] else [])
                 @ (if rmext then [FreeExt (el_ext el)] else [])))
      else Ok [])"

text \<open>The loop both strlist_destroy and strlist_trunc run, from the last element down.\<close>

fun erase_down :: "strlist \<Rightarrow> size_t \<Rightarrow> bool \<Rightarrow> freed list res" where
  "erase_down sl 0 rmext = Ok []"
| "erase_down sl (Suc n) rmext =
     bind_res (strlist_erase_at sl n rmext) (\<lambda>f.
     bind_res (erase_down sl n rmext) (\<lambda>fs. Ok (f @ fs)))"

definition strlist_destroy :: "strlist \<Rightarrow> bool \<Rightarrow> (freed list \<times> strlist) res" where
  "strlist_destroy sl rmext =
     bind_res (erase_down sl (sl_size sl) rmext) (\<lambda>fs.
       Ok (fs, sl\<lparr>elvec := (case elvec sl of NullArr \<Rightarrow> NullArr | _ \<Rightarrow> FreedArr),
                 sl_size := 0, sl_capacity := 0\<rparr>))"

definition strlist_trunc :: "strlist \<Rightarrow> bool \<Rightarrow> (freed list \<times> strlist) res" where
  "strlist_trunc sl rmext =
     bind_res (erase_down sl (sl_size sl) rmext) (\<lambda>fs. Ok (fs, sl\<lparr>sl_size := 0\<rparr>))"

definition grow_elvec :: "strlist \<Rightarrow> strlist res" where
  "grow_elvec sl =
     (let sz = sz_wrap (sl_size sl + 1)
      in case elvec sl of
           FreedArr \<Rightarrow> if sz > sl_capacity sl then Halt (Undef ''realloc of a freed elvec'') else Ok sl
         | NullArr \<Rightarrow>
             bind_res (capacity_grow ELEM_SIZE None sz (sl_capacity sl)) (\<lambda>(p, cap).
               Ok (sl\<lparr>elvec := (case p of None \<Rightarrow> NullArr | Some b \<Rightarrow> Arr b), sl_capacity := cap\<rparr>))
         | Arr b \<Rightarrow>
             bind_res (capacity_grow ELEM_SIZE (Some b) sz (sl_capacity sl)) (\<lambda>(p, cap).
               Ok (sl\<lparr>elvec := (case p of None \<Rightarrow> NullArr | Some b \<Rightarrow> Arr b), sl_capacity := cap\<rparr>)))"

text \<open>The pointer to the new element is returned as its index.\<close>

definition strlist_push_nodup :: "strlist \<Rightarrow> string \<Rightarrow> (nat \<times> strlist) res" where
  "strlist_push_nodup sl str =
     bind_res (grow_elvec sl) (\<lambda>sl.
     bind_res (arr_block (elvec sl)) (\<lambda>b.
     bind_res (mem_write b (sl_size sl) [\<lparr>el_str = str, el_ext = ExtNum 0\<rparr>]) (\<lambda>b.
       Ok (sl_size sl, sl\<lparr>elvec := Arr b, sl_size := sz_wrap (sl_size sl + 1)\<rparr>))))"

definition strlist_push :: "strlist \<Rightarrow> string \<Rightarrow> (nat \<times> strlist) res" where
  "strlist_push sl str = strlist_push_nodup sl str"

definition strlist_pop :: "strlist \<Rightarrow> nat option \<times> strlist" where
  "strlist_pop sl =
     (if sl_size sl = 0 then (None, sl)
      else (Some (sl_size sl - 1), sl\<lparr>sl_size := sl_size sl - 1\<rparr>))"

section \<open>Splitting\<close>

text \<open>
  \<open>delim_pos = strchr(str, delim)\<close>; for a NUL delimiter strchr finds the terminator and
  the next round would start behind it.
\<close>

function strlist_split_loop ::
    "strlist \<Rightarrow> string \<Rightarrow> char \<Rightarrow> int \<Rightarrow> size_t \<Rightarrow> (size_t \<times> strlist) res" where
  "strlist_split_loop sl str delim maxsplit count =
     (let count = count + 1
      in if maxsplit \<ge> 0 \<and> count \<ge> nat maxsplit
         then bind_res (strlist_push sl str) (\<lambda>(_, sl). Ok (count, sl))
         else if delim \<in> set str
         then bind_res (strlist_push_nodup sl (takeWhile (\<lambda>c. c \<noteq> delim) str)) (\<lambda>(_, sl).
                strlist_split_loop sl (drop (Suc (length (takeWhile (\<lambda>c. c \<noteq> delim) str))) str)
                  delim maxsplit count)
         else if delim = NUL then Halt (Undef ''strlist_split() runs past the terminator'')
         else bind_res (strlist_push sl str) (\<lambda>(_, sl). Ok (count, sl)))"
  by pat_completeness auto
termination
  by (relation "measure (\<lambda>(sl, str, delim, maxsplit, count). length str)")
     (auto intro!: diff_less simp: length_pos_if_in_set)

declare strlist_split_loop.simps [simp del]

definition strlist_split :: "strlist \<Rightarrow> string \<Rightarrow> char \<Rightarrow> int \<Rightarrow> (size_t \<times> strlist) res" where
  "strlist_split sl str delim maxsplit =
     (if \<not> dupstr sl
      then Halt (Bug ''strlist_split() shall be called with dupstr set to true'')
      else strlist_split_loop sl str delim maxsplit 0)"

section \<open>Filtering in place\<close>

text \<open>First loop: the indices of the elements the predicate rejects, in order.\<close>

fun track_loop :: "strlist_elem block \<Rightarrow> (strlist_elem \<Rightarrow> bool) \<Rightarrow> nat list \<Rightarrow> nat list res" where
  "track_loop b compar [] = Ok []"
| "track_loop b compar (i # is) =
     bind_res (mem_read b i 1) (\<lambda>el.
     bind_res (track_loop b compar is) (\<lambda>track.
       Ok (if \<not> compar (hd el) then i # track else track)))"

text \<open>
  The inner loop moves the elements with indices \<open>ks\<close> down by \<open>iii\<close>.  It runs over
  \<open>track[i] + 1, \<dots>\<close> up to the next rejected index, or, after the last one, up to the
  current \<^verbatim>\<open>sl->size\<close>; both bounds are above \<open>track[i]\<close> when the first test is made,
  so \<^verbatim>\<open>++ii != track[i + 1]\<close> stops there.
\<close>

fun move_down :: "'a block \<Rightarrow> nat \<Rightarrow> nat list \<Rightarrow> 'a block" where
  "move_down b iii [] = b"
| "move_down b iii (ii # ks) = move_down (b[ii - iii := b ! ii]) iii ks"

text \<open>
  Second loop: \<^verbatim>\<open>sl->size\<close> is decremented in every round, so the bound used after the
  last rejected index is not the original size.
\<close>

fun compact_loop :: "strlist \<Rightarrow> nat \<Rightarrow> nat list \<Rightarrow> bool \<Rightarrow> (freed list \<times> strlist) res" where
  "compact_loop sl iii [] free_ext = Ok ([], sl)"
| "compact_loop sl iii (t # track) free_ext =
     bind_res (strlist_erase_at sl t free_ext) (\<lambda>f.
     bind_res (arr_block (elvec sl)) (\<lambda>b.
     let iii = iii + 1;
         stop = (case track of [] \<Rightarrow> sl_size sl | t' # _ \<Rightarrow> t');
         b = move_down b iii [t + 1 ..< stop]
     in bind_res (compact_loop (sl\<lparr>elvec := Arr b, sl_size := sl_size sl - 1\<rparr>) iii track free_ext)
          (\<lambda>(fs, sl). Ok (f @ fs, sl))))"

definition strlist_filter ::
    "strlist \<Rightarrow> (strlist_elem \<Rightarrow> bool) \<Rightarrow> bool \<Rightarrow> (freed list \<times> strlist) res" where
  "strlist_filter sl compar free_ext =
     (if sl_size sl = 0 then Halt (Undef ''variable length array of size 0'')
      else bind_res (arr_block (elvec sl)) (\<lambda>b.
           bind_res (track_loop b compar [0 ..< sl_size sl]) (\<lambda>track.
             compact_loop sl 0 track free_ext)))"

section \<open>Joining and copying out\<close>

fun ext_text :: "ext \<Rightarrow> string res" where
  "ext_text (ExtNum n) = (if n = 0 then Ok [] else Halt (Undef ''number used as a pointer''))"
| "ext_text (ExtStr s) = Ok s"

fun join_loop ::
    "strlist_elem list \<Rightarrow> string \<Rightarrow> strlist_join_ext_pos \<Rightarrow> char block option \<Rightarrow> size_t \<Rightarrow> size_t
       \<Rightarrow> (char block option \<times> size_t \<times> size_t) res" where
  "join_loop [] separator join_pos buf0 bufsz bufcap = Ok (buf0, bufsz, bufcap)"
| "join_loop (el # els) separator join_pos buf0 bufsz bufcap =
     bind_res (if join_pos \<noteq> EXT_JOIN_NONE then ext_text (el_ext el) else Ok []) (\<lambda>extstr.
     let prevsz = bufsz;
         bufsz = sz_wrap (bufsz + length (el_str el) + length extstr + length separator);
         bytes = (if join_pos = EXT_JOIN_HEAD then extstr else []) @ el_str el
                 @ (if join_pos = EXT_JOIN_TAIL then extstr else []) @ separator
     in bind_res (capacity_grow 1 buf0 bufsz bufcap) (\<lambda>(p, bufcap).
        case p of
          None \<Rightarrow> if bytes = [] then join_loop els separator join_pos None bufsz bufcap
                  else Halt (Undef ''memcpy to NULL'')
        | Some b \<Rightarrow>
            bind_res (mem_write b prevsz bytes) (\<lambda>b.
              join_loop els separator join_pos (Some b) bufsz bufcap)))"

text \<open>The live elements; each must have been stored.\<close>

definition live_elems :: "strlist \<Rightarrow> strlist_elem list res" where
  "live_elems sl =
     (if sl_size sl = 0 then Ok []
      else bind_res (arr_block (elvec sl)) (\<lambda>b. mem_read b 0 (sl_size sl)))"

definition strlist_join :: "strlist \<Rightarrow> string \<Rightarrow> strlist_join_ext_pos \<Rightarrow> string res" where
  "strlist_join sl separator join_pos =
     bind_res (live_elems sl) (\<lambda>els.
     bind_res (join_loop els separator join_pos None 0 0) (\<lambda>(p, bufsz, bufcap).
       case p of
         None \<Rightarrow> Halt (Undef ''store through a NULL buf0'')
       | Some b \<Rightarrow>
           let last = sz_sub bufsz (length separator)
           in bind_res (mem_write b last [NUL]) (\<lambda>b.
              bind_res (mem_read b 0 (last + 1)) (\<lambda>bytes. Ok (cstr_of bytes)))))"

text \<open>The array that is returned ends with NULL; its strings are copies.\<close>

definition strlist_to_array_routine :: "strlist \<Rightarrow> size_t \<Rightarrow> string option list res" where
  "strlist_to_array_routine sl n =
     (let n = (if n = 0 \<or> n > sl_size sl then sl_size sl else n)
      in bind_res (st_mult (sz_wrap (n + 1)) 8) (\<lambda>bytes.
         bind_res (xmalloc bytes :: char block res) (\<lambda>_.
         bind_res (live_elems sl) (\<lambda>els.
           Ok (map (\<lambda>el. Some (el_str el)) (take n els) @ [None])))))"

fun findstr :: "string \<Rightarrow> string list \<Rightarrow> bool" where
  "findstr str [] = False"
| "findstr str (a # arr) = (if str \<noteq> a then findstr str arr else True)"

lemma findstr_iff: "findstr str arr \<longleftrightarrow> str \<in> set arr"
  by (induction arr) auto

text \<open>strlist_push in a loop, its result dropped.\<close>

definition push_name :: "strlist \<Rightarrow> string \<Rightarrow> strlist res" where
  "push_name sl name = bind_res (strlist_push sl name) (\<lambda>(_, sl). Ok sl)"

section \<open>What a list represents\<close>

definition strlist_rep :: "strlist \<Rightarrow> strlist_elem list \<Rightarrow> bool" where
  "strlist_rep sl xs \<longleftrightarrow>
     (case elvec sl of
        NullArr \<Rightarrow> xs = [] \<and> sl_size sl = 0 \<and> sl_capacity sl = 0
      | FreedArr \<Rightarrow> False
      | Arr b \<Rightarrow> sl_size sl = length xs \<and> length b = sl_capacity sl
               \<and> sl_capacity sl \<le> 4 * SAFE_SIZE \<and> length xs \<le> length b
               \<and> take (length xs) b = map Some xs)"

abbreviation plain :: "string \<Rightarrow> strlist_elem" where
  "plain s \<equiv> \<lparr>el_str = s, el_ext = ExtNum 0\<rparr>"

lemma strlist_rep_INIT [simp]:
  "strlist_rep STRLIST_INIT_DUPSTR []" "strlist_rep STRLIST_INIT_NODUP []"
  by (simp_all add: strlist_rep_def STRLIST_INIT_DUPSTR_def STRLIST_INIT_NODUP_def)

lemma strlist_rep_size: "strlist_rep sl xs \<Longrightarrow> sl_size sl = length xs"
  by (auto simp: strlist_rep_def split: elem_array.splits)

lemma grow_elvec_rep:
  assumes "strlist_rep sl xs" "length xs < SAFE_SIZE"
  obtains b where "grow_elvec sl = Ok (sl\<lparr>elvec := Arr b, sl_capacity := length b\<rparr>)"
    "length b \<le> 4 * SAFE_SIZE" "length xs < length b" "take (length xs) b = map Some xs"
proof (cases "elvec sl")
  case NullArr
  then have n: "xs = []" "sl_size sl = 0" "sl_capacity sl = 0"
    using assms(1) by (simp_all add: strlist_rep_def)
  have pre: "(0::nat) < 1" "(1::nat) \<le> 4 * SAFE_SIZE" "0 < ELEM_SIZE" "ELEM_SIZE \<le> 16"
    by (simp_all add: size_bounds ELEM_SIZE_def)
  obtain cap' where
      "capacity_grow ELEM_SIZE (None :: strlist_elem block option) 1 0
         = Ok (Some (resize_block [] cap'), cap')" "1 \<le> cap'" "cap' \<le> grown_bound 1 0"
    by (rule capacity_grow_step [of 0 1 ELEM_SIZE "None :: strlist_elem block option",
          unfolded option.case, OF pre]) blast
  with NullArr n show thesis
    by (intro that [of "resize_block [] cap'"])
       (auto simp: grow_elvec_def grown_bound_def size_bounds)
next
  case (Arr b)
  then have r: "sl_size sl = length xs" "length b = sl_capacity sl" "sl_capacity sl \<le> 4 * SAFE_SIZE"
      "length xs \<le> length b" "take (length xs) b = map Some xs"
    using assms(1) by (simp_all add: strlist_rep_def)
  have pre: "length b = sl_capacity sl" "length xs + 1 \<le> 4 * SAFE_SIZE"
      "0 < ELEM_SIZE" "ELEM_SIZE \<le> 16"
    using r assms(2) by (simp_all add: size_bounds ELEM_SIZE_def)
  obtain b' cap' where g:
      "capacity_grow ELEM_SIZE (Some b) (length xs + 1) (sl_capacity sl) = Ok (Some b', cap')"
      "length b' = cap'" "length xs + 1 \<le> cap'"
      "cap' \<le> grown_bound (length xs + 1) (sl_capacity sl)" "take (sl_capacity sl) b' = b"
    by (rule capacity_grow_block [OF pre])
  have "take (length xs) b' = map Some xs"
    using g(5) r by (metis min.absorb1 take_take)
  with Arr r g assms(2) show thesis
    by (intro that [of b']) (auto simp: grow_elvec_def grown_bound_def size_bounds)
qed (use assms in \<open>simp add: strlist_rep_def\<close>)

lemma strlist_push_rep:
  assumes "strlist_rep sl xs" "length xs < SAFE_SIZE"
  obtains sl' where "strlist_push sl str = Ok (length xs, sl')" "strlist_rep sl' (xs @ [plain str])"
    "dupstr sl' = dupstr sl"
proof -
  obtain b where g: "grow_elvec sl = Ok (sl\<lparr>elvec := Arr b, sl_capacity := length b\<rparr>)"
      "length b \<le> 4 * SAFE_SIZE" "length xs < length b" "take (length xs) b = map Some xs"
    by (rule grow_elvec_rep [OF assms])
  have sz: "sl_size sl = length xs" "sz_wrap (Suc (length xs)) = Suc (length xs)"
    using assms strlist_rep_size by (auto simp: size_bounds)
  have "mem_write b (length xs) [plain str]
      = Ok (map Some (xs @ [plain str]) @ drop (length xs + 1) b)"
    using mem_write_prefix [OF g(4), of "[plain str]"] g(3) by simp
  with g sz show thesis
    by (intro that [of "sl\<lparr>sl_capacity := length b,
          elvec := Arr (map Some (xs @ [plain str]) @ drop (length xs + 1) b),
          sl_size := length xs + 1\<rparr>"])
       (auto simp: strlist_push_def strlist_push_nodup_def strlist_rep_def)
qed

lemma strlist_pop_rep:
  assumes "strlist_rep sl xs"
  shows "fst (strlist_pop sl) = (if xs = [] then None else Some (length xs - 1))
    \<and> strlist_rep (snd (strlist_pop sl)) (butlast xs)"
  using assms
  using take_map_Some_snocD
  by (cases xs rule: rev_cases)
     (fastforce simp: strlist_pop_def strlist_rep_def split: elem_array.splits)+

lemma live_elems_rep: "strlist_rep sl xs \<Longrightarrow> live_elems sl = Ok xs"
  using mem_read_prefix
  by (fastforce simp: live_elems_def strlist_rep_def split: elem_array.splits)

lemma elem_at_rep:
  "strlist_rep sl xs \<Longrightarrow> i < length xs \<Longrightarrow> elem_at sl i = Ok (xs ! i)"
proof -
  assume rep: "strlist_rep sl xs" and i: "i < length xs"
  then obtain b where b: "elvec sl = Arr b" "length xs \<le> length b" "take (length xs) b = map Some xs"
    by (auto simp: strlist_rep_def split: elem_array.splits)
  then have "b ! i = Some (xs ! i)"
    using i by (metis nth_map nth_take)
  with b i show ?thesis
    by (simp add: elem_at_def mem_read_def take_Suc hd_drop_conv_nth)
qed

section \<open>Splitting, joining\<close>

text \<open>
  Reference: the fields of a string between occurrences of a delimiter, and the inverse
  operation.
\<close>

fun split_on :: "char \<Rightarrow> string \<Rightarrow> string list" where
  "split_on d [] = [[]]"
| "split_on d (c # s) =
     (if c = d then [] # split_on d s
      else case split_on d s of [] \<Rightarrow> [[c]] | f # fs \<Rightarrow> (c # f) # fs)"

fun join_with :: "string \<Rightarrow> string list \<Rightarrow> string" where
  "join_with sep [] = []"
| "join_with sep [f] = f"
| "join_with sep (f # g # fs) = f @ sep @ join_with sep (g # fs)"

lemma split_on_nonempty [simp]: "split_on d s \<noteq> []"
  by (induction s) (auto split: list.splits)

lemma split_on_append:
  "d \<notin> set f \<Longrightarrow> split_on d (f @ d # s) = f # split_on d s"
  by (induction f) auto

lemma split_on_single: "d \<notin> set s \<Longrightarrow> split_on d s = [s]"
  by (induction s) auto

lemma join_with_Cons: "fs \<noteq> [] \<Longrightarrow> join_with sep (f # fs) = f @ sep @ join_with sep fs"
  by (cases fs) auto

lemma join_split: "join_with [d] (split_on d s) = s"
proof (induction s)
  case (Cons c s)
  show ?case
  proof (cases "split_on d s")
    case (Cons f fs)
    with Cons.IH show ?thesis
      by (cases fs) (auto simp: join_with_Cons)
  qed simp
qed simp

lemma split_on_fields: "f \<in> set (split_on d s) \<Longrightarrow> d \<notin> set f"
proof (induction s arbitrary: f)
  case (Cons c s)
  then show ?case
    by (cases "split_on d s") (auto split: if_splits)
qed simp

lemma split_join:
  "fs \<noteq> [] \<Longrightarrow> \<forall>f\<in>set fs. d \<notin> set f \<Longrightarrow> split_on d (join_with [d] fs) = fs"
  by (induction fs rule: induct_list012) (auto simp: split_on_append split_on_single)

lemma length_split_on: "length (split_on d s) \<le> Suc (length s)"
proof (induction s)
  case (Cons c s)
  then show ?case by (cases "split_on d s") auto
qed simp

text \<open>Splitting with at most \<open>n\<close> fields: the last one keeps the remaining delimiters.\<close>

definition limit_fields :: "char \<Rightarrow> nat \<Rightarrow> string list \<Rightarrow> string list" where
  "limit_fields d n fs =
     (if length fs \<le> n then fs else take (n - 1) fs @ [join_with [d] (drop (n - 1) fs)])"

definition split_spec :: "char \<Rightarrow> int \<Rightarrow> string \<Rightarrow> string list" where
  "split_spec d maxsplit s =
     (if maxsplit < 0 then split_on d s
      else limit_fields d (max 1 (nat maxsplit)) (split_on d s))"

lemma split_on_step:
  "d \<in> set s \<Longrightarrow> split_on d s
    = takeWhile (\<lambda>c. c \<noteq> d) s # split_on d (drop (Suc (length (takeWhile (\<lambda>c. c \<noteq> d) s))) s)"
  by (induction s) auto

lemma limit_fields_Cons:
  "2 \<le> n \<Longrightarrow> fs \<noteq> [] \<Longrightarrow> limit_fields d n (f # fs) = f # limit_fields d (n - 1) fs"
  by (cases n) (auto simp: limit_fields_def drop_Cons' take_Cons')

lemma limit_fields_1: "fs \<noteq> [] \<Longrightarrow> limit_fields d 1 fs = [join_with [d] fs]"
  by (cases fs) (auto simp: limit_fields_def)

lemma join_with_append:
  "fs \<noteq> [] \<Longrightarrow> gs \<noteq> [] \<Longrightarrow> join_with sep (fs @ gs) = join_with sep fs @ sep @ join_with sep gs"
  by (induction fs rule: induct_list012) (auto simp: join_with_Cons)

lemma join_limit_fields: "0 < n \<Longrightarrow> join_with [d] (limit_fields d n fs) = join_with [d] fs"
proof (cases "length fs \<le> n \<or> n = 1")
  case False
  moreover assume "0 < n"
  ultimately have "take (n - 1) fs \<noteq> []" "drop (n - 1) fs \<noteq> []" by auto
  then have "join_with [d] (take (n - 1) fs @ drop (n - 1) fs)
      = join_with [d] (take (n - 1) fs) @ [d] @ join_with [d] (drop (n - 1) fs)"
    by (rule join_with_append)
  then show ?thesis
    using False \<open>take (n - 1) fs \<noteq> []\<close> by (simp add: limit_fields_def join_with_append)
qed (auto simp: limit_fields_def)

lemma split_spec_last:
  "maxsplit = 0 \<or> maxsplit = 1 \<Longrightarrow> split_spec d maxsplit s = [s]"
  by (auto simp: split_spec_def limit_fields_1 [unfolded One_nat_def] join_split)

lemma strlist_split_loop_rep:
  assumes "strlist_rep sl xs" "length xs + Suc (length str) \<le> SAFE_SIZE" "delim \<noteq> NUL"
    "maxsplit < 0 \<or> count < max 1 (nat maxsplit)"
    "fs = split_spec delim (if maxsplit < 0 then -1 else maxsplit - int count) str"
  shows "\<exists>sl'. strlist_split_loop sl str delim maxsplit count
      = Ok (count + length fs, sl') \<and> strlist_rep sl' (xs @ map plain fs) \<and> dupstr sl' = dupstr sl"
  using assms
proof (induction sl str delim maxsplit count arbitrary: xs fs rule: strlist_split_loop.induct)
  case (1 sl str delim maxsplit count)
  let ?f = "takeWhile (\<lambda>c. c \<noteq> delim) str"
  let ?rest = "drop (Suc (length ?f)) str"
  have room: "length xs < SAFE_SIZE" using "1.prems"(2) by simp
  show ?case
  proof (cases "(0 \<le> maxsplit \<and> nat maxsplit \<le> count + 1) \<or> delim \<notin> set str")
    case True
    have "fs = [str]"
    proof (cases "delim \<notin> set str")
      case single: True
      then show ?thesis
        using "1.prems"(5) by (simp add: split_spec_def split_on_single limit_fields_def)
    next
      case False
      with True "1.prems"(4) have "0 \<le> maxsplit" "maxsplit - int count = 0 \<or> maxsplit - int count = 1"
        by auto
      then show ?thesis
        using "1.prems"(5) split_spec_last [of "maxsplit - int count" delim str] by simp
    qed
    moreover obtain sl' where "strlist_push sl str = Ok (length xs, sl')"
        "strlist_rep sl' (xs @ [plain str])" "dupstr sl' = dupstr sl"
      by (rule strlist_push_rep [OF "1.prems"(1) room])
    ultimately show ?thesis
      using True "1.prems"(3) by (subst strlist_split_loop.simps) (auto simp: Let_def)
  next
    case False
    then have d: "delim \<in> set str" by simp
    obtain sl1 where p: "strlist_push sl ?f = Ok (length xs, sl1)"
        "strlist_rep sl1 (xs @ [plain ?f])" "dupstr sl1 = dupstr sl"
      by (rule strlist_push_rep [OF "1.prems"(1) room])
    then have p1: "strlist_push_nodup sl ?f = Ok (length xs, sl1)"
      by (simp add: strlist_push_def)
    let ?fs = "split_spec delim (if maxsplit < 0 then -1 else maxsplit - int (count + 1)) ?rest"
    have n: "nat (1 + int count) = Suc count" by simp
    have fs: "fs = ?f # ?fs"
      using False d "1.prems"(5)
      by (auto simp: split_spec_def split_on_step [OF d] limit_fields_Cons nat_diff_distrib
          max_def algebra_simps n)
    have "length ?rest < length str" using d by (auto intro!: diff_less simp: length_pos_if_in_set)
    then have fits: "length (xs @ [plain ?f]) + Suc (length ?rest) \<le> SAFE_SIZE"
      using "1.prems"(2) by simp
    have cnt: "maxsplit < 0 \<or> count + 1 < max 1 (nat maxsplit)" using False by auto
    have "\<exists>sl'. strlist_split_loop sl1 ?rest delim maxsplit (count + 1)
        = Ok (count + 1 + length ?fs, sl') \<and> strlist_rep sl' ((xs @ [plain ?f]) @ map plain ?fs)
          \<and> dupstr sl' = dupstr sl1"
      using False d p1 p(2) fits "1.prems"(3) cnt
      by (intro "1.IH" [OF refl _ _ p1]) auto
    then show ?thesis
      using False d p1 p(3) fs
      by (subst strlist_split_loop.simps) (auto simp: Let_def)
  qed
qed

text \<open>
  strlist_split(sl, str, delim, maxsplit) on a dupstr list appends exactly the fields
  of the string between the delimiters and returns their number; a maxsplit of n (n at
  least 1) yields at most n fields, the last one holding the unsplit remainder.  Joining
  the appended fields with the delimiter gives the string back.
\<close>

theorem strlist_split_correct:
  assumes "strlist_rep sl xs" "dupstr sl" "delim \<noteq> NUL"
    "length xs + Suc (length str) \<le> SAFE_SIZE"
  shows "\<exists>sl'. strlist_split sl str delim maxsplit
           = Ok (length (split_spec delim maxsplit str), sl')
         \<and> strlist_rep sl' (xs @ map plain (split_spec delim maxsplit str))
         \<and> join_with [delim] (split_spec delim maxsplit str) = str"
proof -
  have spec: "split_spec delim (if maxsplit < 0 then -1 else maxsplit - int 0) str
      = split_spec delim maxsplit str"
    by (simp add: split_spec_def)
  have cond: "maxsplit < 0 \<or> 0 < max 1 (nat maxsplit)"
    by auto
  have "\<exists>sl'. strlist_split_loop sl str delim maxsplit 0
      = Ok (0 + length (split_spec delim maxsplit str), sl')
      \<and> strlist_rep sl' (xs @ map plain (split_spec delim maxsplit str)) \<and> dupstr sl' = dupstr sl"
    by (rule strlist_split_loop_rep [OF assms(1,4,3) cond spec [symmetric]])
  moreover have "join_with [delim] (split_spec delim maxsplit str) = str"
    by (simp add: split_spec_def join_limit_fields join_split)
  ultimately show ?thesis
    using assms(2) by (auto simp: strlist_split_def)
qed

theorem strlist_split_correct_witness:
  "\<exists>sl'. strlist_split STRLIST_INIT_DUPSTR ''a,b,c'' (CHR '','') 2 = Ok (2, sl')
         \<and> strlist_rep sl' (map plain [''a'', ''b,c''])"
proof -
  have spec: "split_spec (CHR '','') 2 ''a,b,c'' = [''a'', ''b,c'']"
    by (simp add: split_spec_def limit_fields_def)
  have dup: "dupstr STRLIST_INIT_DUPSTR" and d: "CHR '','' \<noteq> NUL"
    and fits: "length ([] :: strlist_elem list) + Suc (length ''a,b,c'') \<le> SAFE_SIZE"
    by (simp_all add: STRLIST_INIT_DUPSTR_def size_bounds)
  have two: "length [''a'', ''b,c''] = 2" by simp
  show ?thesis
    using strlist_split_correct [OF strlist_rep_INIT(1) dup d fits, of 2]
    unfolding spec two by auto
qed

section \<open>Filtering\<close>

text \<open>The inner loop shifts a segment down; nothing it reads has been overwritten.\<close>

lemma length_move_down [simp]: "length (move_down b k is) = length b"
  by (induction b k "is" rule: move_down.induct) auto

lemma move_down_append: "move_down b k (is @ js) = move_down (move_down b k is) k js"
  by (induction b k "is" rule: move_down.induct) auto

lemma nth_move_down:
  assumes "0 < k" "k \<le> a" "s \<le> length b" "p < length b"
  shows "move_down b k [a ..< s] ! p
    = (if a - k \<le> p \<and> p < s - k then b ! (p + k) else b ! p)"
  using assms
proof (induction s arbitrary: p)
  case (Suc s)
  show ?case
  proof (cases "a \<le> s")
    case True
    then have "move_down b k [a ..< Suc s]
        = (move_down b k [a ..< s])[s - k := move_down b k [a ..< s] ! s]"
      by (simp add: move_down_append)
    moreover have "move_down b k [a ..< s] ! s = b ! s"
      using Suc.IH [of s] Suc.prems by auto
    ultimately show ?thesis
      using Suc.IH [of p] Suc.prems True by (auto simp: nth_list_update)
  qed (use Suc in auto)
qed simp

text \<open>
  The invariant of the compaction loop.  With \<open>iii\<close> elements dropped so far and the next
  rejected index \<open>t\<close>, the first \<open>t - iii\<close> cells hold the kept elements among the first
  \<open>t\<close>, and the cells from \<open>t\<close> on are untouched.
\<close>

definition compacted :: "(strlist_elem \<Rightarrow> bool) \<Rightarrow> strlist_elem list \<Rightarrow> strlist_elem block \<Rightarrow> nat \<Rightarrow> nat \<Rightarrow> bool" where
  "compacted keep xs b iii t \<longleftrightarrow>
     take (t - iii) b = map Some (filter keep (take t xs)) \<and> iii \<le> t
     \<and> length (filter keep (take t xs)) = t - iii
     \<and> (\<forall>p. t \<le> p \<longrightarrow> p < length xs \<longrightarrow> b ! p = Some (xs ! p))"

lemma compacted_step:
  assumes c: "compacted keep xs b iii t" and t: "t < stop" "stop \<le> length xs" "length xs \<le> length b"
    and drop: "\<not> keep (xs ! t)" and keep: "\<forall>p. t < p \<longrightarrow> p < stop \<longrightarrow> keep (xs ! p)"
  shows "compacted keep xs (move_down b (iii + 1) [t + 1 ..< stop]) (iii + 1) stop"
proof -
  let ?k = "iii + 1" and ?b = "move_down b (iii + 1) [t + 1 ..< stop]"
  from c have le: "iii \<le> t" and pre: "take (t - iii) b = map Some (filter keep (take t xs))"
    and len: "length (filter keep (take t xs)) = t - iii"
    and rest: "\<And>p. t \<le> p \<Longrightarrow> p < length xs \<Longrightarrow> b ! p = Some (xs ! p)"
    by (auto simp: compacted_def)
  let ?seg = "drop (Suc t) (take stop xs)"
  have split: "take stop xs = take t xs @ xs ! t # ?seg"
    using t id_take_nth_drop [of t "take stop xs"] by (simp add: min_def)
  have seg: "filter keep ?seg = ?seg"
    using keep t by (auto simp: filter_id_conv in_set_conv_nth)
  have fl: "filter keep (take stop xs) = filter keep (take t xs) @ ?seg"
    by (subst split) (simp add: drop seg)
  have lseg: "length ?seg = stop - Suc t" using t by simp
  have shifted: "?b ! p = (if t - iii \<le> p \<and> p < stop - ?k then b ! (p + ?k) else b ! p)"
    if "p < length b" for p
    using that le t nth_move_down [of ?k "t + 1" stop b p] by auto
  have "take (stop - ?k) ?b = map Some (filter keep (take stop xs))"
  proof (rule nth_equalityI)
    show "length (take (stop - ?k) ?b) = length (map Some (filter keep (take stop xs)))"
      using fl len lseg t le by simp
    fix p assume "p < length (take (stop - ?k) ?b)"
    then have p: "p < stop - ?k" "p < length b" by auto
    note sh = shifted [OF p(2)]
    show "take (stop - ?k) ?b ! p = map Some (filter keep (take stop xs)) ! p"
    proof (cases "p < t - iii")
      case True
      then have "b ! p = map Some (filter keep (take t xs)) ! p"
        using pre by (metis nth_take)
      with True p show ?thesis
        using sh by (simp add: fl nth_append len)
    next
      case False
      have q: "p - (t - iii) < length ?seg" using p lseg False le t by simp
      have "b ! (p + ?k) = Some (xs ! (p + ?k))"
        using p t False le by (intro rest) auto
      moreover have "?seg ! (p - (t - iii)) = xs ! (p + ?k)"
        using q p t False le by (simp add: add.commute)
      ultimately show ?thesis
        using sh False p q by (simp add: fl nth_append len)
    qed
  qed
  moreover have "?b ! p = Some (xs ! p)" if "stop \<le> p" "p < length xs" for p
    using that t rest [of p] shifted [of p] by auto
  ultimately show ?thesis
    using le t len lseg fl by (auto simp: compacted_def)
qed

text \<open>The loop over the rejected indices, with its reads of the elements it releases.\<close>

definition elem_freed :: "bool \<Rightarrow> bool \<Rightarrow> strlist_elem \<Rightarrow> freed list" where
  "elem_freed dup free_ext el =
     (if dup then [FreeStr (el_str el)] else []) @ (if free_ext then [FreeExt (el_ext el)] else [])"

lemma strlist_erase_at_block:
  assumes "elvec sl = Arr b" "i < length b" "b ! i = Some el"
  shows "strlist_erase_at sl i free_ext = Ok (elem_freed (dupstr sl) free_ext el)"
  using assms
  by (simp add: strlist_erase_at_def elem_freed_def elem_at_def mem_read_def
      take_Suc hd_drop_conv_nth)

fun rejected_from :: "(strlist_elem \<Rightarrow> bool) \<Rightarrow> strlist_elem list \<Rightarrow> nat \<Rightarrow> nat list \<Rightarrow> bool" where
  "rejected_from keep xs lo [] = (\<forall>p. lo \<le> p \<longrightarrow> p < length xs \<longrightarrow> keep (xs ! p))"
| "rejected_from keep xs lo (t # ts) =
     (lo \<le> t \<and> t < length xs \<and> \<not> keep (xs ! t) \<and> (\<forall>p. lo \<le> p \<longrightarrow> p < t \<longrightarrow> keep (xs ! p))
      \<and> rejected_from keep xs (Suc t) ts)"

lemma rejected_from_filter:
  "rejected_from keep xs lo [i \<leftarrow> [lo ..< length xs]. \<not> keep (xs ! i)]"
proof (induction "length xs - lo" arbitrary: lo)
  case 0
  then show ?case by simp
next
  case (Suc n)
  then have lt: "lo < length xs" by simp
  then have eq: "[lo ..< length xs] = lo # [Suc lo ..< length xs]"
    by (simp add: upt_conv_Cons)
  have "rejected_from keep xs (Suc lo) [i \<leftarrow> [Suc lo ..< length xs]. \<not> keep (xs ! i)]"
    using Suc by (intro Suc.hyps) simp
  moreover have "rejected_from keep xs lo ts"
    if "keep (xs ! lo)" "rejected_from keep xs (Suc lo) ts" for ts
    using that by (cases ts) (auto, (metis Suc_leI le_neq_implies_less)+)
  ultimately show ?case
    using lt by (auto simp: eq)
qed

lemma compact_loop_correct:
  assumes "elvec sl = Arr b" "length xs \<le> length b" "rejected_from keep xs lo (t # ts)"
    "compacted keep xs b iii t" "sl_size sl = length xs - iii"
    "length ts + iii = 0 \<or> last (t # ts) = length xs - 1"
  shows "\<exists>b'. compact_loop sl iii (t # ts) free_ext
      = Ok (concat (map (\<lambda>i. elem_freed (dupstr sl) free_ext (xs ! i)) (t # ts)),
            sl\<lparr>elvec := Arr b', sl_size := length xs - iii - length (t # ts)\<rparr>)
      \<and> length b' = length b
      \<and> take (length xs - iii - length (t # ts)) b' = map Some (filter keep xs)"
  using assms
proof (induction ts arbitrary: sl b iii t lo)
  case Nil
  let ?b = "move_down b (iii + 1) [t + 1 ..< sl_size sl]"
  from Nil.prems(3) have t: "t < length xs" "\<not> keep (xs ! t)"
      and keep: "\<forall>p. t < p \<longrightarrow> p < length xs \<longrightarrow> keep (xs ! p)"
    by (auto simp: Suc_le_eq)
  have stop: "[t + 1 ..< sl_size sl] = [t + 1 ..< length xs]"
    using Nil.prems(5,6) by auto
  have "compacted keep xs ?b (iii + 1) (length xs)"
    unfolding stop using Nil.prems(2,4) t keep by (intro compacted_step) auto
  moreover have "strlist_erase_at sl t free_ext = Ok (elem_freed (dupstr sl) free_ext (xs ! t))"
    using Nil.prems(1,2,4) t by (intro strlist_erase_at_block) (auto simp: compacted_def)
  ultimately show ?case
    using Nil.prems(1,5) by (intro exI [of _ ?b]) (auto simp: compacted_def)
next
  case (Cons t' ts)
  let ?b = "move_down b (iii + 1) [t + 1 ..< t']"
  let ?sl = "sl\<lparr>elvec := Arr ?b, sl_size := sl_size sl - 1\<rparr>"
  from Cons.prems(3) have t: "t < t'" "t' < length xs" "\<not> keep (xs ! t)"
      and keep: "\<forall>p. t < p \<longrightarrow> p < t' \<longrightarrow> keep (xs ! p)"
    by (auto simp: Suc_le_eq)
  have "compacted keep xs ?b (iii + 1) t'"
    using Cons.prems(2,4) t keep by (intro compacted_step) auto
  moreover have er: "strlist_erase_at sl t free_ext = Ok (elem_freed (dupstr sl) free_ext (xs ! t))"
    using Cons.prems(1,2,4) t by (intro strlist_erase_at_block) (auto simp: compacted_def)
  ultimately have "\<exists>b'. compact_loop ?sl (iii + 1) (t' # ts) free_ext
      = Ok (concat (map (\<lambda>i. elem_freed (dupstr ?sl) free_ext (xs ! i)) (t' # ts)),
            ?sl\<lparr>elvec := Arr b', sl_size := length xs - (iii + 1) - length (t' # ts)\<rparr>)
      \<and> length b' = length ?b
      \<and> take (length xs - (iii + 1) - length (t' # ts)) b' = map Some (filter keep xs)"
    using Cons.prems
    by (intro Cons.IH [where sl = ?sl and b = ?b and lo = "Suc t" and t = t' and iii = "iii + 1"])
       auto
  then show ?case
    using Cons.prems(1) er by (auto simp: Let_def)
qed

lemma track_loop_block:
  assumes "take (length xs) b = map Some xs" "length xs \<le> length b" "\<forall>i\<in>set is. i < length xs"
  shows "track_loop b keep is = Ok [i \<leftarrow> is. \<not> keep (xs ! i)]"
  using assms(3)
proof (induction "is")
  case (Cons i "is")
  then have i: "i < length xs" by simp
  then have "b ! i = Some (xs ! i)"
    using assms(1) by (metis nth_map nth_take)
  then have "mem_read b i 1 = Ok [xs ! i]"
    using i assms(2) by (simp add: mem_read_def take_Suc hd_drop_conv_nth)
  with Cons show ?case by simp
qed simp

lemma last_index_filter:
  "xs \<noteq> [] \<Longrightarrow> P (length xs - 1) \<Longrightarrow>
   [i \<leftarrow> [0 ..< length xs]. P i] \<noteq> [] \<and> last [i \<leftarrow> [0 ..< length xs]. P i] = length xs - 1"
  by (cases xs rule: rev_cases) auto

lemma nth_filter_upt: "map ((!) xs) [i \<leftarrow> [0 ..< length xs]. P (xs ! i)] = filter P xs"
  using filter_map [of P "(!) xs" "[0 ..< length xs]"] by (simp add: map_nth comp_def)

lemma strlist_filter_rep:
  assumes rep: "strlist_rep sl xs" and ne: "xs \<noteq> []"
    and last: "\<not> keep (last xs) \<or> length (filter (\<lambda>x. \<not> keep x) xs) \<le> 1"
  shows "\<exists>sl'. strlist_filter sl keep free_ext
           = Ok (concat (map (elem_freed (dupstr sl) free_ext) (filter (\<lambda>x. \<not> keep x) xs)), sl')
         \<and> strlist_rep sl' (filter keep xs)"
proof -
  obtain b where b: "elvec sl = Arr b" "sl_size sl = length xs" "length b = sl_capacity sl"
      "sl_capacity sl \<le> 4 * SAFE_SIZE" "length xs \<le> length b" "take (length xs) b = map Some xs"
    using rep ne by (auto simp: strlist_rep_def split: elem_array.splits)
  let ?track = "[i \<leftarrow> [0 ..< length xs]. \<not> keep (xs ! i)]"
  have frees: "map (\<lambda>i. elem_freed d e (xs ! i)) ?track = map (elem_freed d e) (filter (\<lambda>x. \<not> keep x) xs)"
    for d e using arg_cong [OF nth_filter_upt, of "map (elem_freed d e)" xs "\<lambda>x. \<not> keep x"]
    by (simp add: comp_def)
  have lent: "length ?track = length (filter (\<lambda>x. \<not> keep x) xs)"
    using arg_cong [OF nth_filter_upt, of length xs "\<lambda>x. \<not> keep x"] by simp
  have flt: "strlist_filter sl keep free_ext = compact_loop sl 0 ?track free_ext"
    using b ne track_loop_block [OF b(6,5), of "[0 ..< length xs]" keep]
    by (simp add: strlist_filter_def)
  show ?thesis
  proof (cases ?track)
    case Nil
    then have "filter keep xs = xs" "filter (\<lambda>x. \<not> keep x) xs = []"
      using lent by (auto simp: filter_empty_conv filter_id_conv)
    then show ?thesis
      using flt rep Nil by simp
  next
    case (Cons t ts)
    have rej: "rejected_from keep xs 0 (t # ts)"
      using rejected_from_filter [of keep xs 0] Cons by simp
    then have "filter keep (take t xs) = take t xs"
      by (auto simp: filter_id_conv in_set_conv_nth)
    moreover have "b ! p = Some (xs ! p)" if "p < length xs" for p
      using that b(6) by (metis nth_map nth_take)
    moreover have t: "t < length xs" using rej by simp
    moreover have "take t b = map Some (take t xs)"
      using t b(6) by (metis less_imp_le_nat min.absorb1 take_map take_take)
    ultimately have "compacted keep xs b 0 t"
      by (simp add: compacted_def)
    moreover have "length ts = 0 \<or> last (t # ts) = length xs - 1"
      using last
    proof
      assume "\<not> keep (last xs)"
      then show ?thesis
        using last_index_filter [OF ne, of "\<lambda>i. \<not> keep (xs ! i)"] Cons ne
        by (simp add: last_conv_nth)
    next
      assume "length (filter (\<lambda>x. \<not> keep x) xs) \<le> 1"
      then show ?thesis using lent Cons by (cases ts) auto
    qed
    ultimately obtain b' where b': "compact_loop sl 0 (t # ts) free_ext
        = Ok (concat (map (\<lambda>i. elem_freed (dupstr sl) free_ext (xs ! i)) (t # ts)),
              sl\<lparr>elvec := Arr b', sl_size := length xs - length (t # ts)\<rparr>)"
        "length b' = length b"
        "take (length xs - length (t # ts)) b' = map Some (filter keep xs)"
      using compact_loop_correct [OF b(1,5) rej, of 0 free_ext] b(2) by auto
    have len: "length xs - length (t # ts) = length (filter keep xs)"
      using lent Cons sum_length_filter_compl [of keep xs] by simp
    have "concat (map (\<lambda>i. elem_freed (dupstr sl) free_ext (xs ! i)) (t # ts))
        = concat (map (elem_freed (dupstr sl) free_ext) (filter (\<lambda>x. \<not> keep x) xs))"
      using frees [of "dupstr sl" free_ext] Cons by simp
    then show ?thesis
      using flt Cons b' b len length_filter_le [of keep xs]
      by (intro exI [of _ "sl\<lparr>elvec := Arr b', sl_size := length (filter keep xs)\<rparr>"])
         (simp add: strlist_rep_def)
  qed
qed

text \<open>
  C28. strlist_filter keeps exactly the elements the predicate accepts, in their order, and
  releases exactly the others - provided the last element is rejected, or at most one
  element is.  (Its last compaction round uses a size that has already been decremented;
  see the next property.)
\<close>

theorem strlist_filter_correct:
  assumes rep: "strlist_rep sl xs" and ne: "xs \<noteq> []"
    and last: "\<not> keep (last xs) \<or> length (filter (\<lambda>x. \<not> keep x) xs) \<le> 1"
  shows "\<exists>sl'. strlist_filter sl keep free_ext
           = Ok (concat (map (elem_freed (dupstr sl) free_ext) (filter (\<lambda>x. \<not> keep x) xs)), sl')
         \<and> strlist_rep sl' (filter keep xs)"
  using assms by (rule strlist_filter_rep)

theorem strlist_filter_correct_witness:
  "\<exists>sl'. strlist_filter \<lparr>elvec = Arr (map (Some \<circ> plain) [''a'', [], ''b'', []]), sl_size = 4,
              sl_capacity = 4, dupstr = True\<rparr> (\<lambda>el. el_str el \<noteq> []) False
      = Ok ([FreeStr [], FreeStr []], sl') \<and> strlist_rep sl' (map plain [''a'', ''b''])"
  using strlist_filter_correct [of "\<lparr>elvec = Arr (map (Some \<circ> plain) [''a'', [], ''b'', []]),
      sl_size = 4, sl_capacity = 4, dupstr = True\<rparr>" "map plain [''a'', [], ''b'', []]"
      "\<lambda>el. el_str el \<noteq> []" False]
  by (simp add: strlist_rep_def size_bounds elem_freed_def)

text \<open>
  What goes wrong otherwise.  No round of the compaction reads the cell of the last
  element once two elements have been rejected before it, so that element is gone; the
  cells it and its neighbours should have filled keep what they held, and with them a
  second reference to a string that is already in the list.
\<close>

lemma set_move_down:
  assumes "0 < k" "k \<le> a" "s \<le> m" "m \<le> length b"
  shows "set (take m (move_down b k [a ..< s])) \<subseteq> set (take m b)"
proof
  fix x assume "x \<in> set (take m (move_down b k [a ..< s]))"
  then obtain p where p: "p < m" "p < length b" "x = move_down b k [a ..< s] ! p"
    using assms(4) by (auto simp: in_set_conv_nth)
  then have "x = b ! p \<or> (p + k < m \<and> x = b ! (p + k))"
    using nth_move_down [OF assms(1,2), of s b p] assms(3,4) by (auto split: if_splits)
  then show "x \<in> set (take m b)"
    using p(1) assms(4) by (auto simp: in_set_conv_nth intro: exI [of _ "p + k"])
qed

lemma compact_loop_loses:
  assumes "elvec sl = Arr b" "m < length b" "\<forall>t\<in>set track. t < m" "sl_size sl \<le> m \<or> 2 \<le> length track"
    "sl_size sl \<le> Suc m" "sorted_wrt (<) track" "\<forall>t\<in>set track. iii \<le> t"
    "compact_loop sl iii track free_ext = Ok (fs, sl')" "track \<noteq> []"
  shows "\<exists>b'. elvec sl' = Arr b' \<and> sl_size sl' = sl_size sl - length track
           \<and> length b' = length b \<and> set (take m b') \<subseteq> set (take m b)"
  using assms
proof (induction track arbitrary: sl b iii fs)
  case (Cons t track)
  let ?stop = "case track of [] \<Rightarrow> sl_size sl | t' # _ \<Rightarrow> t'"
  let ?b = "move_down b (iii + 1) [t + 1 ..< ?stop]"
  let ?sl = "sl\<lparr>elvec := Arr ?b, sl_size := sl_size sl - 1\<rparr>"
  have stop: "?stop \<le> m"
    using Cons.prems(3,4) by (cases track) auto
  have sub: "set (take m ?b) \<subseteq> set (take m b)"
    using Cons.prems(2,7) stop by (intro set_move_down) auto
  obtain fs' where step: "compact_loop ?sl (iii + 1) track free_ext = Ok (fs', sl')"
    using Cons.prems(1,8) by (auto simp: res_simps Let_def)
  show ?case
  proof (cases "track = []")
    case True
    then show ?thesis using step sub by auto
  next
    case False
    then have "\<exists>b'. elvec sl' = Arr b' \<and> sl_size sl' = sl_size ?sl - length track
           \<and> length b' = length ?b \<and> set (take m b') \<subseteq> set (take m ?b)"
      using Cons.prems step by (intro Cons.IH) (auto simp: Suc_le_eq)
    with sub show ?thesis by auto
  qed
qed simp

text \<open>
  When strlist_filter rejects at least two elements and accepts the last one, it
  returns a list of the right length in which the last element does not occur (if the
  elements differ pairwise): the accepted elements are not all kept.
\<close>

theorem strlist_filter_loses_last:
  assumes rep: "strlist_rep sl xs" and dist: "distinct xs" and ne: "xs \<noteq> []"
    and last: "keep (last xs)" and two: "2 \<le> length (filter (\<lambda>x. \<not> keep x) xs)"
    and run: "strlist_filter sl keep free_ext = Ok (fs, sl')"
  shows "\<exists>ys. live_elems sl' = Ok ys \<and> length ys = length (filter keep xs) \<and> last xs \<notin> set ys"
proof -
  obtain b where b: "elvec sl = Arr b" "sl_size sl = length xs"
      "length xs \<le> length b" "take (length xs) b = map Some xs"
    using rep ne by (auto simp: strlist_rep_def split: elem_array.splits)
  let ?track = "[i \<leftarrow> [0 ..< length xs]. \<not> keep (xs ! i)]"
  let ?m = "length xs - 1"
  have lent: "length ?track = length (filter (\<lambda>x. \<not> keep x) xs)"
    using arg_cong [OF nth_filter_upt, of length xs "\<lambda>x. \<not> keep x"] by simp
  have "compact_loop sl 0 ?track free_ext = Ok (fs, sl')"
    using run b ne track_loop_block [OF b(4,3), of "[0 ..< length xs]" keep]
    by (simp add: strlist_filter_def)
  moreover have "\<forall>t\<in>set ?track. t < ?m"
    using last ne by (auto simp: last_conv_nth) (metis Suc_pred length_greater_0_conv less_SucE ne)
  moreover have "sorted_wrt (<) ?track"
    by (simp add: sorted_wrt_filter)
  moreover have "?m < length b" "?track \<noteq> []" "2 \<le> length ?track"
    using b ne two lent by (auto simp flip: length_greater_0_conv)
  ultimately obtain b' where b': "elvec sl' = Arr b'" "sl_size sl' = length xs - length ?track"
      "length b' = length b" "set (take ?m b') \<subseteq> set (take ?m b)"
    using compact_loop_loses [OF b(1), of ?m ?track 0 free_ext fs sl'] b(2) ne by auto
  have len: "sl_size sl' = length (filter keep xs)" "sl_size sl' \<le> ?m"
    using b'(2) lent two sum_length_filter_compl [of keep xs] by simp_all
  have tk: "take ?m b = map Some (take ?m xs)"
    using b(4) by (metis diff_le_self min.absorb1 take_map take_take)
  have nolast: "last xs \<notin> set (take ?m xs)"
    using dist ne by (metis butlast_conv_take distinct_butlast not_distinct_conv_prefix
        append_butlast_last_id distinct_append disjoint_iff list.set_intros(1))
  have "set (take (sl_size sl') b') \<subseteq> set (take ?m b')"
    using len(2) by (metis set_take_subset_set_take)
  then have sub: "set (take (sl_size sl') b') \<subseteq> Some ` set (take ?m xs)"
    using b'(4) tk by auto
  then have "live_elems sl' = Ok (map the (take (sl_size sl') b'))"
    using b' b(3) len by (auto simp: live_elems_def mem_read_def)
  moreover have "last xs \<notin> set (map the (take (sl_size sl') b'))"
    using sub nolast by auto
  moreover have "length (map the (take (sl_size sl') b')) = length (filter keep xs)"
    using b'(3) b(3) len by simp
  ultimately show ?thesis by blast
qed

theorem strlist_filter_loses_last_witness:
  "let sl = \<lparr>elvec = Arr (map (Some \<circ> plain) [''a'', ''b'', ''c'', ''d'']), sl_size = 4,
             sl_capacity = 4, dupstr = True\<rparr>;
       keep = (\<lambda>el. el_str el = ''b'' \<or> el_str el = ''d'');
       sl' = snd (case strlist_filter sl keep False of Ok r \<Rightarrow> r | Halt h \<Rightarrow> ([], sl))
   in \<exists>ys. live_elems sl' = Ok ys \<and> length ys = 2 \<and> plain ''d'' \<notin> set ys"
  using strlist_filter_loses_last [of "\<lparr>elvec = Arr (map (Some \<circ> plain) [''a'', ''b'', ''c'', ''d'']),
      sl_size = 4, sl_capacity = 4, dupstr = True\<rparr>" "map plain [''a'', ''b'', ''c'', ''d'']"
      "\<lambda>el. el_str el = ''b'' \<or> el_str el = ''d''" False]
  by (simp add: strlist_rep_def size_bounds strlist_filter_def mem_read_def res_simps
      strlist_erase_at_def elem_at_def upt_rec numeral_2_eq_2)

section \<open>Joining and releasing\<close>

text \<open>What strlist_join writes for one element, without the separator.\<close>

fun ext_val :: "ext \<Rightarrow> string" where
  "ext_val (ExtNum n) = []"
| "ext_val (ExtStr s) = s"

definition ext_ok :: "strlist_join_ext_pos \<Rightarrow> strlist_elem \<Rightarrow> bool" where
  "ext_ok pos el \<longleftrightarrow> pos = EXT_JOIN_NONE \<or> (case el_ext el of ExtNum n \<Rightarrow> n = 0 | _ \<Rightarrow> True)"

definition join_piece :: "strlist_join_ext_pos \<Rightarrow> strlist_elem \<Rightarrow> string" where
  "join_piece pos el =
     (case pos of
        EXT_JOIN_NONE \<Rightarrow> el_str el
      | EXT_JOIN_HEAD \<Rightarrow> ext_val (el_ext el) @ el_str el
      | EXT_JOIN_TAIL \<Rightarrow> el_str el @ ext_val (el_ext el))"

definition join_bytes :: "string \<Rightarrow> strlist_join_ext_pos \<Rightarrow> strlist_elem list \<Rightarrow> string" where
  "join_bytes sep pos els = concat (map (\<lambda>el. join_piece pos el @ sep) els)"

lemma ext_text_ok:
  "ext_ok pos el \<Longrightarrow> pos \<noteq> EXT_JOIN_NONE \<Longrightarrow> ext_text (el_ext el) = Ok (ext_val (el_ext el))"
  by (cases "el_ext el") (auto simp: ext_ok_def)

definition joined_so_far :: "char block option \<Rightarrow> size_t \<Rightarrow> size_t \<Rightarrow> string \<Rightarrow> bool" where
  "joined_so_far p bufsz bufcap acc \<longleftrightarrow>
     bufsz = length acc \<and>
     (case p of
        None \<Rightarrow> acc = [] \<and> bufcap = 0
      | Some b \<Rightarrow> length b = bufcap \<and> bufcap \<le> 4 * SAFE_SIZE \<and> length acc \<le> bufcap
                \<and> take (length acc) b = map Some acc)"

lemma join_grow:
  assumes "joined_so_far p (length acc) bufcap acc" "length acc < sz" "sz \<le> SAFE_SIZE"
  obtains b' where "capacity_grow 1 p sz bufcap = Ok (Some b', length b')" "sz \<le> length b'"
    "length b' \<le> 4 * SAFE_SIZE" "take (length acc) b' = map Some acc"
proof (cases p)
  case None
  have pre: "(0::nat) < sz" "sz \<le> 4 * SAFE_SIZE" "(0::nat) < 1" "(1::nat) \<le> 16"
    using assms(2,3) by simp_all
  obtain cap' where "capacity_grow 1 (None :: char block option) sz 0
         = Ok (Some (resize_block [] cap'), cap')" "sz \<le> cap'" "cap' \<le> grown_bound sz 0"
    by (rule capacity_grow_step [of 0 sz 1 "None :: char block option",
          unfolded option.case, OF pre]) blast
  with None assms show thesis
    by (intro that [of "resize_block [] cap'"])
       (auto simp: joined_so_far_def grown_bound_def size_bounds)
next
  case (Some b)
  have b: "length b = bufcap" "bufcap \<le> 4 * SAFE_SIZE" "length acc \<le> bufcap"
      "take (length acc) b = map Some acc"
    using assms(1) Some by (simp_all add: joined_so_far_def)
  have pre: "length b = bufcap" "sz \<le> 4 * SAFE_SIZE" "(0::nat) < 1" "(1::nat) \<le> 16"
    using b(1) assms(3) by simp_all
  obtain b' cap' where g: "capacity_grow 1 (Some b) sz bufcap = Ok (Some b', cap')"
      "length b' = cap'" "sz \<le> cap'" "cap' \<le> grown_bound sz bufcap" "take bufcap b' = b"
    by (rule capacity_grow_block [OF pre])
  have "take (length acc) b' = map Some acc"
    using g(5) b(3,4) by (metis min.absorb1 take_take)
  with g Some b assms(3) show thesis
    by (intro that [of b']) (auto simp: grown_bound_def size_bounds)
qed

lemma join_loop_correct:
  assumes "joined_so_far p bufsz bufcap acc" "\<forall>el\<in>set els. ext_ok pos el" "sep \<noteq> []"
    "length acc + length (join_bytes sep pos els) \<le> SAFE_SIZE"
  shows "\<exists>p' bufcap'. join_loop els sep pos p bufsz bufcap
      = Ok (p', length (acc @ join_bytes sep pos els), bufcap')
      \<and> joined_so_far p' (length (acc @ join_bytes sep pos els)) bufcap' (acc @ join_bytes sep pos els)"
  using assms
proof (induction els arbitrary: p bufsz bufcap acc)
  case Nil
  then show ?case by (auto simp: join_bytes_def joined_so_far_def)
next
  case (Cons el els)
  let ?bytes = "join_piece pos el @ sep"
  define extstr where "extstr = (if pos \<noteq> EXT_JOIN_NONE then ext_val (el_ext el) else [])"
  have ext: "(if pos \<noteq> EXT_JOIN_NONE then ext_text (el_ext el) else Ok []) = Ok extstr"
    using Cons.prems(2) by (auto simp: extstr_def ext_text_ok)
  have piece: "(if pos = EXT_JOIN_HEAD then extstr else []) @ el_str el
                 @ (if pos = EXT_JOIN_TAIL then extstr else []) @ sep = ?bytes"
    by (cases pos) (auto simp: join_piece_def extstr_def)
  have lenp: "length (el_str el) + length extstr + length sep = length ?bytes"
    by (cases pos) (auto simp: join_piece_def extstr_def)
  have jb: "join_bytes sep pos (el # els) = ?bytes @ join_bytes sep pos els"
    by (simp add: join_bytes_def)
  have bsz: "bufsz = length acc" using Cons.prems(1) by (simp add: joined_so_far_def)
  have fit: "length acc + length ?bytes \<le> SAFE_SIZE" using Cons.prems(4) jb by simp
  then have wrap: "sz_wrap (bufsz + length (el_str el) + length extstr + length sep)
      = length acc + length ?bytes"
    using lenp bsz by (simp add: size_bounds add.assoc)
  have more: "length acc < length acc + length ?bytes" using Cons.prems(3) by simp
  obtain b' where b': "capacity_grow 1 p (length acc + length ?bytes) bufcap = Ok (Some b', length b')"
      "length acc + length ?bytes \<le> length b'" "length b' \<le> 4 * SAFE_SIZE"
      "take (length acc) b' = map Some acc"
    by (rule join_grow [OF Cons.prems(1) [unfolded bsz] more fit])
  let ?b = "map Some (acc @ ?bytes) @ drop (length acc + length ?bytes) b'"
  have w: "mem_write b' (length acc) ?bytes = Ok ?b"
    by (rule mem_write_prefix) (use b' in auto)
  have "joined_so_far (Some ?b) (length acc + length ?bytes) (length b') (acc @ ?bytes)"
    using b'(2,3) by (simp add: joined_so_far_def)
  then obtain p' cap' where IH: "join_loop els sep pos (Some ?b) (length acc + length ?bytes) (length b')
        = Ok (p', length ((acc @ ?bytes) @ join_bytes sep pos els), cap')"
      "joined_so_far p' (length ((acc @ ?bytes) @ join_bytes sep pos els)) cap'
         ((acc @ ?bytes) @ join_bytes sep pos els)"
    using Cons.IH [of "Some ?b" "length acc + length ?bytes" "length b'" "acc @ ?bytes"]
      Cons.prems(2-4) jb by auto
  have "join_loop (el # els) sep pos p bufsz bufcap
      = join_loop els sep pos (Some ?b) (length acc + length ?bytes) (length b')"
    unfolding join_loop.simps ext bind_res.simps Let_def piece wrap b'(1)
    using w bsz by simp
  then show ?case using IH jb by auto
qed

lemma join_bytes_join_with:
  "els \<noteq> [] \<Longrightarrow> join_bytes sep pos els = join_with sep (map (join_piece pos) els) @ sep"
  by (induction els rule: induct_list012) (auto simp: join_bytes_def)

text \<open>
  strlist_join of a non-empty list with a non-empty separator returns the elements, each
  with its extension string before or after it as the position asks, separated by the
  separator; no write leaves the buffer.
\<close>

lemma strlist_join_correct:
  assumes rep: "strlist_rep sl xs" and ne: "xs \<noteq> []" "sep \<noteq> []"
    and ok: "\<forall>el\<in>set xs. ext_ok pos el" "cstring (join_bytes sep pos xs)"
    and room: "length (join_bytes sep pos xs) \<le> SAFE_SIZE"
  shows "strlist_join sl sep pos = Ok (join_with sep (map (join_piece pos) xs))"
proof -
  let ?all = "join_bytes sep pos xs"
  let ?out = "join_with sep (map (join_piece pos) xs)"
  obtain p cap where run: "join_loop xs sep pos None 0 0 = Ok (p, length ?all, cap)"
      and j: "joined_so_far p (length ?all) cap ?all"
    using join_loop_correct [of None 0 0 "[]" xs pos sep] ok(1) ne(2) room
    by (auto simp: joined_so_far_def)
  have all: "?all = ?out @ sep"
    using join_bytes_join_with [OF ne(1)] by simp
  then have last: "sz_sub (length ?all) (length sep) = length ?out"
    using room by (simp add: size_bounds)
  obtain b where b: "p = Some b" "length ?all \<le> length b" "take (length ?all) b = map Some ?all"
    using j all ne(2) by (auto simp: joined_so_far_def split: option.splits)
  have fit: "length ?out + length [NUL] \<le> length b"
    using b(2) all ne(2) by (cases sep) auto
  have tk: "take (length ?out) b = map Some ?out"
    using b(3) all by (metis append_eq_conv_conj length_append map_append take_add take_map
        append_take_drop_id length_map take_all_iff le_add1 min.absorb1 take_take)
  let ?b = "map Some (?out @ [NUL]) @ drop (length ?out + length [NUL]) b"
  have w: "mem_write b (length ?out) [NUL] = Ok ?b"
    by (rule mem_write_prefix [OF tk fit])
  have r: "mem_read ?b 0 (length ?out + 1) = Ok (?out @ [NUL])"
    by (rule mem_read_prefix) (use fit in simp_all)
  have "cstring ?out"
    using ok(2) all by simp
  then show ?thesis
    using live_elems_rep [OF rep] run b(1) last w r
    by (simp add: strlist_join_def Let_def)
qed

lemma strlist_split_fields:
  assumes "dupstr sl" "strlist_rep sl []" "delim \<noteq> NUL" "Suc (length s) \<le> SAFE_SIZE"
  shows "\<exists>sl'. strlist_split sl s delim (-1) = Ok (length (split_on delim s), sl')
    \<and> strlist_rep sl' (map plain (split_on delim s)) \<and> dupstr sl'"
  using strlist_split_loop_rep [of sl "[]" s delim "-1" 0, OF assms(2) _ assms(3) _ refl] assms
  by (auto simp: strlist_split_def split_spec_def)

text \<open>
  C21. Splitting a string at every occurrence of a delimiter and joining the fields with
  that delimiter gives the string back: strlist_split and strlist_join return normally and
  the joined string is the original one.
\<close>

theorem strlist_split_join_roundtrip:
  assumes "dupstr sl" "strlist_rep sl []" "cstring s" "delim \<noteq> NUL" "Suc (length s) \<le> SAFE_SIZE"
  shows "\<exists>n sl'. strlist_split sl s delim (-1) = Ok (n, sl')
    \<and> strlist_join sl' [delim] EXT_JOIN_NONE = Ok s"
proof -
  obtain sl' where sp: "strlist_split sl s delim (-1) = Ok (length (split_on delim s), sl')"
      "strlist_rep sl' (map plain (split_on delim s))"
    using strlist_split_fields [OF assms(1,2,4,5)] by auto
  have bytes: "join_bytes [delim] EXT_JOIN_NONE (map plain (split_on delim s)) = s @ [delim]"
    by (simp add: join_bytes_join_with join_piece_def comp_def join_split)
  have "strlist_join sl' [delim] EXT_JOIN_NONE
      = Ok (join_with [delim] (map (join_piece EXT_JOIN_NONE) (map plain (split_on delim s))))"
    by (rule strlist_join_correct [OF sp(2)]) (use assms bytes in \<open>simp_all add: ext_ok_def\<close>)
  then show ?thesis
    using sp(1) by (simp add: join_piece_def comp_def join_split)
qed

theorem strlist_split_join_roundtrip_witness:
  "\<exists>n sl'. strlist_split STRLIST_INIT_DUPSTR '',a,,b'' (CHR '','') (-1) = Ok (n, sl')
    \<and> strlist_join sl' '','' EXT_JOIN_NONE = Ok '',a,,b''"
  by (rule strlist_split_join_roundtrip)
     (simp_all add: size_bounds STRLIST_INIT_DUPSTR_def strlist_rep_def)

text \<open>strlist_destroy and strlist_trunc release every owned string exactly once, last first.\<close>

lemma erase_down_rep:
  assumes "strlist_rep sl xs" "n \<le> length xs"
  shows "erase_down sl n rmext
    = Ok (concat (map (elem_freed (dupstr sl) rmext) (rev (take n xs))))"
  using assms(2)
proof (induction n)
  case (Suc n)
  then show ?case
    using elem_at_rep [OF assms(1), of n]
    by (simp add: strlist_erase_at_def elem_freed_def take_Suc_conv_app_nth)
qed simp

lemma strlist_trunc_rep:
  assumes "strlist_rep sl xs"
  shows "\<exists>sl'. strlist_trunc sl rmext = Ok (concat (map (elem_freed (dupstr sl) rmext) (rev xs)), sl')
       \<and> strlist_rep sl' [] \<and> elvec sl' = elvec sl \<and> dupstr sl' = dupstr sl"
  using erase_down_rep [OF assms, of "length xs" rmext] strlist_rep_size [OF assms] assms
  by (auto simp: strlist_trunc_def strlist_rep_def split: elem_array.splits)

lemma strlist_destroy_rep:
  assumes "strlist_rep sl xs"
  shows "\<exists>sl'. strlist_destroy sl rmext = Ok (concat (map (elem_freed (dupstr sl) rmext) (rev xs)), sl')
       \<and> sl_size sl' = 0 \<and> sl_capacity sl' = 0"
  using erase_down_rep [OF assms, of "length xs" rmext] strlist_rep_size [OF assms]
  by (auto simp: strlist_destroy_def)

text \<open>The array of strlist_to_array ends with NULL, whatever part was asked for.\<close>

lemma strlist_to_array_rep:
  assumes "strlist_rep sl xs" "length xs < SAFE_SIZE"
  shows "strlist_to_array_routine sl n
    = Ok (map (Some \<circ> el_str) (if n = 0 then xs else take n xs) @ [None])"
proof -
  define m where "m = (if n = 0 \<or> n > length xs then length xs else n)"
  have le: "m \<le> length xs" by (simp add: m_def)
  then have "st_mult (sz_wrap (m + 1)) 8 = Ok ((m + 1) * 8)"
    using assms(2) by (simp add: st_mult_exact size_bounds)
  moreover have "(xmalloc ((m + 1) * 8) :: char block res) = Ok (replicate ((m + 1) * 8) None)"
    using assms(2) le by (simp add: xmalloc_def size_bounds)
  ultimately have "strlist_to_array_routine sl n = Ok (map (Some \<circ> el_str) (take m xs) @ [None])"
    unfolding strlist_to_array_routine_def strlist_rep_size [OF assms(1)]
      live_elems_rep [OF assms(1)] m_def [symmetric] Let_def bind_res.simps
    by (simp add: comp_def)
  then show ?thesis by (auto simp: m_def)
qed

text \<open>Pushing several words.\<close>

lemma push_names_rep:
  assumes "strlist_rep sl xs" "length xs + length names < SAFE_SIZE"
  shows "\<exists>sl'. fold_res push_name sl names = Ok sl' \<and> strlist_rep sl' (xs @ map plain names)"
  using assms
proof (induction names arbitrary: sl xs)
  case (Cons n names)
  obtain sl' where "strlist_push sl n = Ok (length xs, sl')" "strlist_rep sl' (xs @ [plain n])"
    by (rule strlist_push_rep [OF Cons.prems(1)]) (use Cons.prems(2) in auto)
  then show ?case
    using Cons.IH [of sl' "xs @ [plain n]"] Cons.prems(2) by (auto simp: push_name_def)
qed simp

end
