(* ===== verification/Msort.thy ===== *)
theory Msort
  imports Helper "HOL-Library.Multiset"
begin

text \<open>
  \<^verbatim>\<open>src/src/sort.c\<close>: the merge sort behind MSORT.  An array is a memory block; the
  two runs being merged are given by the index of their first element and a count, as the
  pointers and counters of the source.  The functional reference is the stable sort of the
  library.
\<close>

section \<open>The code\<close>

text \<open>
  The merging loop: \<open>al\<close>, \<open>ar\<close> index the array, \<open>k\<close> is the offset of
  \<open>buf\<close> in \<open>buf0\<close>.
\<close>

function merge_loop ::
    "('a \<Rightarrow> 'a \<Rightarrow> int) \<Rightarrow> 'a block \<Rightarrow> nat \<Rightarrow> size_t \<Rightarrow> nat \<Rightarrow> size_t \<Rightarrow> 'a block \<Rightarrow> nat
       \<Rightarrow> (nat \<times> size_t \<times> nat \<times> size_t \<times> 'a block \<times> nat) res" where
  "merge_loop compar arr al nl ar nr buf0 k =
     (if nl > 0 \<and> nr > 0
      then bind_res (mem_read arr al 1) (\<lambda>l.
           bind_res (mem_read arr ar 1) (\<lambda>r.
             if compar (hd l) (hd r) > 0
             then bind_res (mem_write buf0 k r) (\<lambda>buf0.
                    merge_loop compar arr al nl (ar + 1) (nr - 1) buf0 (k + 1))
             else bind_res (mem_write buf0 k l) (\<lambda>buf0.
                    merge_loop compar arr (al + 1) (nl - 1) ar nr buf0 (k + 1))))
      else Ok (al, nl, ar, nr, buf0, k))"
  by pat_completeness auto
termination
  by (relation "measure (\<lambda>(compar, arr, al, nl, ar, nr, buf0, k). nl + nr)") auto

declare merge_loop.simps [simp del]

text \<open>
  \<open>off\<close> is the index of \<^verbatim>\<open>array\<close> in the whole block; the result holds the new
  contents of the block and of \<^verbatim>\<open>buf0\<close>.
\<close>

function merge_sort_next ::
    "('a \<Rightarrow> 'a \<Rightarrow> int) \<Rightarrow> 'a block \<Rightarrow> nat \<Rightarrow> size_t \<Rightarrow> 'a block \<Rightarrow> ('a block \<times> 'a block) res" where
  "merge_sort_next compar arr off nmemb buf0 =
     (if nmemb \<le> 1 then Ok (arr, buf0)
      else
        let nl = nmemb div 2;
            nr = nmemb - nl;
            al = off;
            ar = off + nl
        in bind_res (merge_sort_next compar arr al nl buf0) (\<lambda>(arr, buf0).
           bind_res (merge_sort_next compar arr ar nr buf0) (\<lambda>(arr, buf0).
           bind_res (merge_loop compar arr al nl ar nr buf0 0) (\<lambda>(al, nl, ar, nr, buf0, k).
           bind_res (if nl > 0 then bind_res (mem_read arr al nl) (mem_write buf0 k) else Ok buf0) (\<lambda>buf0.
           bind_res (mem_read buf0 0 (nmemb - nr)) (\<lambda>sorted.
           bind_res (mem_write arr off sorted) (\<lambda>arr. Ok (arr, buf0))))))))"
  by pat_completeness auto
termination
  by (relation "measure (\<lambda>(compar, arr, off, nmemb, buf0). nmemb)") auto

declare merge_sort_next.simps [simp del]

definition merge_sort :: "nat \<Rightarrow> ('a \<Rightarrow> 'a \<Rightarrow> int) \<Rightarrow> 'a block \<Rightarrow> size_t \<Rightarrow> 'a block res" where
  "merge_sort esz compar arr nmemb =
     bind_res (st_mult nmemb esz) (\<lambda>bytes.
       if ALLOC_MAX < bytes then Halt (Die ''out of memory, malloc failed'')
       else bind_res (merge_sort_next compar arr 0 nmemb (replicate nmemb None)) (\<lambda>(arr, buf0).
              Ok arr))"

section \<open>Merging sorted lists\<close>

text \<open>
  The reference merge takes from the right run only when its head is strictly smaller,
  which is what makes the sort stable.
\<close>

fun merge :: "('a \<Rightarrow> 'k::linorder) \<Rightarrow> 'a list \<Rightarrow> 'a list \<Rightarrow> 'a list" where
  "merge key [] ys = ys"
| "merge key xs [] = xs"
| "merge key (x # xs) (y # ys) =
     (if key y < key x then y # merge key (x # xs) ys else x # merge key xs (y # ys))"

lemma merge_Nil2 [simp]: "merge key xs [] = xs"
  by (cases xs) auto

lemma length_merge [simp]: "length (merge key xs ys) = length xs + length ys"
  by (induction key xs ys rule: merge.induct) auto

lemma mset_merge [simp]: "mset (merge key xs ys) = mset xs + mset ys"
  by (induction key xs ys rule: merge.induct) auto

lemma set_merge [simp]: "set (merge key xs ys) = set xs \<union> set ys"
  by (metis mset_merge set_mset_mset set_mset_union)

lemma sorted_merge:
  "sorted (map key xs) \<Longrightarrow> sorted (map key ys) \<Longrightarrow> sorted (map key (merge key xs ys))"
  by (induction key xs ys rule: merge.induct) (auto intro: order_trans less_imp_le)

lemma filter_merge:
  assumes "sorted (map key xs)" "sorted (map key ys)"
  shows "filter (\<lambda>z. key z = k) (merge key xs ys)
       = filter (\<lambda>z. key z = k) xs @ filter (\<lambda>z. key z = k) ys"
  using assms
proof (induction key xs ys rule: merge.induct)
  case (3 key x xs y ys)
  have "filter (\<lambda>z. key z = k) xs = []" if "key y < key x" "key y = k"
    using 3(3) that by (auto simp: filter_empty_conv)
  with 3 show ?case by auto
qed auto

lemma merge_sort_key:
  "merge key (sort_key key xs) (sort_key key ys) = sort_key key (xs @ ys)"
proof (rule properties_for_sort_key [symmetric])
  fix k
  have "filter (\<lambda>z. key z = key k) (merge key (sort_key key xs) (sort_key key ys))
      = filter (\<lambda>z. key z = key k) (xs @ ys)"
    by (simp add: filter_merge sort_key_stable)
  then show "filter (\<lambda>x. key k = key x) (merge key (sort_key key xs) (sort_key key ys))
      = filter (\<lambda>x. key k = key x) (xs @ ys)"
    by (simp only: eq_commute)
qed (simp_all add: sorted_merge)

section \<open>The code computes the stable sort\<close>

definition compar_by :: "('a \<Rightarrow> 'k::linorder) \<Rightarrow> ('a \<Rightarrow> 'a \<Rightarrow> int) \<Rightarrow> 'a set \<Rightarrow> bool" where
  "compar_by key compar A \<longleftrightarrow> (\<forall>x\<in>A. \<forall>y\<in>A. 0 < compar x y \<longleftrightarrow> key y < key x)"

lemma compar_by_subset: "compar_by key compar A \<Longrightarrow> B \<subseteq> A \<Longrightarrow> compar_by key compar B"
  by (auto simp: compar_by_def)

text \<open>
  The state of the merging loop over a block: the left run starts at \<open>al\<close>, the right
  one at \<open>ar\<close>, and \<open>buf0\<close> starts with what was merged.
\<close>

definition run_at :: "'a block \<Rightarrow> nat \<Rightarrow> 'a list \<Rightarrow> bool" where
  "run_at arr i xs \<longleftrightarrow>
     i + length xs \<le> length arr \<and> take (length xs) (drop i arr) = map Some xs"

lemma run_at_read: "run_at arr i xs \<Longrightarrow> mem_read arr i (length xs) = Ok xs"
  by (auto simp: run_at_def mem_read_def comp_def)

lemma run_at_Cons:
  assumes "run_at arr i (x # xs)"
  shows "mem_read arr i 1 = Ok [x]" "run_at arr (Suc i) xs"
proof -
  have i: "i < length arr" "i + Suc (length xs) \<le> length arr"
    and t: "take (Suc (length xs)) (drop i arr) = Some x # map Some xs"
    using assms by (auto simp: run_at_def)
  from i(1) have "drop i arr = arr ! i # drop (Suc i) arr"
    by (simp add: Cons_nth_drop_Suc)
  with t i show "mem_read arr i 1 = Ok [x]" "run_at arr (Suc i) xs"
    by (auto simp: run_at_def mem_read_def)
qed

lemma run_at_Nil [simp]: "run_at arr i [] \<longleftrightarrow> i \<le> length arr"
  by (simp add: run_at_def)

lemma run_at_append:
  "run_at arr i (xs @ ys) \<longleftrightarrow> run_at arr i xs \<and> run_at arr (i + length xs) ys"
  by (auto simp: run_at_def take_add add.commute add.left_commute append_eq_append_conv)

lemma mem_write_segment:
  "arr = pre @ old @ post \<Longrightarrow> length xs = length old
   \<Longrightarrow> mem_write arr (length pre) xs = Ok (pre @ map Some xs @ post)"
  by (simp add: mem_write_def)

lemma buf_append:
  assumes "run_at buf 0 acc" "length acc + length xs \<le> length buf"
  obtains buf' where "mem_write buf (length acc) xs = Ok buf'" "run_at buf' 0 (acc @ xs)"
    "length buf' = length buf"
proof -
  have "take (length acc) buf = map Some acc"
    using assms(1) by (auto simp: run_at_def)
  then have w: "mem_write buf (length acc) xs
      = Ok (map Some (acc @ xs) @ drop (length acc + length xs) buf)"
    by (rule mem_write_prefix) (rule assms(2))
  show thesis
    by (rule that [OF w]) (use assms(2) in \<open>auto simp: run_at_def\<close>)
qed

text \<open>
  What the loop leaves: \<open>us\<close>, the first part of the merge, is in \<^verbatim>\<open>buf0\<close>;
  the rest of one run is what remains.
\<close>

definition merge_done ::
    "('a \<Rightarrow> 'k::linorder) \<Rightarrow> 'a block \<Rightarrow> 'a list \<Rightarrow> 'a list \<Rightarrow> nat \<Rightarrow> 'a list
       \<Rightarrow> (nat \<times> size_t \<times> nat \<times> size_t \<times> 'a block \<times> nat) res \<Rightarrow> bool" where
  "merge_done key arr xs ys blen acc r \<longleftrightarrow>
     (\<exists>us al' xs' ar' qs ys' buf'.
        r = Ok (al', length xs', ar', length ys', buf', length (acc @ us))
      \<and> run_at arr al' xs' \<and> ys = qs @ ys' \<and> run_at buf' 0 (acc @ us) \<and> length buf' = blen
      \<and> merge key xs ys = us @ xs' @ ys')"

lemma merge_doneI:
  assumes "r = Ok (al', length xs', ar', length ys', buf', length (acc @ us))"
    "run_at arr al' xs'" "ys = qs @ ys'" "run_at buf' 0 (acc @ us)" "length buf' = blen"
    "merge key xs ys = us @ xs' @ ys'"
  shows "merge_done key arr xs ys blen acc r"
  using assms unfolding merge_done_def by blast

lemma merge_doneE:
  assumes "merge_done key arr xs ys blen acc r"
  obtains us al' xs' ar' qs ys' buf' where
      "r = Ok (al', length xs', ar', length ys', buf', length (acc @ us))"
      "run_at arr al' xs'" "ys = qs @ ys'" "run_at buf' 0 (acc @ us)" "length buf' = blen"
      "merge key xs ys = us @ xs' @ ys'"
  using assms unfolding merge_done_def by blast

lemma merge_done_right:
  assumes "key y < key x" "merge_done key arr (x # xs) ys blen (acc @ [y]) r"
  shows "merge_done key arr (x # xs) (y # ys) blen acc r"
  using assms(2)
proof (rule merge_doneE)
  fix us al' xs' ar' qs ys' buf'
  assume "r = Ok (al', length xs', ar', length ys', buf', length ((acc @ [y]) @ us))"
      "run_at arr al' xs'" "ys = qs @ ys'" "run_at buf' 0 ((acc @ [y]) @ us)" "length buf' = blen"
      "merge key (x # xs) ys = us @ xs' @ ys'"
  with assms(1) show ?thesis
    by (intro merge_doneI [where us = "y # us" and qs = "y # qs" and xs' = xs' and ys' = ys'
          and buf' = buf' and al' = al' and ar' = ar']) simp_all
qed

lemma merge_done_left:
  assumes "\<not> key y < key x" "merge_done key arr xs (y # ys) blen (acc @ [x]) r"
  shows "merge_done key arr (x # xs) (y # ys) blen acc r"
  using assms(2)
proof (rule merge_doneE)
  fix us al' xs' ar' qs ys' buf'
  assume "r = Ok (al', length xs', ar', length ys', buf', length ((acc @ [x]) @ us))"
      "run_at arr al' xs'" "y # ys = qs @ ys'" "run_at buf' 0 ((acc @ [x]) @ us)" "length buf' = blen"
      "merge key xs (y # ys) = us @ xs' @ ys'"
  moreover from this(6) assms(1) have "merge key (x # xs) (y # ys) = (x # us) @ xs' @ ys'" by simp
  ultimately show ?thesis
    by (intro merge_doneI [where us = "x # us" and qs = qs and xs' = xs' and ys' = ys'
          and buf' = buf' and al' = al' and ar' = ar']) (simp_all only: length_append append_assoc append_Cons append_Nil list.size)
qed

lemma merge_done_stop:
  assumes "xs = [] \<or> ys = []" "run_at arr al xs" "run_at buf0 0 acc"
  shows "merge_done key arr xs ys (length buf0) acc
           (Ok (al, length xs, ar, length ys, buf0, length acc))"
  by (rule merge_doneI [where us = "[]" and qs = "[]" and xs' = xs and ys' = ys]) (use assms in auto)

lemma merge_loop_correct:
  assumes "run_at arr al xs" "run_at arr ar ys" "run_at buf0 0 acc"
    "length acc + length xs + length ys \<le> length buf0" "compar_by key compar (set xs \<union> set ys)"
  shows "merge_done key arr xs ys (length buf0) acc
           (merge_loop compar arr al (length xs) ar (length ys) buf0 (length acc))"
  using assms
proof (induction "length xs + length ys" arbitrary: al xs ar ys buf0 acc)
  case 0
  then show ?case
    using merge_done_stop [of xs ys arr al buf0 acc key ar] by (simp add: merge_loop.simps)
next
  case (Suc n)
  show ?case
  proof (cases "xs = [] \<or> ys = []")
    case True
    then have "merge_loop compar arr al (length xs) ar (length ys) buf0 (length acc)
        = Ok (al, length xs, ar, length ys, buf0, length acc)"
      by (subst merge_loop.simps) auto
    then show ?thesis
      using merge_done_stop [OF True] Suc.prems(1,3) by simp
  next
    case False
    then obtain x xt y yt where xy: "xs = x # xt" "ys = y # yt"
      by (auto simp: neq_Nil_conv)
    have cmp: "0 < compar x y \<longleftrightarrow> key y < key x"
      using Suc.prems(5) xy by (auto simp: compar_by_def)
    note rd = run_at_Cons [OF Suc.prems(1) [unfolded xy]] run_at_Cons [OF Suc.prems(2) [unfolded xy]]
    obtain buf1 where w: "mem_write buf0 (length acc) [if key y < key x then y else x] = Ok buf1"
        "run_at buf1 0 (acc @ [if key y < key x then y else x])" "length buf1 = length buf0"
      by (rule buf_append [OF Suc.prems(3)]) (use Suc.prems(4) xy in auto)
    show ?thesis
    proof (cases "key y < key x")
      case True
      then have "merge_loop compar arr al (length xs) ar (length ys) buf0 (length acc)
          = merge_loop compar arr al (length xs) (Suc ar) (length yt) buf1 (length (acc @ [y]))"
        using rd(1,3) cmp w(1) xy by (subst merge_loop.simps) simp
      moreover have "merge_done key arr xs yt (length buf1) (acc @ [y])
          (merge_loop compar arr al (length xs) (Suc ar) (length yt) buf1 (length (acc @ [y])))"
        using Suc.hyps(2) Suc.prems rd(4) w True xy
        by (intro Suc.hyps(1)) (auto intro: compar_by_subset)
      ultimately show ?thesis
        using True w(3) xy by (simp add: merge_done_right)
    next
      case False
      then have "merge_loop compar arr al (length xs) ar (length ys) buf0 (length acc)
          = merge_loop compar arr (Suc al) (length xt) ar (length ys) buf1 (length (acc @ [x]))"
        using rd(1,3) cmp w(1) xy by (subst merge_loop.simps) simp
      moreover have "merge_done key arr xt ys (length buf1) (acc @ [x])
          (merge_loop compar arr (Suc al) (length xt) ar (length ys) buf1 (length (acc @ [x])))"
        using Suc.hyps(2) Suc.prems rd(2) w False xy
        by (intro Suc.hyps(1)) (auto intro: compar_by_subset)
      ultimately show ?thesis
        using False w(3) xy by (simp add: merge_done_left)
    qed
  qed
qed

text \<open>One level of the recursion: two sorted halves become the sorted whole.\<close>

lemma merge_back:
  assumes arr: "arr = pre @ map Some (xs @ ys) @ post"
    and buf: "length xs + length ys \<le> length buf0"
    and cmp: "compar_by key compar (set xs \<union> set ys)"
  shows "\<exists>buf'. length buf' = length buf0 \<and>
    bind_res (merge_loop compar arr (length pre) (length xs) (length pre + length xs) (length ys) buf0 0)
      (\<lambda>(al, nl, ar, nr, buf0, k).
         bind_res (if nl > 0 then bind_res (mem_read arr al nl) (mem_write buf0 k) else Ok buf0) (\<lambda>buf0.
         bind_res (mem_read buf0 0 (length xs + length ys - nr)) (\<lambda>sorted.
         bind_res (mem_write arr (length pre) sorted) (\<lambda>arr. Ok (arr, buf0)))))
    = Ok (pre @ map Some (merge key xs ys) @ post, buf')"
proof -
  have rx: "run_at arr (length pre) xs" and ry: "run_at arr (length pre + length xs) ys"
    using arr by (auto simp: run_at_def)
  obtain us al' xs' ar' qs ys' buf1 where m: "merge_loop compar arr (length pre) (length xs)
        (length pre + length xs) (length ys) buf0 0
      = Ok (al', length xs', ar', length ys', buf1, length us)"
    "run_at arr al' xs'" "ys = qs @ ys'" "run_at buf1 0 us" "length buf1 = length buf0"
    "merge key xs ys = us @ xs' @ ys'"
    using merge_loop_correct [OF rx ry, of buf0 "[]" key compar] buf cmp
    by (auto simp: merge_done_def)
  have total: "length us + length xs' + length ys' = length xs + length ys"
    using arg_cong [OF m(6), of length] by simp
  obtain buf2 where b2: "mem_write buf1 (length us) xs' = Ok buf2" "run_at buf2 0 (us @ xs')"
      "length buf2 = length buf1"
  proof (rule buf_append [OF m(4)])
    show "length us + length xs' \<le> length buf1"
      using m(5) total buf by linarith
  qed
  have tail: "(if length xs' > 0
       then bind_res (mem_read arr al' (length xs')) (mem_write buf1 (length us)) else Ok buf1) = Ok buf2"
    using run_at_read [OF m(2)] b2(1) m(4) by (cases "xs' = []") (auto simp: run_at_def mem_simps)
  have n: "length xs + length ys - length ys' = length (us @ xs')"
    using total by simp
  have sorted: "mem_read buf2 0 (length xs + length ys - length ys') = Ok (us @ xs')"
    unfolding n by (rule run_at_read) (rule b2(2))
  have "arr = pre @ map Some (xs @ qs) @ (map Some ys' @ post)"
    using arr m(3) by simp
  then have written: "mem_write arr (length pre) (us @ xs')
      = Ok (pre @ map Some (us @ xs') @ (map Some ys' @ post))"
    by (rule mem_write_segment) (use total m(3) in simp)
  show ?thesis
    unfolding m(1) bind_res.simps prod.case tail sorted written
    using b2(3) m(5,6) by auto
qed

lemma merge_sort_next_correct:
  assumes "compar_by key compar (set xs)" "length xs \<le> length buf0"
  shows "\<exists>buf'. length buf' = length buf0 \<and>
    merge_sort_next compar (pre @ map Some xs @ post) (length pre) (length xs) buf0
    = Ok (pre @ map Some (sort_key key xs) @ post, buf')"
  using assms
proof (induction "length xs" arbitrary: xs pre post buf0 rule: less_induct)
  case less
  show ?case
  proof (cases "length xs \<le> 1")
    case True
    then have "sort_key key xs = xs" by (cases xs) auto
    with True show ?thesis by (simp add: merge_sort_next.simps)
  next
    case False
    define nl where "nl = length xs div 2"
    define ls where "ls = take nl xs"
    define rs where "rs = drop nl xs"
    have len: "length ls = nl" "length rs = length xs - nl" "nl < length xs" "length xs - nl < length xs"
      using False by (auto simp: ls_def rs_def nl_def)
    have xs: "xs = ls @ rs" by (simp add: ls_def rs_def)
    have sub: "compar_by key compar (set ls)" "compar_by key compar (set rs)"
      using less.prems(1) by (rule compar_by_subset, simp add: xs)+
    have "length ls < length xs" "length ls \<le> length buf0"
      using len less.prems(2) by simp_all
    from less.hyps [OF this(1) sub(1) this(2), of pre "map Some rs @ post"]
    obtain buf1 where l: "length buf1 = length buf0"
        "merge_sort_next compar (pre @ map Some ls @ (map Some rs @ post)) (length pre) (length ls) buf0
         = Ok (pre @ map Some (sort_key key ls) @ (map Some rs @ post), buf1)"
      by blast
    have "length rs < length xs" "length rs \<le> length buf1"
      using len less.prems(2) l(1) False by (simp_all add: nl_def)
    from less.hyps [OF this(1) sub(2) this(2), of "pre @ map Some (sort_key key ls)" post]
    obtain buf2 where r: "length buf2 = length buf1"
        "merge_sort_next compar ((pre @ map Some (sort_key key ls)) @ map Some rs @ post)
           (length (pre @ map Some (sort_key key ls))) (length rs) buf1
         = Ok ((pre @ map Some (sort_key key ls)) @ map Some (sort_key key rs) @ post, buf2)"
      by blast
    let ?arr = "pre @ map Some (sort_key key ls) @ map Some (sort_key key rs) @ post"
    have whole: "?arr = pre @ map Some (sort_key key ls @ sort_key key rs) @ post"
      by simp
    have fit: "length (sort_key key ls) + length (sort_key key rs) \<le> length buf2"
      using less.prems(2) len l(1) r(1) by simp
    have cmp: "compar_by key compar (set (sort_key key ls) \<union> set (sort_key key rs))"
      using less.prems(1) xs by simp
    obtain buf3 where m: "length buf3 = length buf2"
        "bind_res (merge_loop compar ?arr (length pre) (length (sort_key key ls))
            (length pre + length (sort_key key ls)) (length (sort_key key rs)) buf2 0)
          (\<lambda>(al, nl, ar, nr, buf0, k).
             bind_res (if nl > 0 then bind_res (mem_read ?arr al nl) (mem_write buf0 k) else Ok buf0) (\<lambda>buf0.
             bind_res (mem_read buf0 0 (length (sort_key key ls) + length (sort_key key rs) - nr)) (\<lambda>sorted.
             bind_res (mem_write ?arr (length pre) sorted) (\<lambda>arr. Ok (arr, buf0)))))
        = Ok (pre @ map Some (merge key (sort_key key ls) (sort_key key rs)) @ post, buf3)"
      using merge_back [OF whole fit cmp] by blast
    have start: "pre @ map Some xs @ post = pre @ map Some ls @ (map Some rs @ post)"
      by (simp add: xs)
    have "merge_sort_next compar (pre @ map Some xs @ post) (length pre) (length xs) buf0
        = bind_res (merge_sort_next compar (pre @ map Some xs @ post) (length pre) (length ls) buf0) (\<lambda>(arr, buf0).
          bind_res (merge_sort_next compar arr (length pre + length ls) (length rs) buf0) (\<lambda>(arr, buf0).
          bind_res (merge_loop compar arr (length pre) (length ls) (length pre + length ls) (length rs) buf0 0) (\<lambda>(al, nl, ar, nr, buf0, k).
          bind_res (if nl > 0 then bind_res (mem_read arr al nl) (mem_write buf0 k) else Ok buf0) (\<lambda>buf0.
          bind_res (mem_read buf0 0 (length ls + length rs - nr)) (\<lambda>sorted.
          bind_res (mem_write arr (length pre) sorted) (\<lambda>arr. Ok (arr, buf0)))))))"
      using False len by (subst merge_sort_next.simps) (simp add: Let_def nl_def)
    also have "\<dots> = Ok (pre @ map Some (merge key (sort_key key ls) (sort_key key rs)) @ post, buf3)"
      unfolding start l(2) bind_res.simps prod.case
      using r(2) m(2) by (simp add: append_assoc)
    finally show ?thesis
      using l(1) r(1) m(1) by (auto simp: merge_sort_key xs)
  qed
qed

lemma merge_sort_sorts:
  assumes "compar_by key compar (set xs)" "xs \<noteq> []" "length xs * esz \<le> ALLOC_MAX"
  shows "merge_sort esz compar (map Some xs @ rest) (length xs)
       = Ok (map Some (sort_key key xs) @ rest)"
proof -
  have "st_mult (length xs) esz = Ok (length xs * esz)"
    by (rule st_mult_exact) (use assms(2,3) in \<open>auto simp: size_bounds\<close>)
  then show ?thesis
    using merge_sort_next_correct [OF assms(1), of "replicate (length xs) None" "[]" rest] assms(3)
    by (auto simp: merge_sort_def)
qed

section \<open>The interface\<close>

text \<open>
  What the callers of MSORT rely on: the first \<open>n\<close> cells become the stably sorted
  elements.  A caller that wants the elements with the least key finds them at the front,
  in their original order.
\<close>

locale keyed_sort =
  fixes sorter :: "('a \<Rightarrow> 'a \<Rightarrow> int) \<Rightarrow> 'a block \<Rightarrow> size_t \<Rightarrow> 'a block res"
    and fits :: "nat \<Rightarrow> bool"
  assumes sorts: "compar_by (key :: 'a \<Rightarrow> int) compar (set xs) \<Longrightarrow> xs \<noteq> [] \<Longrightarrow> fits (length xs)
    \<Longrightarrow> sorter compar (map Some xs @ rest) (length xs) = Ok (map Some (sort_key key xs) @ rest)"
begin

lemma sorted_block:
  assumes "compar_by (key :: 'a \<Rightarrow> int) compar (set xs)" "xs \<noteq> []" "fits (length xs)"
    "take (length xs) b = map Some xs" "length xs \<le> length b"
  shows "sorter compar b (length xs) = Ok (map Some (sort_key key xs) @ drop (length xs) b)"
  using sorts [OF assms(1-3), of "drop (length xs) b"] append_take_drop_id [of "length xs" b] assms(4)
  by simp

end

interpretation ms: keyed_sort "merge_sort esz" "\<lambda>n. n * esz \<le> ALLOC_MAX" for esz
  by unfold_locales (rule merge_sort_sorts)

lemma takeWhile_least:
  assumes "sorted (map (key :: 'a \<Rightarrow> 'k::linorder) xs)" "\<forall>x\<in>set xs. k \<le> key x"
  shows "takeWhile (\<lambda>x. key x = k) xs = filter (\<lambda>x. key x = k) xs"
  using assms
proof (induction xs)
  case (Cons x xs)
  show ?case
  proof (cases "key x = k")
    case False
    then have "\<forall>y\<in>set (x # xs). key y \<noteq> k"
      using Cons.prems by fastforce
    then show ?thesis using False by (simp add: filter_empty_conv)
  qed (use Cons in auto)
qed simp

lemma hd_sort_key: "xs \<noteq> [] \<Longrightarrow> key (hd (sort_key key xs)) = Min (key ` set xs)"
proof -
  assume ne: "xs \<noteq> []"
  then obtain y ys where y: "sort_key key xs = y # ys"
    by (cases "sort_key key xs") (auto dest: arg_cong [of _ _ length])
  have "\<forall>z\<in>set xs. key y \<le> key z" "y \<in> set xs"
    using sorted_sort_key [of key xs] set_sort [of key xs] y by auto
  then show ?thesis using y by (auto intro!: Min_eqI [symmetric])
qed

lemma least_first:
  "takeWhile (\<lambda>x. key x = Min (key ` set xs)) (sort_key key xs) = filter (\<lambda>x. key x = Min (key ` set xs)) xs"
  using takeWhile_least [of key "sort_key key xs" "Min (key ` set xs)"] by (simp add: sort_key_stable)

text \<open>
  C17. MSORT of a non-empty array whose size computation does not overflow leaves the
  array stably sorted: the elements are ordered by the key the comparison function compares,
  and elements with equal keys keep their order; the rest of the block is untouched.
\<close>

theorem merge_sort_stable:
  assumes "compar_by key compar (set xs)" "xs \<noteq> []" "length xs * esz \<le> ALLOC_MAX"
  shows "merge_sort esz compar (map Some xs @ rest) (length xs)
       = Ok (map Some (sort_key key xs) @ rest)"
  using assms by (rule merge_sort_sorts)

theorem merge_sort_stable_witness:
  "merge_sort 16 (\<lambda>x y. fst x - fst y) (map Some [(3, ''c''), (1::int, ''x''), (3, ''a''), (1, ''b'')] @ [None])
     (Suc (Suc (Suc (Suc 0))))
   = Ok (map Some [(1, ''x''), (1, ''b''), (3, ''c''), (3, ''a'')] @ [None])"
  using merge_sort_stable [of fst "\<lambda>x y. fst x - fst y" "[(3, ''c''), (1::int, ''x''), (3, ''a''), (1, ''b'')]" 16 "[None]"]
  by (simp add: compar_by_def ALLOC_MAX_def)

text \<open>An empty array divides by zero in the overflow test of st_mult.\<close>

lemma merge_sort_empty: "merge_sort esz compar arr 0 = Halt (Undef ''division by zero'')"
  by (simp add: merge_sort_def st_mult_def)

end
