(* ===== verification/Levenshtein.thy ===== *)
theory Levenshtein
  imports Helper
begin

text \<open>
  \<^verbatim>\<open>src/src/levenshtein.c\<close>: the weighted edit distance, computed with three rows
  that rotate.  The cells are C ints: every sum is checked, a result outside the range of
  int is undefined behaviour.  The specification is the least cost of turning one string
  into the other by insertions, deletions, substitutions and transpositions of adjacent
  characters.
\<close>

section \<open>The code\<close>

definition int_range :: "int \<Rightarrow> bool" where
  "int_range z \<longleftrightarrow> - (2 ^ 31) \<le> z \<and> z < 2 ^ 31"

definition int_add :: "int \<Rightarrow> int \<Rightarrow> int res" where
  "int_add x y = (if int_range (x + y) then Ok (x + y) else Halt (Undef ''signed overflow''))"

text \<open>\<^verbatim>\<open>i * iw\<close> is computed in size_t and stored in an int.\<close>

definition size_mult_int :: "size_t \<Rightarrow> int \<Rightarrow> int" where
  "size_mult_int i w = signed_take_bit 31 (int i * w)"

definition cell_get :: "int block \<Rightarrow> nat \<Rightarrow> int res" where
  "cell_get row k = bind_res (mem_read row k 1) (\<lambda>xs. Ok (hd xs))"

definition cell_set :: "int block \<Rightarrow> nat \<Rightarrow> int \<Rightarrow> int block res" where
  "cell_set row k x = mem_write row k [x]"

record weights =
  iw :: int
  dw :: int
  sw :: int
  tw :: int

text \<open>One round of the inner loop: the cell \<^verbatim>\<open>v1[ii + 1]\<close>.\<close>

definition lev_cell ::
    "string \<Rightarrow> string \<Rightarrow> weights \<Rightarrow> nat \<Rightarrow> int block \<Rightarrow> int block \<Rightarrow> int block \<Rightarrow> nat \<Rightarrow> int block res" where
  "lev_cell s t w i v9 v0 v1 ii =
     bind_res (cell_get v0 ii) (\<lambda>sub.
     bind_res (if s ! i = t ! ii then Ok sub else int_add sub (sw w)) (\<lambda>cell.
     bind_res (if i > 0 \<and> ii > 0 \<and> s ! (i - 1) = t ! ii \<and> s ! i = t ! (ii - 1)
               then bind_res (cell_get v9 (ii - 1)) (\<lambda>x. bind_res (int_add x (tw w)) (\<lambda>swp.
                      Ok (if cell > swp then swp else cell)))
               else Ok cell) (\<lambda>cell.
     bind_res (cell_get v0 (ii + 1)) (\<lambda>x. bind_res (int_add x (dw w)) (\<lambda>del.
     let cell = (if cell > del then del else cell)
     in bind_res (cell_get v1 ii) (\<lambda>x. bind_res (int_add x (iw w)) (\<lambda>ins.
        let cell = (if cell > ins then ins else cell)
        in cell_set v1 (ii + 1) cell)))))))"

text \<open>One round of the outer loop, with the rotation of the rows.\<close>

definition lev_row ::
    "string \<Rightarrow> string \<Rightarrow> weights \<Rightarrow> int block \<times> int block \<times> int block \<Rightarrow> nat
       \<Rightarrow> (int block \<times> int block \<times> int block) res" where
  "lev_row s t w vs i =
     (case vs of (v9, v0, v1) \<Rightarrow>
        bind_res (cell_set v1 0 (size_mult_int (i + 1) (dw w))) (\<lambda>v1.
        bind_res (fold_res (lev_cell s t w i v9 v0) v1 [0 ..< length t]) (\<lambda>v1.
          Ok (v0, v1, v9))))"

definition lev_first_row :: "weights \<Rightarrow> int block \<Rightarrow> nat \<Rightarrow> int block res" where
  "lev_first_row w v0 i = cell_set v0 i (size_mult_int i (iw w))"

text \<open>The return converts an int to size_t.\<close>

definition levenshtein_w :: "string \<Rightarrow> string \<Rightarrow> weights \<Rightarrow> size_t res" where
  "levenshtein_w s t w =
     (let m = length s; n = length t
      in bind_res (malloc_array 4 (n + 1)) (\<lambda>v9.
         bind_res (malloc_array 4 (n + 1)) (\<lambda>v0.
         bind_res (malloc_array 4 (n + 1)) (\<lambda>v1.
         bind_res (fold_res (lev_first_row w) v0 [0 ..< n + 1]) (\<lambda>v0.
         bind_res (fold_res (lev_row s t w) (v9, v0, v1) [0 ..< m]) (\<lambda>(v9, v0, v1).
         bind_res (cell_get v0 n) (\<lambda>ret. Ok (nat (ret mod 2 ^ 64)))))))))"

definition levenshtein :: "string \<Rightarrow> string \<Rightarrow> size_t res" where
  "levenshtein s t = levenshtein_w s t \<lparr>iw = 1, dw = 1, sw = 1, tw = 1\<rparr>"

section \<open>The recurrence\<close>

definition swaps :: "string \<Rightarrow> string \<Rightarrow> nat \<Rightarrow> nat \<Rightarrow> bool" where
  "swaps s t i j \<longleftrightarrow> i > 0 \<and> j > 0 \<and> s ! (i - 1) = t ! j \<and> s ! i = t ! (j - 1)"

definition sub_cost :: "weights \<Rightarrow> string \<Rightarrow> string \<Rightarrow> nat \<Rightarrow> nat \<Rightarrow> int" where
  "sub_cost w s t i j = (if s ! i = t ! j then 0 else sw w)"

text \<open>\<open>osa w s t i j\<close>: the distance between the first \<open>i\<close> and the first \<open>j\<close> characters.\<close>

function osa :: "weights \<Rightarrow> string \<Rightarrow> string \<Rightarrow> nat \<Rightarrow> nat \<Rightarrow> int" where
  "osa w s t 0 j = int j * iw w"
| "osa w s t (Suc i) 0 = int (Suc i) * dw w"
| "osa w s t (Suc i) (Suc j) =
     min (min (min (osa w s t i j + sub_cost w s t i j)
                   (if swaps s t i j then osa w s t (i - 1) (j - 1) + tw w
                    else osa w s t i j + sub_cost w s t i j))
              (osa w s t i (Suc j) + dw w))
         (osa w s t (Suc i) j + iw w)"
  by pat_completeness simp_all
termination by (relation "measure (\<lambda>(w, s, t, i, j). i + j)") simp_all

definition nonneg :: "weights \<Rightarrow> bool" where
  "nonneg w \<longleftrightarrow> 0 \<le> iw w \<and> 0 \<le> dw w \<and> 0 \<le> sw w \<and> 0 \<le> tw w"

text \<open>Each edit bounds the next cell, and one of them gives its value.\<close>

lemmas osa_step = osa.simps(3)

declare osa.simps(3) [simp del]

lemma osa_le_subst: "osa w s t (Suc i) (Suc j) \<le> osa w s t i j + sub_cost w s t i j"
  unfolding osa_step by (simp add: min_le_iff_disj)

lemma osa_le_delete: "osa w s t (Suc i) j \<le> osa w s t i j + dw w"
proof (cases j)
  case 0
  then show ?thesis by (cases i) (simp_all add: algebra_simps)
next
  case (Suc j)
  then show ?thesis unfolding Suc osa_step by (simp add: min_le_iff_disj)
qed

lemma osa_le_insert: "osa w s t i (Suc j) \<le> osa w s t i j + iw w"
proof (cases i)
  case 0
  then show ?thesis by (simp add: algebra_simps)
next
  case (Suc i)
  then show ?thesis unfolding Suc osa_step by (simp add: min_le_iff_disj)
qed

lemma osa_le_swap:
  "swaps s t i j \<Longrightarrow> osa w s t (Suc i) (Suc j) \<le> osa w s t (i - 1) (j - 1) + tw w"
  unfolding osa_step by (simp add: min_le_iff_disj)

lemma osa_attained:
  obtains "osa w s t (Suc i) (Suc j) = osa w s t i j + sub_cost w s t i j"
  | "swaps s t i j" "osa w s t (Suc i) (Suc j) = osa w s t (i - 1) (j - 1) + tw w"
  | "osa w s t (Suc i) (Suc j) = osa w s t i (Suc j) + dw w"
  | "osa w s t (Suc i) (Suc j) = osa w s t (Suc i) j + iw w"
proof -
  have "osa w s t (Suc i) (Suc j) = osa w s t i j + sub_cost w s t i j
    \<or> swaps s t i j \<and> osa w s t (Suc i) (Suc j) = osa w s t (i - 1) (j - 1) + tw w
    \<or> osa w s t (Suc i) (Suc j) = osa w s t i (Suc j) + dw w
    \<or> osa w s t (Suc i) (Suc j) = osa w s t (Suc i) j + iw w"
    unfolding osa_step by (simp add: min_def)
  then show thesis using that by blast
qed

lemma osa_nonneg: "nonneg w \<Longrightarrow> 0 \<le> osa w s t i j"
proof (induction "i + j" arbitrary: i j rule: less_induct)
  case less
  show ?case
  proof (cases "i = 0 \<or> j = 0")
    case True
    then show ?thesis using less.prems by (cases i) (auto simp: nonneg_def)
  next
    case False
    then obtain i' j' where ij: "i = Suc i'" "j = Suc j'" by (auto simp: gr0_conv_Suc)
    have "0 \<le> osa w s t i' j'" "0 \<le> osa w s t (i' - 1) (j' - 1)" "0 \<le> osa w s t i' (Suc j')"
        "0 \<le> osa w s t (Suc i') j'"
      by (rule less.hyps; use ij less.prems in simp)+
    then show ?thesis
      using less.prems unfolding ij
      by (cases rule: osa_attained [of w s t i' j']) (auto simp: nonneg_def sub_cost_def)
  qed
qed

lemma osa_upper: "nonneg w \<Longrightarrow> osa w s t i j \<le> int i * dw w + int j * iw w"
proof (induction j arbitrary: i)
  case 0
  then show ?case by (cases i) auto
next
  case (Suc j)
  show ?case
    using Suc.IH [OF Suc.prems, of i] osa_le_insert [of w s t i j] by (simp add: algebra_simps)
qed

section \<open>Least cost\<close>

text \<open>
  Alignments: \<open>aligns w s t c\<close> when \<open>s\<close> can be turned into \<open>t\<close> at cost \<open>c\<close>.
  Insertions add characters of \<open>t\<close>, deletions drop characters of \<open>s\<close>.
\<close>

inductive aligns :: "weights \<Rightarrow> string \<Rightarrow> string \<Rightarrow> int \<Rightarrow> bool" for w where
  empty: "aligns w [] [] 0"
| keep: "aligns w s t c \<Longrightarrow> aligns w (s @ [a]) (t @ [a]) c"
| subst: "aligns w s t c \<Longrightarrow> aligns w (s @ [a]) (t @ [b]) (c + sw w)"
| insert: "aligns w s t c \<Longrightarrow> aligns w s (t @ [b]) (c + iw w)"
| delete: "aligns w s t c \<Longrightarrow> aligns w (s @ [a]) t (c + dw w)"
| swap: "aligns w s t c \<Longrightarrow> aligns w (s @ [a, b]) (t @ [b, a]) (c + tw w)"

text \<open>The recurrence only reads the characters before its indices.\<close>

lemma osa_prefix:
  "i \<le> length s \<Longrightarrow> j \<le> length t \<Longrightarrow> osa w (s @ s') (t @ t') i j = osa w s t i j"
proof (induction w s t i j rule: osa.induct)
  case (3 w s t i j)
  have ij: "i < length s" "j < length t" using "3.prems" by simp_all
  then have "i - Suc 0 < length s" "j - Suc 0 < length t" by simp_all
  with ij have sub: "sub_cost w (s @ s') (t @ t') i j = sub_cost w s t i j"
      "swaps (s @ s') (t @ t') i j = swaps s t i j"
    by (simp_all add: sub_cost_def swaps_def nth_append)
  have "osa w (s @ s') (t @ t') (i - 1) (j - 1) = osa w s t (i - 1) (j - 1)" if "swaps s t i j"
    using "3.IH"(2) that ij by (auto simp: swaps_def)
  then show ?case
    unfolding osa_step sub using "3.IH"(1,4,5) ij by simp
qed simp_all

lemma aligns_lower:
  assumes "nonneg w" "aligns w s t c"
  shows "osa w s t (length s) (length t) \<le> c"
  using assms(2)
proof induction
  case (keep s t c a)
  then show ?case
    using osa_le_subst [of w "s @ [a]" "t @ [a]" "length s" "length t"]
    by (simp add: osa_prefix sub_cost_def)
next
  case (subst s t c a b)
  then show ?case
    using osa_le_subst [of w "s @ [a]" "t @ [b]" "length s" "length t"] assms(1)
    by (simp add: osa_prefix sub_cost_def nonneg_def split: if_splits)
next
  case (insert s t c b)
  then show ?case
    using osa_le_insert [of w s "t @ [b]" "length s" "length t"] osa_prefix [of "length s" s "length t" t w "[]" "[b]"]
    by simp
next
  case (delete s t c a)
  then show ?case
    using osa_le_delete [of w "s @ [a]" t "length s" "length t"] osa_prefix [of "length s" s "length t" t w "[a]" "[]"]
    by simp
next
  case (swap s t c a b)
  have "swaps (s @ [a, b]) (t @ [b, a]) (Suc (length s)) (Suc (length t))"
    by (simp add: swaps_def nth_append)
  from osa_le_swap [OF this, of w] swap show ?case by (simp add: osa_prefix)
qed simp

text \<open>The recurrence is the cost of an alignment of the prefixes.\<close>

lemma aligns_osa:
  "i \<le> length s \<Longrightarrow> j \<le> length t \<Longrightarrow> aligns w (take i s) (take j t) (osa w s t i j)"
proof (induction "i + j" arbitrary: i j rule: less_induct)
  case less
  show ?case
  proof (cases i)
    case 0
    then show ?thesis
    proof (cases j)
      case (Suc j')
      then have "aligns w (take 0 s) (take j' t) (osa w s t 0 j')"
        by (intro less.hyps) (use less.prems 0 in simp_all)
      from aligns.insert [OF this, of "t ! j'"] show ?thesis
        using less.prems 0 Suc by (simp add: take_Suc_conv_app_nth algebra_simps)
    qed (auto intro: aligns.empty)
  next
    case i: (Suc i')
    show ?thesis
    proof (cases j)
      case 0
      have "osa w s t i 0 = osa w s t i' 0 + dw w"
        using i by (cases i') (simp_all add: algebra_simps)
      moreover have "aligns w (take i' s) (take 0 t) (osa w s t i' 0)"
        by (intro less.hyps) (use less.prems 0 i in simp_all)
      ultimately show ?thesis
        using less.prems 0 i aligns.delete [of w "take i' s" "[]" "osa w s t i' 0" "s ! i'"]
        by (simp only: take_Suc_conv_app_nth Suc_le_eq take_0)
    next
      case j: (Suc j')
      have lt: "i' < length s" "j' < length t" using less.prems i j by simp_all
      note tk = take_Suc_conv_app_nth [OF lt(1)] take_Suc_conv_app_nth [OF lt(2)]
      show ?thesis
      proof (cases rule: osa_attained [of w s t i' j'])
        case 1
        have "aligns w (take i' s) (take j' t) (osa w s t i' j')" using less i j by simp
        then show ?thesis
          unfolding i j tk 1 sub_cost_def
          using aligns.keep aligns.subst by auto
      next
        case 2
        then obtain i2 j2 where ij: "i' = Suc i2" "j' = Suc j2" "s ! i2 = t ! j'" "s ! i' = t ! j2"
          by (auto simp: swaps_def gr0_conv_Suc)
        then have "aligns w (take i2 s) (take j2 t) (osa w s t i2 j2)" using less i j by simp
        then have "aligns w (take i2 s @ [s ! i2, s ! i']) (take j2 t @ [s ! i', s ! i2]) (osa w s t i2 j2 + tw w)"
          by (rule aligns.swap)
        moreover have "take i s = take i2 s @ [s ! i2, s ! i']" "take j t = take j2 t @ [t ! j2, t ! j']"
          using i j ij(1,2) lt by (simp_all add: take_Suc_conv_app_nth)
        ultimately show ?thesis using 2(2) ij i j by simp
      next
        case 3
        have "aligns w (take i' s) (take j t) (osa w s t i' j)" using less i j by simp
        then show ?thesis unfolding i tk(1) using 3 j by (auto intro: aligns.delete)
      next
        case 4
        have "aligns w (take i s) (take j' t) (osa w s t i j')" using less i j by simp
        then show ?thesis unfolding j tk(2) using 4 i by (auto intro: aligns.insert)
      qed
    qed
  qed
qed

section \<open>The rows hold the recurrence\<close>

definition lev_fits :: "weights \<Rightarrow> nat \<Rightarrow> nat \<Rightarrow> bool" where
  "lev_fits w m n \<longleftrightarrow> nonneg w \<and> n < SAFE_SIZE
     \<and> int m * dw w + int n * iw w + (iw w + dw w + sw w + tw w) < 2 ^ 31"

lemma osa_fits:
  assumes "lev_fits w m n" "i \<le> m" "j \<le> n"
  shows "0 \<le> osa w s t i j" "osa w s t i j + (iw w + dw w + sw w + tw w) < 2 ^ 31"
proof -
  have nn: "0 \<le> iw w" "0 \<le> dw w" using assms(1) by (auto simp: lev_fits_def nonneg_def)
  show "0 \<le> osa w s t i j" using assms(1) by (auto simp: lev_fits_def osa_nonneg)
  have "osa w s t i j \<le> int i * dw w + int j * iw w"
    using assms(1) by (auto simp: lev_fits_def osa_upper)
  also have "\<dots> \<le> int m * dw w + int n * iw w"
    using assms(2,3) nn by (intro add_mono mult_right_mono) auto
  finally show "osa w s t i j + (iw w + dw w + sw w + tw w) < 2 ^ 31"
    using assms(1) by (auto simp: lev_fits_def)
qed

lemma int_add_fits:
  assumes "lev_fits w m n" "i \<le> m" "j \<le> n" "c \<in> {0, iw w, dw w, sw w, tw w}"
  shows "int_add (osa w s t i j) c = Ok (osa w s t i j + c)"
proof -
  have "0 \<le> iw w" "0 \<le> dw w" "0 \<le> sw w" "0 \<le> tw w"
    using assms(1) by (auto simp: lev_fits_def nonneg_def)
  moreover from this assms(4) have "0 \<le> c" "c \<le> iw w + dw w + sw w + tw w" by auto
  ultimately show ?thesis
    using osa_fits [OF assms(1-3), of s t] by (auto simp: int_add_def int_range_def)
qed

lemma size_mult_int_fits: "0 \<le> int i * w \<Longrightarrow> int i * w < 2 ^ 31 \<Longrightarrow> size_mult_int i w = int i * w"
  unfolding size_mult_int_def by (rule signed_take_bit_int_eq_self) auto

text \<open>A row whose first \<open>k\<close> cells hold the values of line \<open>i\<close>.\<close>

definition row_upto :: "weights \<Rightarrow> string \<Rightarrow> string \<Rightarrow> nat \<Rightarrow> nat \<Rightarrow> int block \<Rightarrow> bool" where
  "row_upto w s t i k row \<longleftrightarrow> length row = Suc (length t) \<and> (\<forall>j<k. row ! j = Some (osa w s t i j))"

lemma cell_get_row:
  "row_upto w s t i k row \<Longrightarrow> j < k \<Longrightarrow> j \<le> length t \<Longrightarrow> cell_get row j = Ok (osa w s t i j)"
  by (auto simp: cell_get_def mem_read_def row_upto_def take_Suc_conv_app_nth hd_drop_conv_nth
      take_Suc drop_eq_Nil2 simp del: drop_eq_Nil2)

lemma cell_set_row:
  assumes "row_upto w s t i k row" "k \<le> length t" "x = osa w s t i k"
  shows "\<exists>row'. cell_set row k x = Ok row' \<and> row_upto w s t i (Suc k) row'"
proof -
  have "take k row @ Some x # drop (Suc k) row = row[k := Some x]"
    using assms by (simp add: row_upto_def upd_conv_take_nth_drop)
  then have "cell_set row k x = Ok (row[k := Some x])"
    using assms by (simp add: cell_set_def mem_write_def row_upto_def)
  moreover have "row_upto w s t i (Suc k) (row[k := Some x])"
    using assms(2) assms(1) [unfolded row_upto_def] unfolding assms(3) row_upto_def
    by (auto simp: less_Suc_eq_le nth_list_update)
  ultimately show ?thesis by blast
qed

lemma first_row_correct:
  assumes "lev_fits w m (length t)" "k \<le> Suc (length t)" "length row = Suc (length t)"
  shows "\<exists>row'. fold_res (lev_first_row w) row [0 ..< k] = Ok row' \<and> row_upto w s t 0 k row'"
  using assms(2)
proof (induction k)
  case 0
  then show ?case using assms(3) by (simp add: row_upto_def)
next
  case (Suc k)
  then obtain row' where r: "fold_res (lev_first_row w) row [0 ..< k] = Ok row'" "row_upto w s t 0 k row'"
    by auto
  have "size_mult_int k (iw w) = osa w s t 0 k"
    using osa_fits [OF assms(1), of 0 k s t] Suc.prems assms(1)
    by (auto simp: lev_fits_def nonneg_def intro!: size_mult_int_fits)
  moreover obtain row2 where "cell_set row' k (osa w s t 0 k) = Ok row2" "row_upto w s t 0 (Suc k) row2"
    using cell_set_row [OF r(2) _ refl] Suc.prems by auto
  ultimately have "lev_first_row w row' k = Ok row2" "row_upto w s t 0 (Suc k) row2"
    by (simp_all add: lev_first_row_def)
  then show ?case
    using r(1) by (simp add: fold_res_append)
qed

lemma lev_cell_correct:
  assumes fits: "lev_fits w (length s) (length t)" and i: "i < length s" and ii: "ii < length t"
    and v9: "0 < i \<Longrightarrow> row_upto w s t (i - 1) (Suc (length t)) v9"
    and v0: "row_upto w s t i (Suc (length t)) v0"
    and v1: "row_upto w s t (Suc i) (Suc ii) v1"
  shows "\<exists>v1'. lev_cell s t w i v9 v0 v1 ii = Ok v1' \<and> row_upto w s t (Suc i) (Suc (Suc ii)) v1'"
proof -
  have sub: "bind_res (cell_get v0 ii) (\<lambda>sub. if s ! i = t ! ii then Ok sub else int_add sub (sw w))
      = Ok (osa w s t i ii + sub_cost w s t i ii)"
    using cell_get_row [OF v0, of ii] int_add_fits [OF fits, of i ii "sw w"] i ii
    by (auto simp: sub_cost_def)
  have swp: "bind_res (cell_get v9 (ii - 1)) (\<lambda>x. int_add x (tw w)) = Ok (osa w s t (i - 1) (ii - 1) + tw w)"
    if "swaps s t i ii"
    using that cell_get_row [OF v9, of "ii - 1"] int_add_fits [OF fits, of "i - 1" "ii - 1" "tw w"] i ii
    by (auto simp: swaps_def)
  have del: "bind_res (cell_get v0 (ii + 1)) (\<lambda>x. int_add x (dw w)) = Ok (osa w s t i (Suc ii) + dw w)"
    using cell_get_row [OF v0, of "Suc ii"] int_add_fits [OF fits, of i "Suc ii" "dw w"] i ii by auto
  have ins: "bind_res (cell_get v1 ii) (\<lambda>x. int_add x (iw w)) = Ok (osa w s t (Suc i) ii + iw w)"
    using cell_get_row [OF v1, of ii] int_add_fits [OF fits, of "Suc i" ii "iw w"] i ii by auto
  have "lev_cell s t w i v9 v0 v1 ii = cell_set v1 (Suc ii) (osa w s t (Suc i) (Suc ii))"
  proof (cases "swaps s t i ii")
    case True
    with swp [OF True] sub del ins show ?thesis
      unfolding lev_cell_def osa_step
      by (auto simp: bind_res_eq_Ok swaps_def Let_def min_def)
  next
    case False
    with sub del ins show ?thesis
      unfolding lev_cell_def osa_step
      by (auto simp: bind_res_eq_Ok swaps_def Let_def min_def)
  qed
  then show ?thesis using cell_set_row [OF v1 _ refl] ii by auto
qed

lemma lev_inner_correct:
  assumes fits: "lev_fits w (length s) (length t)" and i: "i < length s" and k: "k \<le> length t"
    and v9: "0 < i \<Longrightarrow> row_upto w s t (i - 1) (Suc (length t)) v9"
    and v0: "row_upto w s t i (Suc (length t)) v0"
    and v1: "row_upto w s t (Suc i) (Suc 0) v1"
  shows "\<exists>v1'. fold_res (lev_cell s t w i v9 v0) v1 [0 ..< k] = Ok v1'
     \<and> row_upto w s t (Suc i) (Suc k) v1'"
  using k
proof (induction k)
  case 0
  then show ?case using v1 by simp
next
  case (Suc k)
  then obtain v where v: "fold_res (lev_cell s t w i v9 v0) v1 [0 ..< k] = Ok v"
      "row_upto w s t (Suc i) (Suc k) v"
    by auto
  moreover obtain v' where "lev_cell s t w i v9 v0 v k = Ok v'" "row_upto w s t (Suc i) (Suc (Suc k)) v'"
    using lev_cell_correct [OF fits i _ v9 v0 v(2)] Suc.prems by auto
  ultimately show ?case by (simp add: fold_res_append)
qed

text \<open>After \<open>k\<close> rounds of the outer loop \<^verbatim>\<open>v0\<close> is line \<open>k\<close> and \<^verbatim>\<open>v9\<close> the one before.\<close>

definition rows_at :: "weights \<Rightarrow> string \<Rightarrow> string \<Rightarrow> nat \<Rightarrow> int block \<times> int block \<times> int block \<Rightarrow> bool" where
  "rows_at w s t k vs \<longleftrightarrow>
     (case vs of (v9, v0, v1) \<Rightarrow>
        (0 < k \<longrightarrow> row_upto w s t (k - 1) (Suc (length t)) v9)
      \<and> row_upto w s t k (Suc (length t)) v0
      \<and> length v9 = Suc (length t) \<and> length v1 = Suc (length t))"

lemma lev_row_correct:
  assumes fits: "lev_fits w (length s) (length t)" and k: "k < length s" and vs: "rows_at w s t k vs"
  shows "\<exists>vs'. lev_row s t w vs k = Ok vs' \<and> rows_at w s t (Suc k) vs'"
proof -
  obtain v9 v0 v1 where [simp]: "vs = (v9, v0, v1)" by (cases vs)
  have v: "0 < k \<Longrightarrow> row_upto w s t (k - 1) (Suc (length t)) v9"
      "row_upto w s t k (Suc (length t)) v0" "length v9 = Suc (length t)" "length v1 = Suc (length t)"
    using vs by (auto simp: rows_at_def)
  have "size_mult_int (k + 1) (dw w) = osa w s t (Suc k) 0"
    using osa_fits [OF fits, of "Suc k" 0 s t] fits k size_mult_int_fits [of "Suc k" "dw w"]
    by (auto simp: lev_fits_def nonneg_def)
  moreover have "row_upto w s t (Suc k) 0 v1" using v(4) by (simp add: row_upto_def)
  ultimately obtain v1' where w0: "cell_set v1 0 (size_mult_int (k + 1) (dw w)) = Ok v1'"
      "row_upto w s t (Suc k) (Suc 0) v1'"
    using cell_set_row [of w s t "Suc k" 0 v1] by auto
  then obtain v1'' where "fold_res (lev_cell s t w k v9 v0) v1' [0 ..< length t] = Ok v1''"
      "row_upto w s t (Suc k) (Suc (length t)) v1''"
    using lev_inner_correct [OF fits k order_refl v(1,2)] by blast
  then show ?thesis
    using w0(1) v by (auto simp: lev_row_def rows_at_def row_upto_def)
qed

lemma lev_rows_correct:
  assumes "lev_fits w (length s) (length t)" "rows_at w s t 0 vs" "k \<le> length s"
  shows "\<exists>vs'. fold_res (lev_row s t w) vs [0 ..< k] = Ok vs' \<and> rows_at w s t k vs'"
  using assms(3)
proof (induction k)
  case (Suc k)
  then obtain v where "fold_res (lev_row s t w) vs [0 ..< k] = Ok v" "rows_at w s t k v" by auto
  with lev_row_correct [OF assms(1) _ this(2)] Suc.prems show ?case
    by (auto simp: fold_res_append)
qed (use assms in auto)

lemma malloc_array_fits:
  "0 < esz \<Longrightarrow> esz \<le> 16 \<Longrightarrow> n \<le> SAFE_SIZE \<Longrightarrow> malloc_array esz n = Ok (replicate n None)"
proof -
  assume a: "0 < esz" "esz \<le> 16" "n \<le> SAFE_SIZE"
  then have "esz * n \<le> 16 * SAFE_SIZE" by (intro mult_mono) auto
  then have "esz * n \<le> ALLOC_MAX" by (simp add: size_bounds)
  with a(1) show ?thesis by (simp add: malloc_array_def st_mult_exact size_bounds)
qed

lemma levenshtein_w_osa:
  assumes fits: "lev_fits w (length s) (length t)"
  shows "levenshtein_w s t w = Ok (nat (osa w s t (length s) (length t)))"
proof -
  let ?n = "length t"
  have m: "malloc_array 4 (?n + 1) = Ok (replicate (?n + 1) None)"
    by (rule malloc_array_fits) (use fits in \<open>auto simp: lev_fits_def\<close>)
  obtain v0 where v0: "fold_res (lev_first_row w) (replicate (?n + 1) None) [0 ..< ?n + 1] = Ok v0"
      "row_upto w s t 0 (Suc ?n) v0"
    using first_row_correct [OF fits order_refl, of "replicate (?n + 1) None" s]
    by (auto simp: lev_fits_def)
  have "rows_at w s t 0 (replicate (?n + 1) None, v0, replicate (?n + 1) None)"
    using v0(2) by (simp add: rows_at_def)
  from lev_rows_correct [OF fits this order_refl] obtain vs where
      r: "fold_res (lev_row s t w) (replicate (?n + 1) None, v0, replicate (?n + 1) None) [0 ..< length s] = Ok vs"
        "rows_at w s t (length s) vs" by blast
  obtain v9 v0' v1 where e: "vs = (v9, v0', v1)" by (cases vs)
  have vs: "fold_res (lev_row s t w)
        (replicate (?n + 1) None, v0, replicate (?n + 1) None) [0 ..< length s] = Ok (v9, v0', v1)"
      "row_upto w s t (length s) (Suc ?n) v0'"
    using r unfolding e rows_at_def by simp_all
  have "0 \<le> osa w s t (length s) ?n" "osa w s t (length s) ?n < 2 ^ 64"
    using osa_fits [OF fits order_refl order_refl, of s t] fits by (auto simp: lev_fits_def nonneg_def)
  then have "osa w s t (length s) ?n mod 2 ^ 64 = osa w s t (length s) ?n" by simp
  then show ?thesis
    unfolding levenshtein_w_def Let_def m bind_res.simps v0(1) vs(1) prod.case
    using cell_get_row [OF vs(2), of ?n] by simp
qed

text \<open>
  C18. For weights that are not negative and strings short enough that no cell can leave the
  range of int, levenshtein_w returns the least cost of turning the first string into the
  second: some sequence of edits has that cost, and no sequence costs less.
\<close>

theorem levenshtein_least_cost:
  assumes "lev_fits w (length s) (length t)"
  shows "\<exists>d. levenshtein_w s t w = Ok (nat d) \<and> 0 \<le> d \<and> aligns w s t d
           \<and> (\<forall>c. aligns w s t c \<longrightarrow> d \<le> c)"
proof -
  have nn: "nonneg w" using assms by (simp add: lev_fits_def)
  show ?thesis
    using levenshtein_w_osa [OF assms] osa_nonneg [OF nn] aligns_osa [of "length s" s "length t" t w]
      aligns_lower [OF nn]
    by (intro exI [of _ "osa w s t (length s) (length t)"]) auto
qed

theorem levenshtein_least_cost_witness:
  "\<exists>d. levenshtein_w ''inti'' ''init'' \<lparr>iw = 1, dw = 3, sw = 2, tw = 0\<rparr> = Ok (nat d) \<and> 0 \<le> d
     \<and> aligns \<lparr>iw = 1, dw = 3, sw = 2, tw = 0\<rparr> ''inti'' ''init'' d
     \<and> (\<forall>c. aligns \<lparr>iw = 1, dw = 3, sw = 2, tw = 0\<rparr> ''inti'' ''init'' c \<longrightarrow> d \<le> c)"
  by (rule levenshtein_least_cost) (simp add: lev_fits_def nonneg_def size_bounds)

end
