(* ===== verification/Command.thy ===== *)
theory Command
  imports Strlist Strutil Msort Levenshtein
begin

text \<open>
  \<^verbatim>\<open>src/src/command.c\<close>: the table of subcommands, the lookup of a command by name
  and the search for the names closest to a mistyped one.  The search puts the string
  list, the edit distance and the sort together; its property states what it returns
  without mentioning any of them.  The table is the one of a release build
  (PK_DEBUG undefined).
\<close>

section \<open>The table\<close>

datatype handler =
  Cmd_count | Cmd_create | Cmd_delete | Cmd_help | Cmd_init | Cmd_makekey
  | Cmd_read | Cmd_update | Cmd_version

type_synonym cmdreq = uint

definition USE_CREDDB :: cmdreq where "USE_CREDDB = push_bit 0 1"
definition USE_RECFILE :: cmdreq where "USE_RECFILE = push_bit 1 1"

record cmdinfo =
  ci_name :: string
  ci_handle :: handler
  ci_reqs :: cmdreq

definition command_list :: "cmdinfo list" where
  "command_list =
    [\<lparr>ci_name = ''count'', ci_handle = Cmd_count, ci_reqs = USE_CREDDB\<rparr>,
     \<lparr>ci_name = ''create'', ci_handle = Cmd_create, ci_reqs = or USE_CREDDB USE_RECFILE\<rparr>,
     \<lparr>ci_name = ''delete'', ci_handle = Cmd_delete, ci_reqs = USE_CREDDB\<rparr>,
     \<lparr>ci_name = ''help'', ci_handle = Cmd_help, ci_reqs = 0\<rparr>,
     \<lparr>ci_name = ''init'', ci_handle = Cmd_init, ci_reqs = 0\<rparr>,
     \<lparr>ci_name = ''makekey'', ci_handle = Cmd_makekey, ci_reqs = 0\<rparr>,
     \<lparr>ci_name = ''read'', ci_handle = Cmd_read, ci_reqs = USE_CREDDB\<rparr>,
     \<lparr>ci_name = ''update'', ci_handle = Cmd_update, ci_reqs = or USE_CREDDB USE_RECFILE\<rparr>,
     \<lparr>ci_name = ''version'', ci_handle = Cmd_version, ci_reqs = 0\<rparr>]"

text \<open>find_command walks the table up to the entry with a NULL name.\<close>

fun find_in :: "cmdinfo list \<Rightarrow> string \<Rightarrow> cmdinfo option" where
  "find_in [] cmd = None"
| "find_in (c # cs) cmd = (if cmd = ci_name c then Some c else find_in cs cmd)"

definition find_command :: "string \<Rightarrow> cmdinfo option" where
  "find_command cmd = find_in command_list cmd"

definition command_names :: "string list" where
  "command_names = map ci_name command_list"

section \<open>The search for similar names\<close>

text \<open>
  The extra word of a list element as an integer.  The lists built here only hold
  numbers; a string extension would be its address, 0 stands for it.
\<close>

fun ext_word :: "ext \<Rightarrow> int" where
  "ext_word (ExtNum n) = n"
| "ext_word (ExtStr s) = 0"

text \<open>The difference of two words, returned as an int.\<close>

definition command_distance_compar :: "strlist_elem \<Rightarrow> strlist_elem \<Rightarrow> int" where
  "command_distance_compar e1 e2 = signed_take_bit 31 (ext_word (el_ext e1) - ext_word (el_ext e2))"

definition set_ext :: "strlist \<Rightarrow> nat \<Rightarrow> ext \<Rightarrow> strlist res" where
  "set_ext sl i e =
     bind_res (arr_block (elvec sl)) (\<lambda>b.
     bind_res (mem_read b i 1) (\<lambda>el.
     bind_res (mem_write b i [hd el\<lparr>el_ext := e\<rparr>]) (\<lambda>b.
       Ok (sl\<lparr>elvec := Arr b\<rparr>))))"

definition command_weights :: weights where
  "command_weights = \<lparr>iw = 1, dw = 3, sw = 2, tw = 0\<rparr>"

definition score_elem :: "string \<Rightarrow> strlist \<Rightarrow> nat \<Rightarrow> strlist res" where
  "score_elem cmd sl i =
     bind_res (elem_at sl i) (\<lambda>el.
       if starts_with (el_str el) cmd then set_ext sl i (ExtNum 0)
       else bind_res (levenshtein_w cmd (el_str el) command_weights) (\<lambda>d.
              set_ext sl i (ExtNum (signed_take_bit 63 (int d)))))"

definition sort_elvec :: "strlist \<Rightarrow> strlist res" where
  "sort_elvec sl =
     bind_res (arr_block (elvec sl)) (\<lambda>b.
     bind_res (merge_sort ELEM_SIZE command_distance_compar b (sl_size sl)) (\<lambda>b.
       Ok (sl\<lparr>elvec := Arr b\<rparr>)))"

text \<open>\<^verbatim>\<open>for (i = 0; i < sl.size && P(sl.elvec[i]); i++)\<close>\<close>

fun count_while :: "(strlist_elem \<Rightarrow> bool) \<Rightarrow> strlist_elem list \<Rightarrow> nat" where
  "count_while P [] = 0"
| "count_while P (el # els) = (if P el then Suc (count_while P els) else 0)"

text \<open>\<open>None\<close> is a NULL return; the array returned ends with NULL.\<close>

definition get_approximate_command :: "string \<Rightarrow> string option list option res" where
  "get_approximate_command cmd =
     bind_res (fold_res push_name STRLIST_INIT_NODUP command_names) (\<lambda>sl.
     bind_res (fold_res (score_elem cmd) sl [0 ..< sl_size sl]) (\<lambda>sl.
     bind_res (sort_elvec sl) (\<lambda>sl.
     bind_res (elem_at sl 0) (\<lambda>el0.
     let most_similar = nat (ext_word (el_ext el0) mod 2 ^ 64)
     in if most_similar > 5 then Ok None
        else
          bind_res (live_elems sl) (\<lambda>els.
          let i = count_while (\<lambda>el. ext_word (el_ext el) = 0) els;
              sl = (if i = sl_size sl \<and> sl_size sl > 7 then sl\<lparr>sl_size := 7\<rparr> else sl)
          in bind_res (live_elems sl) (\<lambda>els.
             let i = count_while (\<lambda>el. most_similar = nat (ext_word (el_ext el) mod 2 ^ 64)) els
             in bind_res (strlist_to_array_routine sl i) (\<lambda>buf.
                bind_res (strlist_destroy sl False) (\<lambda>_. Ok (Some buf)))))))))"

section \<open>The lookup\<close>

lemma find_in_Some:
  "find_in cs cmd = Some c \<Longrightarrow> c \<in> set cs \<and> ci_name c = cmd"
  by (induction cs) (auto split: if_splits)

lemma find_in_None: "find_in cs cmd = None \<longleftrightarrow> cmd \<notin> ci_name ` set cs"
  by (induction cs) auto

lemma command_names_distinct: "distinct command_names"
  by (simp add: command_names_def command_list_def)

lemma find_in_unique:
  "distinct (map ci_name cs) \<Longrightarrow> c \<in> set cs \<Longrightarrow> find_in cs (ci_name c) = Some c"
  by (induction cs) (auto simp: rev_image_eqI)

text \<open>
  find_command returns a table entry exactly when the argument is the name of one, and
  then the entry with that name, of which there is only one.
\<close>

theorem find_command_exact:
  "find_command cmd = Some c \<longleftrightarrow> c \<in> set command_list \<and> ci_name c = cmd"
  using find_in_Some [of command_list cmd c] find_in_unique [of command_list c]
    command_names_distinct
  by (auto simp: find_command_def command_names_def)

section \<open>What the search returns\<close>

text \<open>The score of a name: 0 for a completion of the input, else the least edit cost.\<close>

definition cmd_score :: "string \<Rightarrow> string \<Rightarrow> int" where
  "cmd_score cmd name =
     (if starts_with name cmd then 0 else osa command_weights cmd name (length cmd) (length name))"

lemma command_weights_nonneg: "nonneg command_weights"
  by (simp add: command_weights_def nonneg_def)

lemma cmd_score_bounds:
  assumes "length cmd < 2 ^ 29" "length name < 2 ^ 20"
  shows "0 \<le> cmd_score cmd name" "cmd_score cmd name < 2 ^ 31"
    "lev_fits command_weights (length cmd) (length name)"
proof -
  show f: "lev_fits command_weights (length cmd) (length name)"
    using assms by (simp add: lev_fits_def command_weights_def nonneg_def size_bounds)
  show "0 \<le> cmd_score cmd name" "cmd_score cmd name < 2 ^ 31"
    using osa_fits [OF f order_refl order_refl, of cmd name]
    by (auto simp: cmd_score_def command_weights_def)
qed

lemma set_ext_rep:
  assumes "strlist_rep sl xs" "i < length xs"
  shows "\<exists>sl'. set_ext sl i e = Ok sl' \<and> strlist_rep sl' (xs[i := (xs ! i)\<lparr>el_ext := e\<rparr>])"
proof -
  obtain b where b: "elvec sl = Arr b" "sl_size sl = length xs" "length b = sl_capacity sl"
      "sl_capacity sl \<le> 4 * SAFE_SIZE" "length xs \<le> length b" "take (length xs) b = map Some xs"
    using assms by (auto simp: strlist_rep_def split: elem_array.splits)
  have at: "b ! i = Some (xs ! i)"
    using b(6) assms(2) by (metis nth_map nth_take)
  then have rd: "mem_read b i 1 = Ok [xs ! i]"
    using assms(2) b(5) by (simp add: mem_read_def take_Suc hd_drop_conv_nth)
  let ?el = "(xs ! i)\<lparr>el_ext := e\<rparr>"
  have "mem_write b i [?el] = Ok (b[i := Some ?el])"
    using assms(2) b(5) by (simp add: mem_write_def upd_conv_take_nth_drop)
  with b rd assms(2) show ?thesis
    by (intro exI [of _ "sl\<lparr>elvec := Arr (b[i := Some ?el])\<rparr>"])
       (simp add: set_ext_def strlist_rep_def take_update_swap map_update)
qed

definition scored :: "string \<Rightarrow> string \<Rightarrow> strlist_elem" where
  "scored cmd name = \<lparr>el_str = name, el_ext = ExtNum (cmd_score cmd name)\<rparr>"

definition elem_key :: "strlist_elem \<Rightarrow> int" where
  "elem_key el = ext_word (el_ext el)"

lemma elem_key_scored [simp]: "elem_key (scored cmd name) = cmd_score cmd name"
  by (simp add: elem_key_def scored_def)

lemma el_str_scored [simp]: "el_str (scored cmd name) = name"
  by (simp add: scored_def)

lemma score_elem_rep:
  assumes rep: "strlist_rep sl xs" and i: "i < length xs" "xs ! i = plain name"
    and len: "length cmd < 2 ^ 29" "length name < 2 ^ 20"
  shows "\<exists>sl'. score_elem cmd sl i = Ok sl' \<and> strlist_rep sl' (xs[i := scored cmd name])"
proof -
  note el = elem_at_rep [OF rep i(1), unfolded i(2)]
  note f = cmd_score_bounds [OF len]
  have set: "\<exists>sl'. set_ext sl i (ExtNum (cmd_score cmd name)) = Ok sl' \<and> strlist_rep sl' (xs[i := scored cmd name])"
    using set_ext_rep [OF rep i(1)] i(2) by (simp add: scored_def)
  show ?thesis
  proof (cases "starts_with name cmd")
    case True
    then show ?thesis using el set by (simp add: score_elem_def cmd_score_def)
  next
    case False
    then have sc: "cmd_score cmd name = osa command_weights cmd name (length cmd) (length name)"
      by (simp add: cmd_score_def)
    have "signed_take_bit 63 (cmd_score cmd name) = cmd_score cmd name"
      using f(1,2) by (intro signed_take_bit_int_eq_self) auto
    then show ?thesis
      using el set False f(1) levenshtein_w_osa [OF f(3)] by (simp add: score_elem_def flip: sc)
  qed
qed

lemma score_loop_rep:
  assumes "strlist_rep sl (map plain names)" "length cmd < 2 ^ 29" "\<forall>n\<in>set names. length n < 2 ^ 20"
    "k \<le> length names"
  shows "\<exists>sl'. fold_res (score_elem cmd) sl [0 ..< k] = Ok sl'
      \<and> strlist_rep sl' (map (scored cmd) (take k names) @ map plain (drop k names))"
  using assms(4)
proof (induction k)
  case 0
  then show ?case using assms(1) by simp
next
  case (Suc k)
  let ?xs = "map (scored cmd) (take k names) @ map plain (drop k names)"
  obtain sl' where sl': "fold_res (score_elem cmd) sl [0 ..< k] = Ok sl'" "strlist_rep sl' ?xs"
    using Suc by auto
  have k: "k < length names" using Suc.prems by simp
  have "k < length ?xs" "?xs ! k = plain (names ! k)" "length (names ! k) < 2 ^ 20"
    using k assms(3) by (simp_all add: nth_append)
  from score_elem_rep [OF sl'(2) this(1,2) assms(2) this(3)]
  obtain sl2 where "score_elem cmd sl' k = Ok sl2" "strlist_rep sl2 (?xs[k := scored cmd (names ! k)])"
    by blast
  moreover have "?xs[k := scored cmd (names ! k)]
      = map (scored cmd) (take (Suc k) names) @ map plain (drop (Suc k) names)"
    using k by (simp add: list_update_append take_Suc_conv_app_nth flip: Cons_nth_drop_Suc)
  ultimately show ?case using sl'(1) by (simp add: fold_res_append)
qed

lemma compar_by_scores:
  assumes "\<forall>el\<in>A. 0 \<le> elem_key el \<and> elem_key el < 2 ^ 31"
  shows "compar_by elem_key command_distance_compar A"
  unfolding compar_by_def
proof (intro ballI)
  fix x y assume "x \<in> A" "y \<in> A"
  then have "0 \<le> elem_key x" "elem_key x < 2 ^ 31" "0 \<le> elem_key y" "elem_key y < 2 ^ 31"
    using assms by auto
  then have "signed_take_bit 31 (elem_key x - elem_key y) = elem_key x - elem_key y"
    by (intro signed_take_bit_int_eq_self) linarith+
  then show "0 < command_distance_compar x y \<longleftrightarrow> elem_key y < elem_key x"
    by (simp add: command_distance_compar_def elem_key_def)
qed

lemma sort_elvec_rep:
  assumes rep: "strlist_rep sl xs" and ne: "xs \<noteq> []"
    and key: "\<forall>el\<in>set xs. 0 \<le> elem_key el \<and> elem_key el < 2 ^ 31" and len: "length xs < SAFE_SIZE"
  shows "\<exists>sl'. sort_elvec sl = Ok sl' \<and> strlist_rep sl' (sort_key elem_key xs)"
proof -
  obtain b where b: "elvec sl = Arr b" "sl_size sl = length xs" "length b = sl_capacity sl"
      "sl_capacity sl \<le> 4 * SAFE_SIZE" "length xs \<le> length b" "take (length xs) b = map Some xs"
    using rep ne by (auto simp: strlist_rep_def split: elem_array.splits)
  have fit: "length xs * ELEM_SIZE \<le> ALLOC_MAX"
    using len by (simp add: size_bounds ELEM_SIZE_def)
  have "merge_sort ELEM_SIZE command_distance_compar b (length xs)
      = Ok (map Some (sort_key elem_key xs) @ drop (length xs) b)"
    by (rule ms.sorted_block [OF compar_by_scores [OF key] ne fit b(6,5)])
  then show ?thesis
    using b by (auto simp: sort_elvec_def strlist_rep_def)
qed

lemma strlist_rep_take:
  "strlist_rep sl xs \<Longrightarrow> n \<le> length xs \<Longrightarrow> strlist_rep (sl\<lparr>sl_size := n\<rparr>) (take n xs)"
  by (auto simp: strlist_rep_def take_map min_def split: elem_array.splits)
     (metis min.absorb1 take_map take_take)

lemma count_while_takeWhile: "count_while P els = length (takeWhile P els)"
  by (induction els) auto

lemma count_while_all: "count_while P els = length els \<longleftrightarrow> (\<forall>el\<in>set els. P el)"
  by (induction els) auto

text \<open>
  The names with the least score, in the order of the table; when every name completes the
  input only the first seven.
\<close>

definition closest_names :: "string \<Rightarrow> string list \<Rightarrow> string list" where
  "closest_names cmd names =
     (let m = Min (cmd_score cmd ` set names);
          best = filter (\<lambda>n. cmd_score cmd n = m) names
      in if (\<forall>n\<in>set names. cmd_score cmd n = 0) then take 7 best else best)"

text \<open>The part after the sort, on a list sorted by the scores.\<close>

definition pick_closest :: "strlist \<Rightarrow> string option list option res" where
  "pick_closest sl =
     bind_res (elem_at sl 0) (\<lambda>el0.
     let most_similar = nat (ext_word (el_ext el0) mod 2 ^ 64)
     in if most_similar > 5 then Ok None
        else
          bind_res (live_elems sl) (\<lambda>els.
          let i = count_while (\<lambda>el. ext_word (el_ext el) = 0) els;
              sl = (if i = sl_size sl \<and> sl_size sl > 7 then sl\<lparr>sl_size := 7\<rparr> else sl)
          in bind_res (live_elems sl) (\<lambda>els.
             let i = count_while (\<lambda>el. most_similar = nat (ext_word (el_ext el) mod 2 ^ 64)) els
             in bind_res (strlist_to_array_routine sl i) (\<lambda>buf.
                bind_res (strlist_destroy sl False) (\<lambda>_. Ok (Some buf))))))"

lemma count_while_key:
  assumes "\<forall>el\<in>set els. 0 \<le> elem_key el \<and> elem_key el < 2 ^ 31" "0 \<le> m" "m < 2 ^ 31"
  shows "count_while (\<lambda>el. nat m = nat (ext_word (el_ext el) mod 2 ^ 64)) els
       = length (takeWhile (\<lambda>el. elem_key el = m) els)"
  using assms(1)
proof (induction els)
  case (Cons el els)
  then have "ext_word (el_ext el) mod 2 ^ 64 = elem_key el" "0 \<le> elem_key el"
    by (auto simp: elem_key_def)
  with Cons assms(2) show ?case by auto
qed simp

lemma takeWhile_all_le:
  "takeWhile P (take n xs) = take n (takeWhile P xs)"
  by (induction xs arbitrary: n) (auto simp: take_Cons split: nat.splits)

lemma pick_closest_correct:
  assumes rep: "strlist_rep sl els" and ne: "els \<noteq> []" and len: "length els < SAFE_SIZE"
    and bnd: "\<forall>el\<in>set els. 0 \<le> elem_key el \<and> elem_key el < 2 ^ 31"
    and m: "elem_key (hd els) = m"
  shows "pick_closest sl = Ok (if 5 < m then None
      else Some (map (Some \<circ> el_str)
        (take (if \<forall>el\<in>set els. elem_key el = 0 then 7 else length els)
           (takeWhile (\<lambda>el. elem_key el = m) els)) @ [None]))"
proof -
  have hd: "elem_at sl 0 = Ok (hd els)"
    using elem_at_rep [OF rep, of 0] ne by (simp add: hd_conv_nth)
  have mb: "0 \<le> m" "m < 2 ^ 31" using bnd ne m by auto
  then have similar: "nat (ext_word (el_ext (hd els)) mod 2 ^ 64) = nat m"
    using m by (simp add: elem_key_def)
  let ?all = "\<forall>el\<in>set els. elem_key el = 0"
  let ?n = "if ?all \<and> 7 < length els then 7 else length els"
  define sl' where "sl' = (if ?all \<and> 7 < length els then sl\<lparr>sl_size := 7\<rparr> else sl)"
  have all: "count_while (\<lambda>el. ext_word (el_ext el) = 0) els = length els \<longleftrightarrow> ?all"
    by (simp add: count_while_all elem_key_def)
  have sl': "(if count_while (\<lambda>el. ext_word (el_ext el) = 0) els = sl_size sl \<and> sl_size sl > 7
      then sl\<lparr>sl_size := 7\<rparr> else sl) = sl'"
    using strlist_rep_size [OF rep] all by (simp add: sl'_def)
  have rep': "strlist_rep sl' (take ?n els)"
    using rep strlist_rep_take [OF rep, of 7] by (auto simp: sl'_def)
  have cnt: "count_while (\<lambda>el. nat m = nat (ext_word (el_ext el) mod 2 ^ 64)) (take ?n els)
      = length (takeWhile (\<lambda>el. elem_key el = m) (take ?n els))"
    using bnd mb by (intro count_while_key) (auto dest: in_set_takeD)
  have pos: "length (takeWhile (\<lambda>el. elem_key el = m) (take ?n els)) \<noteq> 0"
    using ne m by (cases els) auto
  have arr: "strlist_to_array_routine sl' (length (takeWhile (\<lambda>el. elem_key el = m) (take ?n els)))
      = Ok (map (Some \<circ> el_str) (takeWhile (\<lambda>el. elem_key el = m) (take ?n els)) @ [None])"
  proof -
    have "length (take ?n els) < SAFE_SIZE" using len by simp
    from strlist_to_array_rep [OF rep' this, of "length (takeWhile (\<lambda>el. elem_key el = m) (take ?n els))"]
    show ?thesis unfolding if_not_P [OF pos] takeWhile_eq_take [symmetric] .
  qed
  obtain r where des: "strlist_destroy sl' False = Ok r"
    using strlist_destroy_rep [OF rep'] by blast
  have "take ?n (takeWhile (\<lambda>el. elem_key el = m) els)
      = take (if ?all then 7 else length els) (takeWhile (\<lambda>el. elem_key el = m) els)"
    using length_takeWhile_le [of "\<lambda>el. elem_key el = m" els] by auto
  then show ?thesis
    using mb unfolding pick_closest_def hd bind_res.simps similar live_elems_rep [OF rep] Let_def sl'
      live_elems_rep [OF rep'] cnt arr des
    by (auto simp: takeWhile_all_le)
qed

lemma get_approximate_command_closest:
  assumes len: "length cmd < 2 ^ 29"
  shows "get_approximate_command cmd =
    Ok (if Min (cmd_score cmd ` set command_names) > 5 then None
        else Some (map Some (closest_names cmd command_names) @ [None]))"
proof -
  let ?names = command_names
  let ?els = "map (scored cmd) ?names"
  let ?m = "Min (cmd_score cmd ` set ?names)"
  have nl: "\<forall>n\<in>set ?names. length n < 2 ^ 20" "?names \<noteq> []" "length ?names < SAFE_SIZE"
    by (simp_all add: command_names_def command_list_def size_bounds)
  obtain sl where push: "fold_res push_name STRLIST_INIT_NODUP ?names = Ok sl"
      "strlist_rep sl (map plain ?names)"
    using push_names_rep [of STRLIST_INIT_NODUP "[]" ?names] nl(3) by auto
  obtain sl2 where score: "fold_res (score_elem cmd) sl [0 ..< sl_size sl] = Ok sl2"
      "strlist_rep sl2 ?els"
    using score_loop_rep [OF push(2) len nl(1) order_refl] strlist_rep_size [OF push(2)] by auto
  have bnd: "\<forall>el\<in>set ?els. 0 \<le> elem_key el \<and> elem_key el < 2 ^ 31"
    using cmd_score_bounds [OF len] nl(1) by auto
  obtain sl3 where sort: "sort_elvec sl2 = Ok sl3" "strlist_rep sl3 (sort_key elem_key ?els)"
    using sort_elvec_rep [OF score(2) _ bnd] nl(2,3) by auto
  have hd: "elem_key (hd (sort_key elem_key ?els)) = ?m"
    using hd_sort_key [of ?els elem_key] nl(2) by (simp add: image_image)
  have tw: "takeWhile (\<lambda>el. elem_key el = ?m) (sort_key elem_key ?els)
      = map (scored cmd) (filter (\<lambda>n. cmd_score cmd n = ?m) ?names)"
    using least_first [of elem_key ?els] by (simp add: image_image filter_map comp_def)
  have "sort_key elem_key ?els \<noteq> []" "length (sort_key elem_key ?els) < SAFE_SIZE"
    using nl(2,3) by (metis length_sort length_map list.size(3) length_0_conv)+
  then have "pick_closest sl3 = Ok (if 5 < ?m then None
      else Some (map (Some \<circ> el_str)
        (take (if \<forall>n\<in>set ?names. cmd_score cmd n = 0 then 7 else length ?names)
           (map (scored cmd) (filter (\<lambda>n. cmd_score cmd n = ?m) ?names))) @ [None]))"
    using pick_closest_correct [OF sort(2) _ _ _ hd] bnd tw by simp
  moreover have "get_approximate_command cmd = pick_closest sl3"
    by (simp add: get_approximate_command_def push(1) score(1) sort(1) pick_closest_def)
  ultimately show ?thesis
    by (auto simp: closest_names_def Let_def take_map comp_def)
qed

text \<open>
  C20. For an input shorter than 2 ^ 29 bytes the search never fails.  It returns NULL when
  every name is further than 5 away, and otherwise exactly the names at the least distance
  in the order of the table, the first seven of them when all names complete the input.
  The distance is 0 for a completion and the least edit cost otherwise.
\<close>

theorem get_approximate_command_correct:
  assumes "length cmd < 2 ^ 29"
  shows "get_approximate_command cmd =
    Ok (if Min (cmd_score cmd ` set command_names) > 5 then None
        else Some (map Some (closest_names cmd command_names) @ [None]))"
  using assms by (rule get_approximate_command_closest)

theorem get_approximate_command_correct_witness:
  "get_approximate_command ''x'' = Ok (Some [Some ''help'', Some ''init'', Some ''read'', None])"
  using get_approximate_command_correct [of "''x''"]
  by (simp add: closest_names_def command_names_def command_list_def cmd_score_def osa.simps
      sub_cost_def swaps_def command_weights_def)

end
