(* ===== verification/Atexit.thy ===== *)
theory Atexit
  imports Pk_Prelude
begin

text \<open>
  \<^verbatim>\<open>src/src/atexit-chain.c\<close>: the stack of cleanup functions that exit runs.  The
  linked list behind \<^verbatim>\<open>atexit_func\<close> is a HOL list, newest entry first.  A cleanup
  function is run on the state of the whole program, which contains the chain, so a
  function may push or pop again; whether the loop of apply_atexit_chain returns is then
  part of what has to be shown.
\<close>

section \<open>The code\<close>

record ('f, 'w) program =
  atexit_func :: "'f list"
  world :: 'w

definition atexit_chain_push :: "'f \<Rightarrow> ('f, 'w) program \<Rightarrow> ('f, 'w) program" where
  "atexit_chain_push fn p = p\<lparr>atexit_func := fn # atexit_func p\<rparr>"

definition atexit_chain_pop :: "('f, 'w) program \<Rightarrow> 'f option \<times> ('f, 'w) program" where
  "atexit_chain_pop p =
     (case atexit_func p of
        [] \<Rightarrow> (None, p)
      | fn # next \<Rightarrow> (Some fn, p\<lparr>atexit_func := next\<rparr>))"

partial_function (option) apply_atexit_chain ::
    "('f \<Rightarrow> ('f, 'w) program \<Rightarrow> ('f, 'w) program) \<Rightarrow> ('f, 'w) program \<Rightarrow> ('f, 'w) program option" where
  "apply_atexit_chain run p =
     (case atexit_chain_pop p of
        (None, p) \<Rightarrow> Some p
      | (Some fn, p) \<Rightarrow> apply_atexit_chain run (run fn p))"

section \<open>The contract\<close>

text \<open>A stack, as its clients see it.\<close>

locale cleanup_stack =
  fixes pending :: "'s \<Rightarrow> 'f list"
    and push :: "'f \<Rightarrow> 's \<Rightarrow> 's"
    and pop :: "'s \<Rightarrow> 'f option \<times> 's"
  assumes pending_push: "pending (push f s) = f # pending s"
    and pop_empty: "pending s = [] \<Longrightarrow> pop s = (None, s)"
    and pop_some: "pending s = f # fs \<Longrightarrow> \<exists>s'. pop s = (Some f, s') \<and> pending s' = fs"
begin

lemma pop_push: "fst (pop (push f s)) = Some f" "pending (snd (pop (push f s))) = pending s"
  using pop_some [OF pending_push [of f s]] by auto

lemma pending_fold: "pending (fold push fs s) = rev fs @ pending s"
  by (induction fs arbitrary: s) (simp_all add: pending_push)

end

interpretation chain: cleanup_stack atexit_func atexit_chain_push atexit_chain_pop
  by unfold_locales (auto simp: atexit_chain_push_def atexit_chain_pop_def)

text \<open>A function that leaves the chain alone, and its effect on the rest of the program.\<close>

definition acts_on_world :: "('f \<Rightarrow> ('f, 'w) program \<Rightarrow> ('f, 'w) program) \<Rightarrow> ('f \<Rightarrow> 'w \<Rightarrow> 'w) \<Rightarrow> 'f set \<Rightarrow> bool" where
  "acts_on_world run effect F \<longleftrightarrow> (\<forall>f\<in>F. \<forall>p. run f p = p\<lparr>world := effect f (world p)\<rparr>)"

lemma apply_empty: "atexit_func p = [] \<Longrightarrow> apply_atexit_chain run p = Some p"
  by (subst apply_atexit_chain.simps) (simp add: chain.pop_empty)

lemma apply_step:
  "atexit_func p = f # fs \<Longrightarrow>
   apply_atexit_chain run p = apply_atexit_chain run (run f (p\<lparr>atexit_func := fs\<rparr>))"
  by (subst apply_atexit_chain.simps) (simp add: atexit_chain_pop_def)

lemma apply_runs_all:
  assumes "acts_on_world run effect (set (atexit_func p))"
  shows "apply_atexit_chain run p = Some (p\<lparr>atexit_func := [], world := fold effect (atexit_func p) (world p)\<rparr>)"
  using assms
proof (induction "atexit_func p" arbitrary: p)
  case Nil
  then show ?case by (simp add: apply_empty)
next
  case (Cons f fs)
  let ?p = "run f (p\<lparr>atexit_func := fs\<rparr>)"
  have p: "?p = p\<lparr>atexit_func := fs, world := effect f (world p)\<rparr>"
    using Cons.prems unfolding acts_on_world_def Cons.hyps(2) [symmetric] by simp
  moreover have "acts_on_world run effect (set (atexit_func ?p))"
    using Cons.prems unfolding acts_on_world_def Cons.hyps(2) [symmetric] p by simp
  ultimately show ?case
    using Cons.hyps(1) [of ?p] apply_step [OF Cons.hyps(2) [symmetric], of run]
    by (simp flip: Cons.hyps(2))
qed

text \<open>
  C29. When the pushed functions leave the chain alone, the loop that exit runs ends: it
  calls every pushed function exactly once, the last pushed first, and leaves the chain
  empty, so that a second run does nothing.
\<close>

theorem atexit_chain_lifo:
  assumes "acts_on_world run effect (set fs)" "atexit_func p = []"
  shows "\<exists>p'. apply_atexit_chain run (fold atexit_chain_push fs p) = Some p'
    \<and> world p' = fold effect (rev fs) (world p) \<and> atexit_func p' = []
    \<and> apply_atexit_chain run p' = Some p'"
proof -
  have pend: "atexit_func (fold atexit_chain_push fs p) = rev fs"
    using chain.pending_fold [of fs p] assms(2) by simp
  have w: "world (fold atexit_chain_push fs p) = world p"
    by (induction fs arbitrary: p) (simp_all add: atexit_chain_push_def)
  show ?thesis
    using apply_runs_all [of run effect "fold atexit_chain_push fs p"] assms(1) pend w
    by (simp add: apply_empty)
qed

theorem atexit_chain_lifo_witness:
  "\<exists>p'. apply_atexit_chain (\<lambda>f p. p\<lparr>world := f # world p\<rparr>)
          (fold atexit_chain_push [1::nat, 2, 3] \<lparr>atexit_func = [], world = []\<rparr>) = Some p'
      \<and> world p' = [1, 2, 3] \<and> atexit_func p' = []
      \<and> apply_atexit_chain (\<lambda>f p. p\<lparr>world := f # world p\<rparr>) p' = Some p'"
  using atexit_chain_lifo [of "\<lambda>f p. p\<lparr>world := f # world p\<rparr>" "(#)" "[1::nat, 2, 3]"
      "\<lparr>atexit_func = [], world = []\<rparr>"]
  by (simp add: acts_on_world_def)

text \<open>A pop takes back the last push and nothing else.\<close>

lemma atexit_pop_push: "atexit_chain_pop (atexit_chain_push f p) = (Some f, p)"
  by (simp add: atexit_chain_push_def atexit_chain_pop_def)

end
