(* ===== verification/Security.thy ===== *)
theory Security
  imports Helper "HOL-Library.Word"
begin

unbundle bit_operations_syntax

text \<open>
  \<^verbatim>\<open>src/src/security.c\<close>: hexadecimal coding of keys, the recognition of blob keys,
  message digests and the reading of a key from the terminal.

  A buffer is a block of bytes; hex2bin and bin2hex work in place, so the functions here
  read cells of the block they overwrite.  OpenSSL is a parameter: a function from a
  message to its digest, or \<open>None\<close> where OpenSSL reports failure.
\<close>

section \<open>Bytes\<close>

definition BINKEY_LEN :: nat where "BINKEY_LEN = 32"
definition HEXKEY_LEN :: nat where "HEXKEY_LEN = 64"
definition BLOBKEY_LEN :: nat where "BLOBKEY_LEN = 67"
definition KEYSALT_LEN :: nat where "KEYSALT_LEN = 32"

abbreviation ch :: "char \<Rightarrow> byte" where "ch c \<equiv> of_char c"

definition byte_between :: "char \<Rightarrow> char \<Rightarrow> byte \<Rightarrow> bool" where
  "byte_between lo hi b \<longleftrightarrow> ch lo \<le> b \<and> b \<le> ch hi"

definition byte_isupper :: "byte \<Rightarrow> bool" where
  "byte_isupper = byte_between (CHR ''A'') (CHR ''Z'')"

definition byte_islower :: "byte \<Rightarrow> bool" where
  "byte_islower = byte_between (CHR ''a'') (CHR ''z'')"

definition byte_isdigit :: "byte \<Rightarrow> bool" where
  "byte_isdigit = byte_between (CHR ''0'') (CHR ''9'')"

section \<open>Hexadecimal\<close>

text \<open>char is signed: \<open>sint\<close> is the value the arithmetic is done on.\<close>

definition hexchar2decint :: "byte \<Rightarrow> int" where
  "hexchar2decint c =
     (if byte_isupper c then sint c - 65 + 10
      else if byte_islower c then sint c - 97 + 10
      else sint c - 48)"

definition decint2hexchar :: "byte \<Rightarrow> byte" where
  "decint2hexchar n = (if n < 10 then n + ch (CHR ''0'') else n - 10 + ch (CHR ''A''))"

definition byte_get :: "byte block \<Rightarrow> nat \<Rightarrow> byte res" where
  "byte_get b i = bind_res (mem_read b i 1) (\<lambda>xs. Ok (hd xs))"

definition byte_set :: "byte block \<Rightarrow> nat \<Rightarrow> byte \<Rightarrow> byte block res" where
  "byte_set b i x = mem_write b i [x]"

text \<open>
  One round of hex2bin: \<open>i\<close> is the offset of \<^verbatim>\<open>bin_iter\<close>, \<open>at + 2 * i\<close>, of
  \<^verbatim>\<open>hex0\<close>, both in the same buffer, from offset \<open>at\<close> on.
\<close>

definition hex2bin_round :: "nat \<Rightarrow> byte block \<Rightarrow> nat \<Rightarrow> byte block res" where
  "hex2bin_round at b i =
     bind_res (byte_get b (at + 2 * i)) (\<lambda>c0.
     bind_res (byte_get b (at + 2 * i + 1)) (\<lambda>c1.
       if hexchar2decint c0 < 0 then Halt (Undef ''left shift of a negative value'')
       else byte_set b (at + i)
              (word_of_int (push_bit 4 (hexchar2decint c0) OR hexchar2decint c1))))"

definition hex2bin :: "byte block \<Rightarrow> nat \<Rightarrow> size_t \<Rightarrow> (byte block \<times> size_t) res" where
  "hex2bin b at hex_len =
     (let bin_len = hex_len div 2
      in bind_res (fold_res (hex2bin_round at) b [0 ..< bin_len]) (\<lambda>b. Ok (b, bin_len)))"

text \<open>One round of bin2hex, which reads the byte at \<open>i\<close> before each of the two stores.\<close>

definition bin2hex_round :: "byte block \<Rightarrow> nat \<Rightarrow> byte block res" where
  "bin2hex_round b i =
     bind_res (byte_get b i) (\<lambda>x.
     bind_res (byte_set b (2 * i + 1) (decint2hexchar (x AND 0x0F))) (\<lambda>b.
     bind_res (byte_get b i) (\<lambda>x.
       byte_set b (2 * i) (decint2hexchar (drop_bit 4 x)))))"

definition bin2hex :: "byte block \<Rightarrow> size_t \<Rightarrow> (byte block \<times> size_t) res" where
  "bin2hex bin0 bin_len =
     (let hex_len = sz_wrap (bin_len * 2)
      in if ALLOC_MAX < hex_len + 1 then Halt (Die ''out of memory, realloc failed'')
         else bind_res (fold_res bin2hex_round (resize_block bin0 (hex_len + 1)) (rev [0 ..< bin_len])) (\<lambda>b.
              bind_res (byte_set b hex_len 0) (\<lambda>b. Ok (b, hex_len))))"

definition bin2blob :: "byte block \<Rightarrow> size_t \<Rightarrow> (byte block \<times> size_t) res" where
  "bin2blob bin bin_len =
     bind_res (bin2hex bin bin_len) (\<lambda>(hex, hex_len).
     let blob_len = hex_len + 3
     in bind_res (xmalloc (blob_len + 1)) (\<lambda>blob.
        bind_res (byte_set blob 0 (ch (CHR ''x''))) (\<lambda>blob.
        bind_res (byte_set blob 1 (ch (CHR 0x27))) (\<lambda>blob.
        bind_res (mem_read hex 0 hex_len) (\<lambda>digits.
        bind_res (mem_write blob 2 digits) (\<lambda>blob.
        bind_res (byte_set blob (blob_len - 1) (ch (CHR 0x27))) (\<lambda>blob.
        bind_res (byte_set blob blob_len 0) (\<lambda>blob. Ok (blob, blob_len)))))))))"

definition blob2bin :: "byte block \<Rightarrow> size_t \<Rightarrow> (byte block \<times> size_t) res" where
  "blob2bin blob blob_len =
     bind_res (hex2bin blob 2 (sz_sub blob_len 3)) (\<lambda>(blob, bin_len).
     bind_res (mem_read blob 2 bin_len) (\<lambda>bin.
     bind_res (mem_write blob 0 bin) (\<lambda>blob. Ok (blob, bin_len))))"

section \<open>Blob keys\<close>

text \<open>Reading past the last byte finds the terminating NUL, which no test accepts.\<close>

fun is_hexstr :: "byte list \<Rightarrow> size_t \<Rightarrow> bool" where
  "is_hexstr str 0 = True"
| "is_hexstr [] (Suc len) = False"
| "is_hexstr (c # str) (Suc len) =
     (if \<not> in_range_i c (ch (CHR ''A'')) (ch (CHR ''F''))
         \<and> \<not> in_range_i c (ch (CHR ''a'')) (ch (CHR ''f''))
         \<and> \<not> byte_isdigit c
      then False else is_hexstr str len)"

fun is_saltstr :: "byte list \<Rightarrow> size_t \<Rightarrow> bool" where
  "is_saltstr str 0 = True"
| "is_saltstr [] (Suc len) = False"
| "is_saltstr (c # str) (Suc len) =
     (if c \<noteq> ch (CHR ''0'') \<and> c \<noteq> ch (CHR ''1'') then False else is_saltstr str len)"

definition is_blob_key :: "byte list \<Rightarrow> size_t \<Rightarrow> bool" where
  "is_blob_key key len =
     (if len \<noteq> BLOBKEY_LEN \<and> len \<noteq> BLOBKEY_LEN + KEYSALT_LEN then False
      else if key ! 0 \<noteq> ch (CHR ''x'') \<or> key ! 1 \<noteq> ch (CHR 0x27) \<or> key ! (len - 1) \<noteq> ch (CHR 0x27)
      then False
      else if \<not> is_hexstr (drop 2 key) HEXKEY_LEN then False
      else if len = BLOBKEY_LEN + KEYSALT_LEN
      then (if \<not> is_saltstr (drop (2 + HEXKEY_LEN) key) KEYSALT_LEN then False else True)
      else True)"

section \<open>Random bytes and digests\<close>

text \<open>
  \<open>rand len\<close> is what RAND_bytes stores, or \<open>None\<close> when it fails.  The result is the
  return value and the pointer left in \<^verbatim>\<open>*buf\<close>.
\<close>

definition random_bytes_routine ::
    "(size_t \<Rightarrow> byte list option) \<Rightarrow> byte block option \<Rightarrow> size_t \<Rightarrow> bool \<Rightarrow> (int \<times> byte block option) res" where
  "random_bytes_routine rand buf len alloc_mem =
     bind_res (if alloc_mem then bind_res (xmalloc len) (\<lambda>b. Ok (Some b)) else Ok buf) (\<lambda>buf.
       case rand len of
         None \<Rightarrow> Ok (-1, None)
       | Some bytes \<Rightarrow>
           (case buf of
              None \<Rightarrow> Halt (Undef ''RAND_bytes stores through NULL'')
            | Some b \<Rightarrow> bind_res (mem_write b 0 bytes) (\<lambda>b. Ok (0, Some b))))"

definition digest_message_sha256 :: "(byte list \<Rightarrow> byte list option) \<Rightarrow> byte list \<Rightarrow> byte list res" where
  "digest_message_sha256 sha256 message =
     (case sha256 message of
        None \<Rightarrow> Halt (Die ''An error occured while getting message digest'')
      | Some out \<Rightarrow> Ok out)"

text \<open>The sign of memcmp over \<open>n\<close> bytes.\<close>

fun c_memcmp :: "byte list \<Rightarrow> byte list \<Rightarrow> nat \<Rightarrow> int res" where
  "c_memcmp xs ys 0 = Ok 0"
| "c_memcmp (x # xs) (y # ys) (Suc n) =
     (if x = y then c_memcmp xs ys n else Ok (if x < y then -1 else 1))"
| "c_memcmp xs ys (Suc n) = Halt (Undef ''memcmp reads outside an object'')"

definition verify_digest_sha256 ::
    "(byte list \<Rightarrow> byte list option) \<Rightarrow> byte list \<Rightarrow> byte list \<Rightarrow> int res" where
  "verify_digest_sha256 sha256 message prev_digest =
     bind_res (digest_message_sha256 sha256 message) (\<lambda>next_digest.
       c_memcmp next_digest prev_digest 32)"

section \<open>Reading a key\<close>

text \<open>
  What the next getline on stdin returns: a line (never empty; it ends with a newline
  unless the input ends there), the end of the input, or a read error.
\<close>

datatype input_event = InLine string | InEof | InError

record terminal =
  echo :: bool
  can_setattr :: bool

definition termios_disable_echo :: "terminal \<Rightarrow> int \<times> terminal" where
  "termios_disable_echo tm = (if can_setattr tm then (0, tm\<lparr>echo := False\<rparr>) else (-1, tm))"

definition termios_restore_config :: "terminal \<Rightarrow> terminal \<Rightarrow> terminal" where
  "termios_restore_config old tm = tm\<lparr>echo := echo old\<rparr>"

text \<open>\<^verbatim>\<open>while (key[len - 1] == '\n') key[--len] = 0;\<close>\<close>

definition strip_newlines :: "string \<Rightarrow> string" where
  "strip_newlines key = rev (dropWhile (\<lambda>c. c = NL) (rev key))"

text \<open>
  The loop around \<^verbatim>\<open>retry\<close>: the key stored in \<^verbatim>\<open>*key0\<close>, \<open>None\<close> when nothing
  is stored, and the input that is left.
\<close>

fun read_key_loop :: "input_event list \<Rightarrow> (string option \<times> input_event list) res" where
  "read_key_loop [] = Ok (None, [])"
| "read_key_loop (InEof # evs) = Ok (None, evs)"
| "read_key_loop (InError # evs) = Halt (Die ''An error occurred while getting input'')"
| "read_key_loop (InLine line # evs) =
     (if line = [NL] then read_key_loop evs
      else if strip_newlines line = [] then Halt (Undef ''key[-1] is read'')
      else Ok (Some (strip_newlines line), evs))"

definition read_cmdkey ::
    "terminal \<Rightarrow> input_event list \<Rightarrow> (size_t \<times> string option \<times> terminal \<times> input_event list) res" where
  "read_cmdkey tm evs =
     (case termios_disable_echo tm of (rc, tm') \<Rightarrow>
        let no_setattr = (rc = -1)
        in bind_res (read_key_loop evs) (\<lambda>(key, evs).
             Ok (case key of None \<Rightarrow> 0 | Some k \<Rightarrow> length k, key,
                 (if \<not> no_setattr then termios_restore_config tm tm' else tm'), evs)))"

section \<open>Coding and decoding\<close>

text \<open>Reference: two digits for each byte, and the byte two digits stand for.\<close>

definition hex_pair :: "byte \<Rightarrow> byte list" where
  "hex_pair x = [decint2hexchar (drop_bit 4 x), decint2hexchar (x AND 0x0F)]"

definition hex_encode :: "byte list \<Rightarrow> byte list" where
  "hex_encode bs = concat (map hex_pair bs)"

definition pair_value :: "byte \<Rightarrow> byte \<Rightarrow> byte" where
  "pair_value c0 c1 = word_of_int (push_bit 4 (hexchar2decint c0) OR hexchar2decint c1)"

fun hex_decode :: "byte list \<Rightarrow> byte list" where
  "hex_decode (c0 # c1 # cs) = pair_value c0 c1 # hex_decode cs"
| "hex_decode cs = []"

definition is_hexdigit :: "byte \<Rightarrow> bool" where
  "is_hexdigit c \<longleftrightarrow> byte_isdigit c \<or> byte_between (CHR ''A'') (CHR ''F'') c \<or> byte_between (CHR ''a'') (CHR ''f'') c"

lemma length_hex_encode [simp]: "length (hex_encode bs) = 2 * length bs"
  by (induction bs) (auto simp: hex_encode_def hex_pair_def)

lemma nth_hex_encode:
  "i < length bs \<Longrightarrow> hex_encode bs ! (2 * i) = decint2hexchar (drop_bit 4 (bs ! i))
    \<and> hex_encode bs ! Suc (2 * i) = decint2hexchar (bs ! i AND 0x0F)"
proof (induction bs arbitrary: i)
  case (Cons x bs)
  then show ?case
    by (cases i) (auto simp: hex_encode_def hex_pair_def)
qed simp

lemma small_nibble: "n \<le> (15 :: byte) \<Longrightarrow> n \<in> set (map of_nat [0 ..< 16])"
proof -
  assume "n \<le> 15"
  then have "unat n < 16" by (simp add: word_le_nat_alt)
  then show ?thesis by (auto intro!: image_eqI [of _ _ "unat n"])
qed

lemma nibble_facts:
  assumes "n \<le> (15 :: byte)"
  shows "hexchar2decint (decint2hexchar n) = uint n" "is_hexdigit (decint2hexchar n)"
proof -
  have "\<forall>n\<in>set (map (of_nat :: nat \<Rightarrow> byte) [0 ..< 16]).
      hexchar2decint (decint2hexchar n) = uint n \<and> is_hexdigit (decint2hexchar n)"
    by (simp add: hexchar2decint_def decint2hexchar_def is_hexdigit_def byte_isupper_def byte_islower_def
        byte_isdigit_def byte_between_def upt_rec)
  with small_nibble [OF assms] show "hexchar2decint (decint2hexchar n) = uint n"
    "is_hexdigit (decint2hexchar n)" by blast+
qed

lemma nibbles: "drop_bit 4 x \<le> (15 :: byte)" "x AND 0x0F \<le> (15 :: byte)"
proof -
  have "uint x < 256" using uint_bounded [of x] by simp
  then have "uint x div 16 \<le> 15" by presburger
  then show "drop_bit 4 x \<le> (15 :: byte)"
    by (simp add: word_le_def drop_bit_eq_div uint_div_distrib)
  show "x AND 0x0F \<le> (15 :: byte)" by (rule word_and_le1)
qed

lemma pair_value_pair:
  "pair_value (decint2hexchar (drop_bit 4 x)) (decint2hexchar (x AND 0x0F)) = x"
proof -
  have "pair_value (decint2hexchar (drop_bit 4 x)) (decint2hexchar (x AND 0x0F))
      = word_of_int (push_bit 4 (uint (drop_bit 4 x)) OR uint (x AND 0x0F))"
    by (simp only: pair_value_def nibble_facts(1) [OF nibbles(1)] nibble_facts(1) [OF nibbles(2)])
  also have "\<dots> = push_bit 4 (drop_bit 4 x) OR take_bit 4 x"
    by (rule bit_word_eqI)
       (auto simp: bit_word_of_int_iff bit_or_iff bit_push_bit_iff bit_uint_iff bit_drop_bit_eq
          take_bit_eq_mask mask_eq_exp_minus_1)
  also have "\<dots> = x" by (rule bit_eqI) (auto simp: bit_simps)
  finally show ?thesis .
qed

lemma hex_decode_encode: "hex_decode (hex_encode bs) = bs"
  by (induction bs) (simp_all add: hex_encode_def hex_pair_def pair_value_pair)

lemma hex_encode_digits: "c \<in> set (hex_encode bs) \<Longrightarrow> is_hexdigit c"
  using nibbles nibble_facts(2) by (auto simp: hex_encode_def hex_pair_def)

lemma length_hex_decode: "length (hex_decode cs) = length cs div 2"
  by (induction cs rule: hex_decode.induct) auto

lemma nth_hex_decode:
  "i < length cs div 2 \<Longrightarrow> hex_decode cs ! i = pair_value (cs ! (2 * i)) (cs ! Suc (2 * i))"
  by (induction cs arbitrary: i rule: hex_decode.induct) (auto simp: nth_Cons split: nat.splits)

lemma hexdigit_nonneg: "is_hexdigit c \<Longrightarrow> 0 \<le> hexchar2decint c"
proof -
  assume "is_hexdigit c"
  then have "48 \<le> uint c \<and> uint c \<le> 57 \<or> 65 \<le> uint c \<and> uint c \<le> 70 \<or> 97 \<le> uint c \<and> uint c \<le> 102"
    by (auto simp: is_hexdigit_def byte_isdigit_def byte_between_def word_le_def)
  moreover from this have "sint c = uint c" by (auto simp: sint_uint signed_take_bit_int_eq_self)
  ultimately show ?thesis
    by (auto simp: hexchar2decint_def byte_isupper_def byte_islower_def byte_between_def word_le_def)
qed

lemma is_hexstr_iff:
  "is_hexstr str len \<longleftrightarrow> len \<le> length str \<and> (\<forall>c\<in>set (take len str). is_hexdigit c)"
  by (induction str len rule: is_hexstr.induct)
     (auto simp: in_range_i_def is_hexdigit_def byte_between_def)

lemma is_saltstr_iff:
  "is_saltstr str len \<longleftrightarrow> len \<le> length str \<and> set (take len str) \<subseteq> {ch (CHR ''0''), ch (CHR ''1'')}"
  by (induction str len rule: is_saltstr.induct) auto

section \<open>The in-place loops\<close>

lemma byte_get_at: "i < length b \<Longrightarrow> b ! i = Some x \<Longrightarrow> byte_get b i = Ok x"
  by (simp add: byte_get_def mem_read_def take_Suc hd_drop_conv_nth)

lemma byte_set_at: "i < length b \<Longrightarrow> byte_set b i x = Ok (b[i := Some x])"
  by (simp add: byte_set_def mem_write_def upd_conv_take_nth_drop)

text \<open>
  After \<open>k\<close> rounds of hex2bin the first \<open>k\<close> cells hold the decoded bytes and the rest is
  as it was; round \<open>k\<close> reads at \<open>2 * k\<close>, which no round before it has written.
\<close>

lemma hex2bin_rounds:
  assumes "at + length cs \<le> length b" "\<forall>j<length cs. b ! (at + j) = Some (cs ! j)"
    "\<forall>c\<in>set cs. is_hexdigit c" "k \<le> length cs div 2"
  shows "\<exists>b'. fold_res (hex2bin_round at) b [0 ..< k] = Ok b' \<and> length b' = length b
    \<and> (\<forall>j. b' ! j = (if at \<le> j \<and> j < at + k then Some (hex_decode cs ! (j - at)) else b ! j))"
  using assms(4)
proof (induction k)
  case (Suc k)
  then obtain b' where b': "fold_res (hex2bin_round at) b [0 ..< k] = Ok b'" "length b' = length b"
      "\<forall>j. b' ! j = (if at \<le> j \<and> j < at + k then Some (hex_decode cs ! (j - at)) else b ! j)"
    by auto
  have k: "k < length cs div 2" "2 * k < length cs" "Suc (2 * k) < length cs"
    using Suc.prems by auto
  have g: "byte_get b' (at + 2 * k) = Ok (cs ! (2 * k))" "byte_get b' (at + 2 * k + 1) = Ok (cs ! Suc (2 * k))"
    using k assms(1,2) b'(2,3) by (auto intro!: byte_get_at)
  have "is_hexdigit (cs ! (2 * k))" using assms(3) k by auto
  then have "hex2bin_round at b' k = Ok (b'[at + k := Some (hex_decode cs ! k)])"
    using g k hexdigit_nonneg assms(1) b'(2)
    by (simp add: hex2bin_round_def byte_set_at nth_hex_decode pair_value_def not_less)
  then show ?case
    using b' assms(1) k by (auto simp: fold_res_append nth_list_update)
qed auto

lemma hex2bin_decodes:
  assumes "b = pre @ map Some cs @ post" "\<forall>c\<in>set cs. is_hexdigit c" "even (length cs)"
  shows "hex2bin b (length pre) (length cs)
    = Ok (pre @ map Some (hex_decode cs) @ drop (length pre + length cs div 2) b, length cs div 2)"
proof -
  let ?n = "length cs div 2"
  obtain b' where b': "fold_res (hex2bin_round (length pre)) b [0 ..< ?n] = Ok b'" "length b' = length b"
      "\<forall>j. b' ! j = (if length pre \<le> j \<and> j < length pre + ?n then Some (hex_decode cs ! (j - length pre)) else b ! j)"
    using hex2bin_rounds [of "length pre" cs b ?n] assms by (auto simp: nth_append)
  have "b' = pre @ map Some (hex_decode cs) @ drop (length pre + ?n) b"
  proof (rule nth_equalityI)
    show "length b' = length (pre @ map Some (hex_decode cs) @ drop (length pre + ?n) b)"
      using b'(2) assms(1) by (simp add: length_hex_decode)
    fix j assume "j < length b'"
    then show "b' ! j = (pre @ map Some (hex_decode cs) @ drop (length pre + ?n) b) ! j"
      using b'(2,3) assms(1) by (auto simp: nth_append length_hex_decode)
  qed
  then show ?thesis using b'(1) by (simp add: hex2bin_def Let_def)
qed

text \<open>
  bin2hex runs from the last byte down; when it reaches byte \<open>k\<close> every cell below
  \<open>2 * (k + 1)\<close> is still as it was.
\<close>

lemma bin2hex_rounds:
  assumes "2 * length bs \<le> length b" "\<forall>j<length bs. b ! j = Some (bs ! j)" "k \<le> length bs"
  shows "\<exists>b'. fold_res bin2hex_round b (rev [k ..< length bs]) = Ok b' \<and> length b' = length b
    \<and> (\<forall>j. b' ! j = (if 2 * k \<le> j \<and> j < 2 * length bs then Some (hex_encode bs ! j) else b ! j))"
  using assms(3)
proof (induction k rule: inc_induct)
  case base
  then show ?case by auto
next
  case (step k)
  then obtain b' where b': "fold_res bin2hex_round b (rev [Suc k ..< length bs]) = Ok b'" "length b' = length b"
      "\<forall>j. b' ! j = (if 2 * Suc k \<le> j \<and> j < 2 * length bs then Some (hex_encode bs ! j) else b ! j)"
    by auto
  have k: "k < length bs" "k < length b'" "2 * k + 1 < length b'" using step b'(2) assms(1) by auto
  let ?lo = "decint2hexchar (bs ! k AND 0x0F)"
  let ?hi = "decint2hexchar (drop_bit 4 (bs ! k))"
  have x: "byte_get b' k = Ok (bs ! k)" "byte_get (b'[2 * k + 1 := Some ?lo]) k = Ok (bs ! k)"
    using k b'(3) assms(2) by (auto intro!: byte_get_at)
  have r: "bin2hex_round b' k = Ok (b'[2 * k + 1 := Some ?lo, 2 * k := Some ?hi])"
    unfolding bin2hex_round_def x(1) bind_res.simps
    using k x(2) by (simp add: byte_set_at)
  have up: "rev [k ..< length bs] = rev [Suc k ..< length bs] @ [k]"
    using k by (simp add: upt_rec)
  have "(b'[2 * k + 1 := Some ?lo, 2 * k := Some ?hi]) ! j
      = (if 2 * k \<le> j \<and> j < 2 * length bs then Some (hex_encode bs ! j) else b ! j)" for j
    using nth_hex_encode [OF k(1)] k b'(2,3) by (auto simp: nth_list_update) 
  then show ?case
    unfolding up using b'(1,2) r by (simp add: fold_res_append)
qed

lemma bin2hex_encodes:
  assumes "length bs \<le> SAFE_SIZE"
  shows "bin2hex (map Some bs) (length bs) = Ok (map Some (hex_encode bs @ [0]), 2 * length bs)"
proof -
  let ?n = "length bs"
  let ?b = "resize_block (map Some bs) (2 * ?n + 1)"
  have w: "sz_wrap (?n * 2) = 2 * ?n" "\<not> ALLOC_MAX < 2 * ?n + 1"
    using assms by (simp_all add: size_bounds mult.commute)
  have "\<forall>j<?n. ?b ! j = Some (bs ! j)"
    by (simp add: resize_block_def nth_append)
  then obtain b' where b': "fold_res bin2hex_round ?b (rev [0 ..< ?n]) = Ok b'" "length b' = 2 * ?n + 1"
      "\<forall>j. b' ! j = (if j < 2 * ?n then Some (hex_encode bs ! j) else ?b ! j)"
    using bin2hex_rounds [of bs ?b 0] by auto
  have "b'[2 * ?n := Some 0] = map Some (hex_encode bs @ [0])"
    by (rule nth_equalityI) (use b'(2,3) in \<open>auto simp: nth_append nth_list_update less_Suc_eq\<close>)
  then show ?thesis
    using b'(1,2) w by (simp add: bin2hex_def Let_def byte_set_at)
qed

text \<open>
  C22. Turning bytes into hexadecimal and back, both in place, restores the bytes: bin2hex
  yields a NUL-terminated string of two hexadecimal digits for each byte, and hex2bin of
  that string leaves the original bytes at the start of the buffer.
\<close>

theorem hex_roundtrip:
  assumes "length bs \<le> SAFE_SIZE"
  shows "\<exists>hex b'. bin2hex (map Some bs) (length bs) = Ok (map Some (hex @ [0]), 2 * length bs)
    \<and> length hex = 2 * length bs \<and> (\<forall>c\<in>set hex. is_hexdigit c)
    \<and> hex2bin (map Some (hex @ [0])) 0 (2 * length bs) = Ok (b', length bs)
    \<and> mem_read b' 0 (length bs) = Ok bs"
proof -
  have "hex2bin (map Some (hex_encode bs @ [0])) 0 (2 * length bs)
      = Ok (map Some bs @ drop (length bs) (map Some (hex_encode bs @ [0])), length bs)"
    using hex2bin_decodes [of "map Some (hex_encode bs @ [0])" "[]" "hex_encode bs" "[Some 0]"]
    by (simp add: hex_encode_digits hex_decode_encode)
  moreover have "mem_read (map Some bs @ drop (length bs) (map Some (hex_encode bs @ [0]))) 0 (length bs) = Ok bs"
    by (rule mem_read_prefix) simp_all
  ultimately show ?thesis
    using bin2hex_encodes [OF assms]
    by (intro exI [of _ "hex_encode bs"]) (auto simp: hex_encode_digits)
qed

theorem hex_roundtrip_witness:
  "let bs = [0xDE, 0xAD, 7]
   in \<exists>hex b'. bin2hex (map Some bs) (length bs) = Ok (map Some (hex @ [0]), 2 * length bs)
    \<and> length hex = 2 * length bs \<and> (\<forall>c\<in>set hex. is_hexdigit c)
    \<and> hex2bin (map Some (hex @ [0])) 0 (2 * length bs) = Ok (b', length bs)
    \<and> mem_read b' 0 (length bs) = Ok bs"
  unfolding Let_def by (rule hex_roundtrip) (simp add: SAFE_SIZE_def)

section \<open>Blob keys\<close>

definition blob_text :: "byte list \<Rightarrow> byte list" where
  "blob_text body = ch (CHR ''x'') # ch (CHR 0x27) # body @ [ch (CHR 0x27)]"

lemma blob_textI:
  assumes "3 \<le> length key" "key ! 0 = ch (CHR ''x'')" "key ! 1 = ch (CHR 0x27)"
    "key ! (length key - 1) = ch (CHR 0x27)"
  shows "key = blob_text (take (length key - 3) (drop 2 key))"
proof (rule nth_equalityI)
  fix i assume "i < length key"
  then consider "i = 0" | "i = 1" | "2 \<le> i" "i < length key - 1" | "i = length key - 1"
    by linarith
  then show "key ! i = blob_text (take (length key - 3) (drop 2 key)) ! i"
    using assms by cases (auto simp: blob_text_def nth_Cons nth_append numeral_2_eq_2 split: nat.splits)
qed (use assms(1) in \<open>simp add: blob_text_def\<close>)

lemma is_blob_body:
  assumes "length hex = 64" "\<forall>c\<in>set hex. is_hexdigit c"
    "salt = [] \<or> length salt = 32 \<and> set salt \<subseteq> {ch (CHR ''0''), ch (CHR ''1'')}"
  shows "is_blob_key (blob_text (hex @ salt)) (length (blob_text (hex @ salt)))"
  using assms
  by (auto simp: is_blob_key_def blob_text_def BLOBKEY_LEN_def KEYSALT_LEN_def HEXKEY_LEN_def
      is_hexstr_iff is_saltstr_iff nth_append)

text \<open>
  is_blob_key accepts exactly the strings x'H' and x'HS' where H is 64 hexadecimal
  digits and S is 32 characters that are all 0 or 1.
\<close>

theorem is_blob_key_iff:
  "is_blob_key key (length key) \<longleftrightarrow>
     (\<exists>hex salt. key = blob_text (hex @ salt) \<and> length hex = 64 \<and> (\<forall>c\<in>set hex. is_hexdigit c)
       \<and> (salt = [] \<or> length salt = 32 \<and> set salt \<subseteq> {ch (CHR ''0''), ch (CHR ''1'')}))"
proof
  assume "\<exists>hex salt. key = blob_text (hex @ salt) \<and> length hex = 64 \<and> (\<forall>c\<in>set hex. is_hexdigit c)
       \<and> (salt = [] \<or> length salt = 32 \<and> set salt \<subseteq> {ch (CHR ''0''), ch (CHR ''1'')})"
  then show "is_blob_key key (length key)"
    using is_blob_body by blast
next
  assume k: "is_blob_key key (length key)"
  then have len: "length key = 67 \<or> length key = 99"
    and fr: "key ! 0 = ch (CHR ''x'')" "key ! 1 = ch (CHR 0x27)" "key ! (length key - 1) = ch (CHR 0x27)"
    and hex: "is_hexstr (drop 2 key) 64"
    and salt: "length key = 99 \<Longrightarrow> is_saltstr (drop 66 key) 32"
    by (auto simp: is_blob_key_def BLOBKEY_LEN_def KEYSALT_LEN_def HEXKEY_LEN_def split: if_splits)
  define body where "body = take (length key - 3) (drop 2 key)"
  have key: "key = blob_text body"
    unfolding body_def by (rule blob_textI) (use len fr in auto)
  have lb: "length body = length key - 3" by (simp add: body_def)
  have h: "take 64 body = take 64 (drop 2 key)" "drop 64 body = take (length key - 67) (drop 66 key)"
    using len by (auto simp: body_def drop_take)
  have "\<forall>c\<in>set (take 64 body). is_hexdigit c" "length (take 64 body) = 64"
    using hex lb len unfolding h by (auto simp: is_hexstr_iff)
  moreover have "drop 64 body = [] \<or> length (drop 64 body) = 32 \<and> set (drop 64 body) \<subseteq> {ch (CHR ''0''), ch (CHR ''1'')}"
    using len salt unfolding h by (auto simp: is_saltstr_iff)
  ultimately show "\<exists>hex salt. key = blob_text (hex @ salt) \<and> length hex = 64 \<and> (\<forall>c\<in>set hex. is_hexdigit c)
       \<and> (salt = [] \<or> length salt = 32 \<and> set salt \<subseteq> {ch (CHR ''0''), ch (CHR ''1'')})"
    using key by (intro exI [of _ "take 64 body"] exI [of _ "drop 64 body"]) simp
qed

theorem is_blob_key_iff_witness:
  "is_blob_key (blob_text (replicate 64 (ch (CHR ''a'')))) (length (blob_text (replicate 64 (ch (CHR ''a'')))))"
  unfolding is_blob_key_iff
  by (intro exI [of _ "replicate 64 (ch (CHR ''a''))"] exI [of _ "[]"])
     (simp add: is_hexdigit_def byte_between_def)

lemma replicate_frame: "replicate (4 + n) x = x # x # replicate n x @ [x, x]"
proof -
  have "4 + n = 2 + (n + 2)" by simp
  then have "replicate (4 + n) x = replicate 2 x @ replicate n x @ replicate 2 x"
    by (simp only: replicate_add)
  then show ?thesis by (simp add: numeral_2_eq_2 del: replicate_add)
qed

lemma bin2blob_text:
  assumes "length bs \<le> SAFE_SIZE"
  shows "bin2blob (map Some bs) (length bs)
    = Ok (map Some (blob_text (hex_encode bs) @ [0]), 2 * length bs + 3)"
proof -
  let ?n = "2 * length bs"
  let ?x = "ch (CHR ''x'')" and ?q = "ch (CHR 0x27)"
  have "(xmalloc (?n + 3 + 1) :: byte block res) = Ok (None # None # replicate ?n None @ [None, None])"
    using assms replicate_frame [of ?n None] by (simp add: xmalloc_def size_bounds add.commute)
  moreover have "mem_read (map Some (hex_encode bs @ [0])) 0 ?n = Ok (hex_encode bs)"
    by (rule mem_read_prefix) simp_all
  moreover have "mem_write (Some ?x # Some ?q # replicate ?n None @ [None, None]) 2 (hex_encode bs)
      = Ok (Some ?x # Some ?q # map Some (hex_encode bs) @ [None, None])"
    by (simp add: mem_write_def numeral_2_eq_2)
  moreover have "(Some ?x # Some ?q # map Some (hex_encode bs) @ [None, None])[?n + 3 - 1 := Some ?q]
      = Some ?x # Some ?q # map Some (hex_encode bs) @ [Some ?q, None]"
    by (simp add: numeral_3_eq_3 list_update_append)
  moreover have "(Some ?x # Some ?q # map Some (hex_encode bs) @ [Some ?q, None])[?n + 3 := Some 0]
      = map Some (blob_text (hex_encode bs) @ [0])"
    by (simp add: numeral_3_eq_3 list_update_append blob_text_def)
  ultimately show ?thesis
    using bin2hex_encodes [OF assms]
    by (simp add: bin2blob_def Let_def byte_set_at)
qed

lemma blob2bin_text:
  assumes "\<forall>c\<in>set hex. is_hexdigit c" "even (length hex)" "length hex \<le> SAFE_SIZE"
  shows "\<exists>b'. blob2bin (map Some (blob_text hex @ [0])) (length hex + 3) = Ok (b', length hex div 2)
    \<and> mem_read b' 0 (length hex div 2) = Ok (hex_decode hex)"
proof -
  let ?b = "map Some (blob_text hex @ [0])"
  let ?n = "length hex div 2"
  let ?pre = "[Some (ch (CHR ''x'')), Some (ch (CHR 0x27))]"
  let ?b1 = "?pre @ map Some (hex_decode hex) @ drop (2 + ?n) ?b"
  have "sz_sub (length hex + 3) 3 = length hex"
    using assms(3) by (simp add: size_bounds)
  moreover have "hex2bin ?b 2 (length hex) = Ok (?b1, ?n)"
    using hex2bin_decodes [of ?b ?pre hex "[Some (ch (CHR 0x27)), Some 0]"] assms(1,2)
    by (simp add: blob_text_def numeral_2_eq_2 del: mult_Suc)
  moreover have "mem_read ?b1 2 ?n = Ok (hex_decode hex)"
    by (simp add: mem_read_def length_hex_decode comp_def)
  moreover have "mem_write ?b1 0 (hex_decode hex) = Ok (map Some (hex_decode hex) @ drop ?n ?b1)"
    by (simp add: mem_write_def length_hex_decode)
  moreover have "mem_read (map Some (hex_decode hex) @ drop ?n ?b1) 0 ?n = Ok (hex_decode hex)"
    by (rule mem_read_prefix) (simp_all add: length_hex_decode)
  ultimately show ?thesis
    by (simp add: blob2bin_def)
qed

text \<open>
  A 32 byte key written as a blob is recognised by is_blob_key, and blob2bin gives the
  32 bytes back: bin2blob, is_blob_key and blob2bin agree on the format.
\<close>

theorem blob_key_roundtrip:
  assumes "length bs = BINKEY_LEN"
  shows "\<exists>key b'. bin2blob (map Some bs) BINKEY_LEN = Ok (map Some (key @ [0]), BLOBKEY_LEN)
    \<and> is_blob_key key (length key)
    \<and> blob2bin (map Some (key @ [0])) BLOBKEY_LEN = Ok (b', BINKEY_LEN)
    \<and> mem_read b' 0 BINKEY_LEN = Ok bs"
proof -
  let ?hex = "hex_encode bs"
  let ?key = "blob_text ?hex"
  have len: "length ?hex = 64" using assms by (simp add: BINKEY_LEN_def)
  have "is_blob_key ?key (length ?key)"
    using is_blob_body [of ?hex "[]"] len by (simp add: hex_encode_digits)
  moreover have "bin2blob (map Some bs) BINKEY_LEN = Ok (map Some (?key @ [0]), BLOBKEY_LEN)"
    using bin2blob_text [of bs] assms by (simp add: BINKEY_LEN_def BLOBKEY_LEN_def SAFE_SIZE_def)
  moreover obtain b' where "blob2bin (map Some (?key @ [0])) BLOBKEY_LEN = Ok (b', BINKEY_LEN)"
      "mem_read b' 0 BINKEY_LEN = Ok bs"
    using blob2bin_text [of ?hex] len
    by (auto simp: hex_encode_digits hex_decode_encode BINKEY_LEN_def BLOBKEY_LEN_def SAFE_SIZE_def)
  ultimately show ?thesis by blast
qed

theorem blob_key_roundtrip_witness:
  "let bs = replicate 31 0x5A @ [7]
   in \<exists>key b'. bin2blob (map Some bs) BINKEY_LEN = Ok (map Some (key @ [0]), BLOBKEY_LEN)
    \<and> is_blob_key key (length key)
    \<and> blob2bin (map Some (key @ [0])) BLOBKEY_LEN = Ok (b', BINKEY_LEN)
    \<and> mem_read b' 0 BINKEY_LEN = Ok bs"
  unfolding Let_def by (rule blob_key_roundtrip) (simp add: BINKEY_LEN_def)

section \<open>Digests\<close>

lemma c_memcmp_eq:
  assumes "n \<le> length xs" "n \<le> length ys"
  shows "\<exists>r. c_memcmp xs ys n = Ok r \<and> (r = 0 \<longleftrightarrow> take n xs = take n ys)"
  using assms by (induction xs ys n rule: c_memcmp.induct) auto

text \<open>
  When OpenSSL computes 32 byte digests, verify_digest_sha256 returns 0 exactly when the
  stored digest is the digest of the message.
\<close>

theorem verify_digest_iff:
  assumes "sha256 message = Some d" "length d = 32" "length prev_digest = 32"
  shows "\<exists>r. verify_digest_sha256 sha256 message prev_digest = Ok r \<and> (r = 0 \<longleftrightarrow> prev_digest = d)"
  using c_memcmp_eq [of 32 d prev_digest] assms
  by (auto simp: verify_digest_sha256_def digest_message_sha256_def)

theorem verify_digest_iff_witness:
  "\<exists>r. verify_digest_sha256 (\<lambda>m. Some (take 32 (m @ replicate 32 0))) [1, 2] (1 # 2 # replicate 30 0) = Ok r
    \<and> (r = 0 \<longleftrightarrow> 1 # 2 # replicate 30 0 = take 32 ([1, 2 :: byte] @ replicate 32 0))"
  by (rule verify_digest_iff) simp_all

lemma digest_failure_dies:
  "sha256 message = None \<Longrightarrow> verify_digest_sha256 sha256 message d
     = Halt (Die ''An error occured while getting message digest'')"
  by (simp add: verify_digest_sha256_def digest_message_sha256_def)

section \<open>The key prompt\<close>

definition plain_line :: "input_event \<Rightarrow> bool" where
  "plain_line ev \<longleftrightarrow> (\<exists>s. ev = InLine (s @ [NL]) \<and> NL \<notin> set s)"

lemma strip_newlines_line: "NL \<notin> set s \<Longrightarrow> strip_newlines (s @ [NL]) = s"
  by (cases s rule: rev_cases) (auto simp: strip_newlines_def)

text \<open>
  read_cmdkey skips empty lines and returns the first line that is not empty, without
  its newline; the input after that line is left for the next prompt, and the terminal
  echoes again as it did before, whether or not its settings could be changed.
\<close>

theorem read_cmdkey_first_line:
  assumes "k \<noteq> []" "NL \<notin> set k"
  shows "read_cmdkey tm (replicate n (InLine [NL]) @ InLine (k @ [NL]) # rest)
    = Ok (length k, Some k, tm, rest)"
proof -
  have "k @ [NL] \<noteq> [NL]" using assms(1) by simp
  then have "read_key_loop (replicate n (InLine [NL]) @ InLine (k @ [NL]) # rest) = Ok (Some k, rest)"
    using assms by (induction n) (simp_all add: strip_newlines_line)
  then show ?thesis
    by (simp add: read_cmdkey_def termios_disable_echo_def termios_restore_config_def Let_def)
qed

theorem read_cmdkey_first_line_witness:
  "read_cmdkey \<lparr>echo = True, can_setattr = True\<rparr>
     (replicate 2 (InLine [NL]) @ InLine (''secret'' @ [NL]) # [InEof])
   = Ok (length ''secret'', Some ''secret'', \<lparr>echo = True, can_setattr = True\<rparr>, [InEof])"
  by (rule read_cmdkey_first_line) simp_all

text \<open>At the end of the input nothing is stored in \<^verbatim>\<open>*key0\<close>.\<close>

lemma read_cmdkey_eof: "read_cmdkey tm [InEof] = Ok (0, None, tm, [])"
  by (simp add: read_cmdkey_def termios_disable_echo_def termios_restore_config_def Let_def)

end
