(* ===== verification/Cipher_Config.thy ===== *)
theory Cipher_Config
  imports Strbuf Strutil Strlist Security
begin

unbundle bit_operations_syntax

text \<open>
  \<^verbatim>\<open>src/src/cipher-config.c\<close> and \<^verbatim>\<open>cipher-config.h\<close>: the cipher
  configuration, its file format (a sequence of fields: a type byte, an eight byte length,
  the data), the reader of that format, and the PRAGMA text built from a configuration.

  A pointer member is the memory it points to; \<open>AlgWild\<close> and \<open>KeyWild\<close> are pointers
  whose own bytes have been overwritten.
\<close>

section \<open>State\<close>

datatype alg = AlgNull | AlgBuf string | AlgWild
datatype keyptr = KeyNull | KeyBuf "byte list" | KeyWild

record cipher_config =
  kdf_algorithm :: alg
  hmac_algorithm :: alg
  compatibility :: uint
  page_size :: uint
  kdf_iter :: uint

record cipher_key =
  ck_buf :: keyptr
  ck_len :: size_t
  ck_is_binary :: bool

definition CPRDEF_KDF_ALGORITHM :: string where "CPRDEF_KDF_ALGORITHM = ''PBKDF2_HMAC_SHA512''"
definition CPRDEF_HMAC_ALGORITHM :: string where "CPRDEF_HMAC_ALGORITHM = ''HMAC_SHA512''"
definition CPRDEF_COMPATIBILITY :: uint where "CPRDEF_COMPATIBILITY = 4"
definition CPRDEF_PAGE_SIZE :: uint where "CPRDEF_PAGE_SIZE = 4096"
definition CPRDEF_KDF_ITER :: uint where "CPRDEF_KDF_ITER = 256000"
definition CIPHER_DIGEST_LENGTH :: nat where "CIPHER_DIGEST_LENGTH = 32"

lemmas cprdef_defs = CPRDEF_COMPATIBILITY_def CPRDEF_PAGE_SIZE_def CPRDEF_KDF_ITER_def

definition CC_INIT :: cipher_config where
  "CC_INIT = \<lparr>kdf_algorithm = AlgNull, hmac_algorithm = AlgNull, compatibility = CPRDEF_COMPATIBILITY,
              page_size = CPRDEF_PAGE_SIZE, kdf_iter = CPRDEF_KDF_ITER\<rparr>"

definition CK_INIT :: cipher_key where
  "CK_INIT = \<lparr>ck_buf = KeyNull, ck_len = 0, ck_is_binary = False\<rparr>"

section \<open>Validation\<close>

definition cc_kdf_algorithm_list :: "string list" where
  "cc_kdf_algorithm_list = [CPRDEF_KDF_ALGORITHM, ''PBKDF2_HMAC_SHA256'', ''PBKDF2_HMAC_SHA1'']"

definition cc_hmac_algorithm_list :: "string list" where
  "cc_hmac_algorithm_list = [CPRDEF_HMAC_ALGORITHM, ''HMAC_SHA256'', ''HMAC_SHA1'']"

definition is_cc_kdf_algorithm :: "string \<Rightarrow> bool" where
  "is_cc_kdf_algorithm algo = findstr algo cc_kdf_algorithm_list"

definition is_cc_hmac_algorithm :: "string \<Rightarrow> bool" where
  "is_cc_hmac_algorithm algo = findstr algo cc_hmac_algorithm_list"

definition is_cc_page_size :: "uint \<Rightarrow> bool" where
  "is_cc_page_size sz \<longleftrightarrow> in_range_i sz 512 65536 \<or> \<not> is_pow2 sz"

definition is_cc_compatibility :: "uint \<Rightarrow> bool" where
  "is_cc_compatibility cap \<longleftrightarrow> in_range_i cap 1 CPRDEF_COMPATIBILITY"

section \<open>Writing the file format\<close>

definition FIELD_KDF_ALGORITHM :: nat where "FIELD_KDF_ALGORITHM = 1"
definition FIELD_HMAC_ALGORITHM :: nat where "FIELD_HMAC_ALGORITHM = 2"
definition FIELD_COMPATIBILITY :: nat where "FIELD_COMPATIBILITY = 3"
definition FIELD_PAGE_SIZE :: nat where "FIELD_PAGE_SIZE = 4"
definition FIELD_KDF_ITER :: nat where "FIELD_KDF_ITER = 5"
definition FIELD_KEY :: nat where "FIELD_KEY = 6"
definition FIELD_KEY_PASSPHRASE :: nat where "FIELD_KEY_PASSPHRASE = 7"
definition FIELD_KEY_BINARY :: nat where "FIELD_KEY_BINARY = 8"
definition field_type_end :: nat where "field_type_end = 9"

lemmas field_defs = FIELD_KDF_ALGORITHM_def FIELD_HMAC_ALGORITHM_def FIELD_COMPATIBILITY_def
  FIELD_PAGE_SIZE_def FIELD_KDF_ITER_def FIELD_KEY_def FIELD_KEY_PASSPHRASE_def
  FIELD_KEY_BINARY_def field_type_end_def

text \<open>The bytes of an integer of \<open>k\<close> bytes on the little-endian machine, and back.\<close>

fun le_bytes :: "nat \<Rightarrow> nat \<Rightarrow> byte list" where
  "le_bytes 0 n = []"
| "le_bytes (Suc k) n = word_of_nat n # le_bytes k (n div 256)"

fun le_value :: "byte list \<Rightarrow> nat" where
  "le_value [] = 0"
| "le_value (b # bs) = unat b + 256 * le_value bs"

definition bytes_of :: "string \<Rightarrow> byte list" where "bytes_of = map of_char"
definition chars_of :: "byte list \<Rightarrow> string" where "chars_of = map (\<lambda>b. char_of (unat b))"

record cipher_file_blob =
  bl_buf :: "byte block option"
  bl_size :: size_t
  bl_cap :: size_t

definition append_field :: "cipher_file_blob \<Rightarrow> nat \<Rightarrow> byte list \<Rightarrow> cipher_file_blob res" where
  "append_field blob ty data =
     (let required_size = sz_wrap (bl_size blob + 1 + 8 + length data)
      in bind_res (capacity_grow 1 (bl_buf blob) required_size (bl_cap blob)) (\<lambda>(p, cap).
         case p of
           None \<Rightarrow> Halt (Undef ''memcpy to NULL'')
         | Some b \<Rightarrow>
             let sz0 = bl_size blob; sz1 = sz_wrap (sz0 + 1); sz2 = sz_wrap (sz1 + 8)
             in bind_res (mem_write b sz0 [word_of_nat ty]) (\<lambda>b.
                bind_res (mem_write b sz1 (le_bytes 8 (length data))) (\<lambda>b.
                bind_res (mem_write b sz2 data) (\<lambda>b.
                  Ok \<lparr>bl_buf = Some b, bl_size = sz_wrap (sz2 + length data), bl_cap = cap\<rparr>)))))"

definition grow_blob :: "cipher_file_blob \<Rightarrow> size_t \<Rightarrow> cipher_file_blob res" where
  "grow_blob blob sz =
     bind_res (capacity_grow 1 (bl_buf blob) sz (bl_cap blob)) (\<lambda>(p, cap).
       Ok (blob\<lparr>bl_buf := p, bl_cap := cap\<rparr>))"

text \<open>The bytes a pointer to a NUL-terminated string names.\<close>

fun alg_string :: "alg \<Rightarrow> string res" where
  "alg_string AlgNull = Halt (Undef ''string function on NULL'')"
| "alg_string AlgWild = Halt (Undef ''string function on an overwritten pointer'')"
| "alg_string (AlgBuf s) =
     (if NUL \<in> set s then Ok (cstr_of s) else Halt (Undef ''string without a terminator''))"

definition append_alg :: "cipher_file_blob \<Rightarrow> nat \<Rightarrow> alg \<Rightarrow> string \<Rightarrow> cipher_file_blob res" where
  "append_alg blob ty algo def =
     (if algo = AlgNull then Ok blob
      else bind_res (alg_string algo) (\<lambda>s.
             if s \<noteq> def then append_field blob ty (bytes_of s) else Ok blob))"

definition append_uint :: "cipher_file_blob \<Rightarrow> nat \<Rightarrow> uint \<Rightarrow> uint \<Rightarrow> cipher_file_blob res" where
  "append_uint blob ty x def =
     (if x \<noteq> def then append_field blob ty (le_bytes 4 (unat x)) else Ok blob)"

text \<open>\<^verbatim>\<open>FIELD_KEY + key->is_binary\<close> is the type written for a key.\<close>

definition append_key :: "cipher_file_blob \<Rightarrow> cipher_key \<Rightarrow> cipher_file_blob res" where
  "append_key blob key =
     (case ck_buf key of
        KeyNull \<Rightarrow> Ok blob
      | KeyWild \<Rightarrow> Halt (Undef ''memcpy from an overwritten pointer'')
      | KeyBuf bs \<Rightarrow>
          if length bs < ck_len key then Halt (Undef ''memcpy reads outside the key'')
          else append_field blob (FIELD_KEY + (if ck_is_binary key then 1 else 0)) (take (ck_len key) bs))"

definition serialize_cipher_config ::
    "cipher_config \<Rightarrow> cipher_key \<Rightarrow> (byte block option \<times> size_t) res" where
  "serialize_cipher_config config key =
     bind_res (grow_blob \<lparr>bl_buf = None, bl_size = 0, bl_cap = 0\<rparr> 64) (\<lambda>blob.
     bind_res (append_alg blob FIELD_KDF_ALGORITHM (kdf_algorithm config) CPRDEF_KDF_ALGORITHM) (\<lambda>blob.
     bind_res (append_alg blob FIELD_HMAC_ALGORITHM (hmac_algorithm config) CPRDEF_HMAC_ALGORITHM) (\<lambda>blob.
     bind_res (append_uint blob FIELD_COMPATIBILITY (compatibility config) CPRDEF_COMPATIBILITY) (\<lambda>blob.
     bind_res (append_uint blob FIELD_PAGE_SIZE (page_size config) CPRDEF_PAGE_SIZE) (\<lambda>blob.
     bind_res (append_uint blob FIELD_KDF_ITER (kdf_iter config) CPRDEF_KDF_ITER) (\<lambda>blob.
     bind_res (append_key blob key) (\<lambda>blob.
     bind_res (grow_blob blob (sz_wrap (bl_size blob + CIPHER_DIGEST_LENGTH))) (\<lambda>blob.
       Ok (bl_buf blob, bl_size blob)))))))))"

section \<open>Reading it back\<close>

text \<open>What the entries of \<^verbatim>\<open>fmap\<close> point to.\<close>

datatype fptr = P_kdf | P_hmac | P_compat | P_page | P_iter | P_key

definition fmap_entries :: "fptr list" where
  "fmap_entries = [P_kdf, P_hmac, P_compat, P_page, P_iter, P_key]"

definition fmap_at :: "nat \<Rightarrow> fptr res" where
  "fmap_at i = (if i < length fmap_entries then Ok (fmap_entries ! i)
                else Halt (Undef ''fmap is read outside its bounds''))"

type_synonym cc_state = "cipher_config \<times> cipher_key"

text \<open>\<^verbatim>\<open>*(char **)p = block\<close>: only right when \<open>p\<close> points to a pointer.\<close>

fun store_pointer :: "fptr \<Rightarrow> byte list \<Rightarrow> cc_state \<Rightarrow> cc_state res" where
  "store_pointer P_kdf data (cc, ck) = Ok (cc\<lparr>kdf_algorithm := AlgBuf (chars_of data)\<rparr>, ck)"
| "store_pointer P_hmac data (cc, ck) = Ok (cc\<lparr>hmac_algorithm := AlgBuf (chars_of data)\<rparr>, ck)"
| "store_pointer P_key data (cc, ck) = Ok (cc, ck\<lparr>ck_buf := KeyBuf data\<rparr>)"
| "store_pointer p data st = Halt (Undef ''pointer stored over unsigned members'')"

text \<open>\<^verbatim>\<open>memcpy(p, buf, dtlen)\<close>.\<close>

definition low_bytes :: "uint \<Rightarrow> byte list \<Rightarrow> uint res" where
  "low_bytes x data =
     (if 4 < length data then Halt (Undef ''memcpy past the member'')
      else Ok (word_of_nat (le_value (data @ drop (length data) (le_bytes 4 (unat x))))))"

fun store_bytes :: "fptr \<Rightarrow> byte list \<Rightarrow> cc_state \<Rightarrow> cc_state res" where
  "store_bytes P_compat data (cc, ck) =
     bind_res (low_bytes (compatibility cc) data) (\<lambda>x. Ok (cc\<lparr>compatibility := x\<rparr>, ck))"
| "store_bytes P_page data (cc, ck) =
     bind_res (low_bytes (page_size cc) data) (\<lambda>x. Ok (cc\<lparr>page_size := x\<rparr>, ck))"
| "store_bytes P_iter data (cc, ck) =
     bind_res (low_bytes (kdf_iter cc) data) (\<lambda>x. Ok (cc\<lparr>kdf_iter := x\<rparr>, ck))"
| "store_bytes p data (cc, ck) =
     (if data = [] then Ok (cc, ck)
      else if 8 < length data then Halt (Undef ''memcpy past the member'')
      else case p of
             P_kdf \<Rightarrow> Ok (cc\<lparr>kdf_algorithm := AlgWild\<rparr>, ck)
           | P_hmac \<Rightarrow> Ok (cc\<lparr>hmac_algorithm := AlgWild\<rparr>, ck)
           | _ \<Rightarrow> Ok (cc, ck\<lparr>ck_buf := KeyWild\<rparr>))"

text \<open>The switch.  \<open>data\<close> is the read of \<open>dtlen\<close> bytes behind the length.\<close>

definition store_field :: "nat \<Rightarrow> size_t \<Rightarrow> byte list res \<Rightarrow> cc_state \<Rightarrow> cc_state res" where
  "store_field ty dtlen data st =
     (if ty = FIELD_KDF_ALGORITHM \<or> ty = FIELD_HMAC_ALGORITHM
      then bind_res (fmap_at ty) (\<lambda>p.
           bind_res (xmalloc dtlen :: byte block res) (\<lambda>_.
           bind_res data (\<lambda>bs. store_pointer p bs st)))
      else if ty = FIELD_COMPATIBILITY \<or> ty = FIELD_PAGE_SIZE \<or> ty = FIELD_KDF_ITER
      then bind_res (fmap_at ty) (\<lambda>p. bind_res data (\<lambda>bs. store_bytes p bs st))
      else if ty = FIELD_KEY_PASSPHRASE \<or> ty = FIELD_KEY_BINARY
      then bind_res (fmap_at FIELD_KEY) (\<lambda>p.
           bind_res (xmalloc dtlen :: byte block res) (\<lambda>_.
           bind_res data (\<lambda>bs.
           bind_res (store_pointer p bs st) (\<lambda>(cc, ck).
             Ok (cc, ck\<lparr>ck_len := dtlen, ck_is_binary := (ty = FIELD_KEY_BINARY)\<rparr>)))))
      else Halt (Bug ''field type shall not be %d''))"

text \<open>
  The loop: \<open>mem\<close> is the whole object \<^verbatim>\<open>buf\<close> points into, \<open>len\<close> the length passed, \<open>pos\<close>
  the offset reached.  The pair is the return value (1 with errno EINCPHR) and the state.
\<close>

function deserialize_loop :: "byte list \<Rightarrow> size_t \<Rightarrow> nat \<Rightarrow> cc_state \<Rightarrow> (int \<times> cc_state) res" where
  "deserialize_loop mem len pos st =
     (if length mem \<le> pos then Halt (Undef ''read behind the buffer'')
      else let ty = unat (mem ! pos)
           in if \<not> in_range_e ty 0 field_type_end then Ok (1, st)
      else if len < pos + 1 then Halt (Bug ''add %d to buf is beyond the buf size'')
      else if length mem < pos + 9 then Halt (Undef ''read behind the buffer'')
      else let dtlen = le_value (take 8 (drop (pos + 1) mem))
           in if len < pos + 9 then Halt (Bug ''add %d to buf is beyond the buf size'')
      else bind_res (store_field ty dtlen
               (if length mem < pos + 9 + dtlen then Halt (Undef ''read behind the buffer'')
                else Ok (take dtlen (drop (pos + 9) mem))) st) (\<lambda>st.
           if len < pos + 9 + dtlen then Halt (Bug ''add %d to buf is beyond the buf size'')
           else if pos + 9 + dtlen = len then Ok (0, st)
           else deserialize_loop mem len (pos + 9 + dtlen) st))"
  by pat_completeness auto
termination
  by (relation "measure (\<lambda>(mem, len, pos, st). Suc len - pos)") auto

declare deserialize_loop.simps [simp del]

definition deserialize_cipher_config :: "cc_state \<Rightarrow> byte list \<Rightarrow> size_t \<Rightarrow> (int \<times> cc_state) res" where
  "deserialize_cipher_config st mem len = deserialize_loop mem len 0 st"

text \<open>
  Releasing the members; the key is cleared up to its length before.  Freeing an overwritten pointer
  or clearing more than there is are undefined.
\<close>

definition free_alg :: "alg \<Rightarrow> unit res" where
  "free_alg algo = (if algo = AlgWild then Halt (Undef ''free of an overwritten pointer'') else Ok ())"

definition free_cipher_config :: "cipher_config \<times> cipher_key \<Rightarrow> unit res" where
  "free_cipher_config = (\<lambda>(cc, ck).
     bind_res (free_alg (kdf_algorithm cc)) (\<lambda>_.
     bind_res (free_alg (hmac_algorithm cc)) (\<lambda>_.
       case ck_buf ck of
         KeyNull \<Rightarrow> if ck_len ck = 0 then Ok () else Halt (Undef ''NULL is cleared'')
       | KeyBuf bs \<Rightarrow> if ck_len ck \<le> length bs then Ok () else Halt (Undef ''cleared past the end of the key'')
       | KeyWild \<Rightarrow> Halt (Undef ''free of an overwritten pointer''))))"

section \<open>Files\<close>

text \<open>
  find_cipher_config: \<open>acc\<close> is the result of access_regular, 0 or the errno it leaves.
  The result is the return value and the new \<^verbatim>\<open>*path\<close>.
\<close>

datatype access_result = AccOk | AccNoent | AccErr

definition find_cipher_config :: "access_result \<Rightarrow> string option \<Rightarrow> int \<times> string option" where
  "find_cipher_config acc path =
     (case acc of
        AccOk \<Rightarrow> (0, path)
      | AccErr \<Rightarrow> (1, path)
      | AccNoent \<Rightarrow> (0, None))"

text \<open>\<open>content\<close> is what xopen and xread deliver; the buffer returned is the whole file.\<close>

definition resolve_cipher_config ::
    "(byte list \<Rightarrow> byte list option) \<Rightarrow> byte list \<Rightarrow> (int \<times> (byte list \<times> size_t) option) res" where
  "resolve_cipher_config sha256 content =
     (let len = length content
      in if len < CIPHER_DIGEST_LENGTH then Ok (1, None)
         else let len = len - CIPHER_DIGEST_LENGTH
              in bind_res (verify_digest_sha256 sha256 (take len content) (drop len content)) (\<lambda>r.
                 if r \<noteq> 0 then Ok (1, None) else Ok (0, Some (content, len))))"

section \<open>The PRAGMA text\<close>

definition int_string :: "uint \<Rightarrow> string" where
  "int_string x = (if sint x < 0 then CHR ''-'' # dec_string (nat (- sint x)) else dec_string (nat (sint x)))"

definition pragma_alg :: "strbuf \<Rightarrow> string \<Rightarrow> alg \<Rightarrow> strbuf res" where
  "pragma_alg sb name algo =
     (if algo = AlgNull then Ok sb
      else bind_res (alg_string algo) (\<lambda>s. strbuf_printf sb (name @ '' = '' @ s @ '';'')))"

definition pragma_uint :: "strbuf \<Rightarrow> string \<Rightarrow> uint \<Rightarrow> uint \<Rightarrow> strbuf res" where
  "pragma_uint sb name x def =
     (if x \<noteq> def then strbuf_printf sb (name @ '' = '' @ int_string x @ '';'') else Ok sb)"

definition format_apply_cc_sqlstr :: "cipher_config \<Rightarrow> string option res" where
  "format_apply_cc_sqlstr cc =
     bind_res (pragma_alg STRBUF_INIT ''PRAGMA cipher_kdf_algorithm'' (kdf_algorithm cc)) (\<lambda>sb.
     bind_res (pragma_alg sb ''PRAGMA cipher_hmac_algorithm'' (hmac_algorithm cc)) (\<lambda>sb.
     bind_res (pragma_uint sb ''PRAGMA kdf_iter'' (kdf_iter cc) CPRDEF_KDF_ITER) (\<lambda>sb.
     bind_res (pragma_uint sb ''PRAGMA cipher_page_size'' (page_size cc) CPRDEF_PAGE_SIZE) (\<lambda>sb.
     bind_res (pragma_uint sb ''PRAGMA cipher_compatibility'' (compatibility cc) CPRDEF_COMPATIBILITY) (\<lambda>sb.
       if sb_capacity sb = 0 then Ok None
       else bind_res (buf_read (sb_buf sb) 0 (sb_length sb + 1)) (\<lambda>bs. Ok (Some (cstr_of bs))))))))"

section \<open>The writer\<close>

text \<open>One field of the file, and the fields of a configuration in the order written.\<close>

definition field_bytes :: "nat \<times> byte list \<Rightarrow> byte list" where
  "field_bytes f = word_of_nat (fst f) # le_bytes 8 (length (snd f)) @ snd f"

definition alg_field :: "nat \<Rightarrow> alg \<Rightarrow> string \<Rightarrow> (nat \<times> byte list) list" where
  "alg_field ty algo def =
     (case algo of
        AlgBuf s \<Rightarrow> if cstr_of s \<noteq> def then [(ty, bytes_of (cstr_of s))] else []
      | _ \<Rightarrow> [])"

definition uint_field :: "nat \<Rightarrow> uint \<Rightarrow> uint \<Rightarrow> (nat \<times> byte list) list" where
  "uint_field ty x def = (if x \<noteq> def then [(ty, le_bytes 4 (unat x))] else [])"

definition key_field :: "cipher_key \<Rightarrow> (nat \<times> byte list) list" where
  "key_field key =
     (case ck_buf key of
        KeyBuf bs \<Rightarrow> [(FIELD_KEY + (if ck_is_binary key then 1 else 0), take (ck_len key) bs)]
      | _ \<Rightarrow> [])"

definition config_fields :: "cipher_config \<Rightarrow> cipher_key \<Rightarrow> (nat \<times> byte list) list" where
  "config_fields cc key =
     alg_field FIELD_KDF_ALGORITHM (kdf_algorithm cc) CPRDEF_KDF_ALGORITHM
     @ alg_field FIELD_HMAC_ALGORITHM (hmac_algorithm cc) CPRDEF_HMAC_ALGORITHM
     @ uint_field FIELD_COMPATIBILITY (compatibility cc) CPRDEF_COMPATIBILITY
     @ uint_field FIELD_PAGE_SIZE (page_size cc) CPRDEF_PAGE_SIZE
     @ uint_field FIELD_KDF_ITER (kdf_iter cc) CPRDEF_KDF_ITER
     @ key_field key"

definition file_bytes :: "cipher_config \<Rightarrow> cipher_key \<Rightarrow> byte list" where
  "file_bytes cc key = concat (map field_bytes (config_fields cc key))"

definition alg_valid :: "alg \<Rightarrow> bool" where
  "alg_valid algo = (case algo of AlgNull \<Rightarrow> True | AlgBuf s \<Rightarrow> NUL \<in> set s | AlgWild \<Rightarrow> False)"

definition key_valid :: "cipher_key \<Rightarrow> bool" where
  "key_valid key = (case ck_buf key of KeyNull \<Rightarrow> True | KeyBuf bs \<Rightarrow> ck_len key \<le> length bs | KeyWild \<Rightarrow> False)"

lemma length_le_bytes [simp]: "length (le_bytes k n) = k"
  by (induction k arbitrary: n) auto

lemma le_value_bytes: "n < 256 ^ k \<Longrightarrow> le_value (le_bytes k n) = n"
proof (induction k arbitrary: n)
  case (Suc k)
  then have "n div 256 < 256 ^ k" by (simp add: div_less_iff_less_mult mult.commute)
  with Suc.IH show ?case by (simp add: unsigned_of_nat take_bit_nat_def)
qed simp

lemma unat_of_char: "unat (of_char c :: byte) = of_char c"
proof -
  have "unat (word_of_nat (of_char c) :: byte) = of_char c mod 2 ^ 8"
    by (simp add: unsigned_of_nat take_bit_eq_mod)
  moreover have "(of_char c :: byte) = word_of_nat (of_char c)"
    by (cases c) (simp add: of_char_def)
  ultimately show ?thesis by (simp only:) (simp add: nat_of_char_less_256)
qed

lemma length_bytes_of [simp]: "length (bytes_of s) = length s"
  by (simp add: bytes_of_def)

lemma chars_bytes [simp]: "chars_of (bytes_of s) = s"
  by (induction s) (auto simp: chars_of_def bytes_of_def unat_of_char)

lemma bytes_chars [simp]: "bytes_of (chars_of bs) = bs"
proof -
  have "(of_char (char_of (unat b) :: char) :: byte) = b" for b :: byte
  proof (rule unsigned_word_eqI)
    have "unat b < 256" using unsigned_less [of b] by simp
    then show "unat (of_char (char_of (unat b) :: char) :: byte) = unat b" by (simp add: unat_of_char)
  qed
  then show ?thesis by (induction bs) (simp_all add: chars_of_def bytes_of_def)
qed

definition blob_rep :: "cipher_file_blob \<Rightarrow> byte list \<Rightarrow> bool" where
  "blob_rep blob s \<longleftrightarrow>
     (\<exists>b. bl_buf blob = Some b \<and> length b = bl_cap blob \<and> bl_cap blob \<le> 4 * SAFE_SIZE
        \<and> bl_size blob = length s \<and> length s \<le> length b \<and> take (length s) b = map Some s)"

lemma grow_rep:
  assumes "blob_rep blob s" "sz \<le> 4 * SAFE_SIZE - 64" "sz \<le> 2 * SAFE_SIZE - 12"
  obtains b cap where "capacity_grow 1 (bl_buf blob) sz (bl_cap blob) = Ok (Some b, cap)"
    "length b = cap" "sz \<le> cap" "cap \<le> 4 * SAFE_SIZE" "length s \<le> cap" "take (length s) b = map Some s"
proof -
  obtain b0 where b0: "bl_buf blob = Some b0" "length b0 = bl_cap blob" "bl_cap blob \<le> 4 * SAFE_SIZE"
      "bl_size blob = length s" "length s \<le> length b0" "take (length s) b0 = map Some s"
    using assms(1) by (auto simp: blob_rep_def)
  have pre: "length b0 = bl_cap blob" "sz \<le> 4 * SAFE_SIZE" "(0::nat) < 1" "(1::nat) \<le> 16"
    using b0 assms(3) by (simp_all add: size_bounds)
  obtain b cap where g: "capacity_grow 1 (Some b0) sz (bl_cap blob) = Ok (Some b, cap)" "length b = cap"
      "sz \<le> cap" "cap \<le> grown_bound sz (bl_cap blob)" "take (bl_cap blob) b = b0"
    by (rule capacity_grow_block [OF pre])
  have "length s \<le> cap"
    using g(2,5) b0(2,5) by (metis length_take min.bounded_iff order_trans)
  moreover have "take (length s) b = map Some s"
    using g(5) b0(2,5,6) by (metis min.absorb1 take_take)
  moreover have "cap \<le> 4 * SAFE_SIZE"
    using g(4) b0(3) assms(3) by (simp add: grown_bound_def size_bounds)
  ultimately show thesis using g b0(1) by (intro that) auto
qed

lemma append_field_rep:
  assumes rep: "blob_rep blob s" and fits: "length s + length (field_bytes (ty, data)) \<le> SAFE_SIZE"
  shows "\<exists>blob'. append_field blob ty data = Ok blob' \<and> blob_rep blob' (s @ field_bytes (ty, data))"
proof -
  let ?f = "field_bytes (ty, data)"
  let ?len = "le_bytes 8 (length data)"
  have f: "?f = [word_of_nat ty] @ ?len @ data" "length ?f = 9 + length data"
    by (simp_all add: field_bytes_def)
  have sz: "bl_size blob = length s" using rep by (auto simp: blob_rep_def)
  have req: "sz_wrap (bl_size blob + 1 + 8 + length data) = length s + length ?f"
    using fits f(2) sz by (simp add: size_bounds)
  have bnd: "length s + length ?f \<le> 4 * SAFE_SIZE - 64" "length s + length ?f \<le> 2 * SAFE_SIZE - 12"
    using fits by (simp_all add: size_bounds)
  obtain b cap where g: "capacity_grow 1 (bl_buf blob) (length s + length ?f) (bl_cap blob) = Ok (Some b, cap)"
      "length b = cap" "length s + length ?f \<le> cap" "cap \<le> 4 * SAFE_SIZE" "length s \<le> cap"
      "take (length s) b = map Some s"
    by (rule grow_rep [OF rep bnd])
  have wr: "sz_wrap (length s + 1) = length s + 1" "sz_wrap (length s + 1 + 8) = length s + 9"
      "sz_wrap (length s + 9 + length data) = length s + length ?f"
    using fits f(2) by (simp_all add: size_bounds)
  have w1: "mem_write b (length s) [word_of_nat ty]
      = Ok (map Some (s @ [word_of_nat ty]) @ drop (length s + 1) b)"
    using mem_write_prefix [OF g(6), of "[word_of_nat ty]"] g(2,3) f(2) by simp
  let ?b1 = "map Some (s @ [word_of_nat ty]) @ drop (length s + 1) b"
  have w2: "mem_write ?b1 (length s + 1) ?len
      = Ok (map Some ((s @ [word_of_nat ty]) @ ?len) @ drop (length s + 1 + 8) ?b1)"
    using mem_write_prefix [of "s @ [word_of_nat ty]" ?b1 ?len] g(2,3) f(2) by simp
  let ?b2 = "map Some ((s @ [word_of_nat ty]) @ ?len) @ drop (length s + 1 + 8) ?b1"
  have w3: "mem_write ?b2 (length s + 9) data
      = Ok (map Some (((s @ [word_of_nat ty]) @ ?len) @ data) @ drop (length s + 9 + length data) ?b2)"
    using mem_write_prefix [of "(s @ [word_of_nat ty]) @ ?len" ?b2 data] g(2,3) f(2) by simp
  let ?b3 = "map Some (((s @ [word_of_nat ty]) @ ?len) @ data) @ drop (length s + 9 + length data) ?b2"
  have "append_field blob ty data = Ok \<lparr>bl_buf = Some ?b3, bl_size = length s + length ?f, bl_cap = cap\<rparr>"
    unfolding append_field_def Let_def req g(1) bind_res.simps prod.case option.case unfolding sz wr w1
      bind_res.simps w2 w3 by simp
  moreover have "blob_rep \<lparr>bl_buf = Some ?b3, bl_size = length s + length ?f, bl_cap = cap\<rparr> (s @ ?f)"
  proof -
    have e: "?b3 = map Some (s @ ?f) @ drop (length s + 9 + length data) ?b2" by (simp add: f)
    have "take (length (s @ ?f)) (map Some (s @ ?f) @ r) = map Some (s @ ?f)" for r by simp
    then have "take (length (s @ ?f)) ?b3 = map Some (s @ ?f)"
      unfolding e .
    moreover have "length ?b3 = cap" using g(2,3) f(2) by simp
    ultimately show ?thesis
      using g(3,4) unfolding blob_rep_def by (intro exI [of _ ?b3]) simp
  qed
  ultimately show ?thesis by blast
qed

interpretation cfg_blob: append_sink blob_rep "\<lambda>blob f. append_field blob (fst f) (snd f)" field_bytes
    "\<lambda>_. True" SAFE_SIZE
  by unfold_locales (use append_field_rep in \<open>metis prod.collapse\<close>)

lemma append_alg_fold:
  assumes "alg_valid algo"
  shows "append_alg blob ty algo def
    = fold_res (\<lambda>blob f. append_field blob (fst f) (snd f)) blob (alg_field ty algo def)"
  using assms by (cases algo) (auto simp: append_alg_def alg_field_def alg_valid_def)

lemma append_uint_fold:
  "append_uint blob ty x def
    = fold_res (\<lambda>blob f. append_field blob (fst f) (snd f)) blob (uint_field ty x def)"
  by (simp add: append_uint_def uint_field_def)

lemma append_key_fold:
  assumes "key_valid key"
  shows "append_key blob key
    = fold_res (\<lambda>blob f. append_field blob (fst f) (snd f)) blob (key_field key)"
  using assms by (cases "ck_buf key") (auto simp: append_key_def key_field_def key_valid_def)

lemma grow_blob_rep:
  assumes rep: "blob_rep blob s" and sz: "sz \<le> 2 * SAFE_SIZE - 12"
  shows "\<exists>b cap. grow_blob blob sz = Ok (blob\<lparr>bl_buf := Some b, bl_cap := cap\<rparr>) \<and> length b = cap
    \<and> sz \<le> cap \<and> take (length s) b = map Some s"
proof -
  have bnd: "sz \<le> 4 * SAFE_SIZE - 64" using sz by (simp add: size_bounds)
  obtain b cap where "capacity_grow 1 (bl_buf blob) sz (bl_cap blob) = Ok (Some b, cap)"
      "length b = cap" "sz \<le> cap" "take (length s) b = map Some s"
    by (rule grow_rep [OF rep bnd sz])
  then show ?thesis by (intro exI [of _ b] exI [of _ cap]) (simp add: grow_blob_def)
qed

lemma grow_first:
  obtains blob where "grow_blob \<lparr>bl_buf = None, bl_size = 0, bl_cap = 0\<rparr> 64 = Ok blob" "blob_rep blob []"
proof -
  have pre: "(0::nat) < 64" "(64::nat) \<le> 4 * SAFE_SIZE" "(0::nat) < 1" "(1::nat) \<le> 16"
    by (simp_all add: size_bounds)
  obtain cap where "capacity_grow 1 (None :: byte block option) 64 0 = Ok (Some (resize_block [] cap), cap)"
      "64 \<le> cap" "cap \<le> grown_bound 64 0"
    by (rule capacity_grow_step [of 0 64 1 "None :: byte block option", unfolded option.case, OF pre]) blast
  then show thesis
    by (intro that [of "\<lparr>bl_buf = Some (resize_block [] cap), bl_size = 0, bl_cap = cap\<rparr>"])
       (auto simp: grow_blob_def blob_rep_def grown_bound_def size_bounds)
qed

lemma serialize_fold:
  assumes "alg_valid (kdf_algorithm cc)" "alg_valid (hmac_algorithm cc)" "key_valid key"
  shows "serialize_cipher_config cc key =
    bind_res (grow_blob \<lparr>bl_buf = None, bl_size = 0, bl_cap = 0\<rparr> 64) (\<lambda>blob.
    bind_res (fold_res (\<lambda>blob f. append_field blob (fst f) (snd f)) blob (config_fields cc key)) (\<lambda>blob.
    bind_res (grow_blob blob (sz_wrap (bl_size blob + CIPHER_DIGEST_LENGTH))) (\<lambda>blob.
      Ok (bl_buf blob, bl_size blob))))"
  unfolding serialize_cipher_config_def config_fields_def
  by (simp add: append_alg_fold assms append_uint_fold append_key_fold fold_res_append bind_res_assoc)

lemma serialize_bytes:
  assumes "alg_valid (kdf_algorithm cc)" "alg_valid (hmac_algorithm cc)" "key_valid key"
    "length (file_bytes cc key) \<le> SAFE_SIZE"
  shows "\<exists>b. serialize_cipher_config cc key = Ok (Some b, length (file_bytes cc key))
    \<and> take (length (file_bytes cc key)) b = map Some (file_bytes cc key)
    \<and> length (file_bytes cc key) + CIPHER_DIGEST_LENGTH \<le> length b"
proof -
  let ?put = "\<lambda>blob f. append_field blob (fst f) (snd f)"
  obtain blob0 where g: "grow_blob \<lparr>bl_buf = None, bl_size = 0, bl_cap = 0\<rparr> 64 = Ok blob0" "blob_rep blob0 []"
    by (rule grow_first)
  obtain blob where f: "fold_res ?put blob0 (config_fields cc key) = Ok blob" "blob_rep blob (file_bytes cc key)"
    using cfg_blob.put_all [OF g(2), of "config_fields cc key"] assms(4) by (auto simp: file_bytes_def)
  have sz: "bl_size blob = length (file_bytes cc key)"
    using f(2) by (auto simp: blob_rep_def)
  then have w: "sz_wrap (bl_size blob + CIPHER_DIGEST_LENGTH) = length (file_bytes cc key) + CIPHER_DIGEST_LENGTH"
    using assms(4) by (simp add: size_bounds CIPHER_DIGEST_LENGTH_def)
  have "length (file_bytes cc key) + CIPHER_DIGEST_LENGTH \<le> 2 * SAFE_SIZE - 12"
    using assms(4) by (simp add: size_bounds CIPHER_DIGEST_LENGTH_def)
  from grow_blob_rep [OF f(2) this] obtain b cap where
      "grow_blob blob (length (file_bytes cc key) + CIPHER_DIGEST_LENGTH) = Ok (blob\<lparr>bl_buf := Some b, bl_cap := cap\<rparr>)"
      "length b = cap" "length (file_bytes cc key) + CIPHER_DIGEST_LENGTH \<le> cap"
      "take (length (file_bytes cc key)) b = map Some (file_bytes cc key)"
    by blast
  then show ?thesis
    using g(1) f(1) sz w by (simp add: serialize_fold [OF assms(1-3)])
qed

text \<open>
  C14. serialize_cipher_config writes, for a configuration whose strings are NUL-terminated,
  exactly the fields that differ from the defaults, each as its type byte, its length in
  eight little-endian bytes and its data, and the buffer has room for the digest behind
  them, as the header file promises.
\<close>

theorem serialize_layout:
  assumes "alg_valid (kdf_algorithm cc)" "alg_valid (hmac_algorithm cc)" "key_valid key"
    "length (file_bytes cc key) \<le> SAFE_SIZE"
  shows "\<exists>b. serialize_cipher_config cc key = Ok (Some b, length (file_bytes cc key))
    \<and> take (length (file_bytes cc key)) b = map Some (file_bytes cc key)
    \<and> length (file_bytes cc key) + CIPHER_DIGEST_LENGTH \<le> length b"
  using assms by (rule serialize_bytes)

theorem serialize_layout_witness:
  "let cc = CC_INIT\<lparr>hmac_algorithm := AlgBuf (''HMAC_SHA1'' @ [NUL]), page_size := 8192\<rparr>
   in \<exists>b. serialize_cipher_config cc CK_INIT = Ok (Some b, length (file_bytes cc CK_INIT))
    \<and> take (length (file_bytes cc CK_INIT)) b = map Some (file_bytes cc CK_INIT)
    \<and> length (file_bytes cc CK_INIT) + CIPHER_DIGEST_LENGTH \<le> length b"
  unfolding Let_def
  by (rule serialize_layout)
     (simp_all add: CC_INIT_def CK_INIT_def alg_valid_def key_valid_def file_bytes_def config_fields_def
       alg_field_def uint_field_def key_field_def field_bytes_def bytes_of_def cprdef_defs size_bounds
       CPRDEF_HMAC_ALGORITHM_def cstr_of_def)

section \<open>The reader\<close>

text \<open>One field, as the loop stores it.\<close>

definition read_field :: "cc_state \<Rightarrow> nat \<times> byte list \<Rightarrow> cc_state res" where
  "read_field st f = store_field (fst f) (length (snd f)) (Ok (snd f)) st"

definition field_ok :: "nat \<times> byte list \<Rightarrow> bool" where
  "field_ok f \<longleftrightarrow> 0 < fst f \<and> fst f < field_type_end \<and> length (snd f) < 256 ^ 8"

lemma deserialize_step:
  assumes ok: "field_ok f" and mem: "mem = pre @ field_bytes f @ rest"
    and len: "length pre + length (field_bytes f) \<le> len"
  shows "deserialize_loop mem len (length pre) st
    = bind_res (read_field st f) (\<lambda>st.
        if length pre + length (field_bytes f) = len then Ok (0, st)
        else deserialize_loop mem len (length pre + length (field_bytes f)) st)"
proof -
  obtain ty data where [simp]: "f = (ty, data)" by (cases f)
  have ty: "0 < ty" "ty < 9" "length data < 256 ^ 8"
    using ok by (auto simp: field_ok_def field_type_end_def)
  have fb: "field_bytes f = word_of_nat ty # le_bytes 8 (length data) @ data"
    by (simp add: field_bytes_def)
  have at: "length pre < length mem" "mem ! length pre = word_of_nat ty"
    using mem fb by (simp_all add: nth_append)
  have "unat (word_of_nat ty :: byte) = ty"
    using ty(2) by (simp add: unsigned_of_nat take_bit_nat_eq_self)
  then have u: "unat (mem ! length pre) = ty" using at(2) by simp
  have tl: "drop (length pre + 1) mem = le_bytes 8 (length data) @ data @ rest"
    using mem fb by simp
  have "take 8 (drop (length pre + 1) mem) = le_bytes 8 (length data)"
    unfolding tl by simp
  then have dl: "le_value (take 8 (drop (length pre + 1) mem)) = length data"
    using ty(3) by (simp add: le_value_bytes)
  have data: "take (length data) (drop (length pre + 9) mem) = data"
    using mem fb by simp
  have lm: "length mem = length pre + 9 + length data + length rest" using mem fb by simp
  have lf: "length (field_bytes f) = 9 + length data" using fb by simp
  show ?thesis
    using ty len at u dl data lm lf
    by (subst deserialize_loop.simps)
       (simp add: Let_def in_range_e_def field_type_end_def read_field_def bind_res_assoc add.assoc cong: if_cong)
qed

text \<open>The loop reads a well-formed file field by field and stops at its end.\<close>

lemma deserialize_fields:
  assumes "\<forall>f\<in>set fs. field_ok f" "fs \<noteq> []"
    "mem = pre @ concat (map field_bytes fs) @ rest" "len = length pre + length (concat (map field_bytes fs))"
  shows "deserialize_loop mem len (length pre) st = bind_res (fold_res read_field st fs) (\<lambda>st. Ok (0, st))"
  using assms
proof (induction fs arbitrary: pre st)
  case (Cons f fs)
  have step: "deserialize_loop mem len (length pre) st
      = bind_res (read_field st f) (\<lambda>st.
        if length pre + length (field_bytes f) = len then Ok (0, st)
        else deserialize_loop mem len (length pre + length (field_bytes f)) st)"
    by (rule deserialize_step [of f mem pre "concat (map field_bytes fs) @ rest"]) (use Cons.prems in auto)
  show ?case
  proof (cases "fs = []")
    case True
    then show ?thesis using step Cons.prems by simp
  next
    case False
    then obtain g gs where "fs = g # gs" by (cases fs) auto
    then have "length (concat (map field_bytes fs)) \<noteq> 0" by (simp add: field_bytes_def)
    then have "(length pre + length (field_bytes f) = len) = False" using Cons.prems(4) by simp
    then have "deserialize_loop mem len (length pre) st
        = bind_res (read_field st f) (\<lambda>st. deserialize_loop mem len (length (pre @ field_bytes f)) st)"
      using step by (simp only: if_False length_append)
    moreover have "deserialize_loop mem len (length (pre @ field_bytes f)) st'
        = bind_res (fold_res read_field st' fs) (\<lambda>st. Ok (0, st))" for st'
      using Cons.prems False by (intro Cons.IH) auto
    ultimately show ?thesis by (simp add: bind_res_assoc)
  qed
qed simp

text \<open>The fields a configuration is written as have types the reader accepts.\<close>

definition config_ok :: "cipher_config \<Rightarrow> cipher_key \<Rightarrow> bool" where
  "config_ok cc key \<longleftrightarrow> alg_valid (kdf_algorithm cc) \<and> alg_valid (hmac_algorithm cc) \<and> key_valid key
     \<and> length (file_bytes cc key) \<le> SAFE_SIZE"

lemma config_fields_ok:
  assumes "config_ok cc key"
  shows "\<forall>f\<in>set (config_fields cc key). field_ok f"
proof
  fix f assume f: "f \<in> set (config_fields cc key)"
  then have "length (snd f) \<le> length (field_bytes f)" by (simp add: field_bytes_def)
  also have "\<dots> \<le> length (file_bytes cc key)"
    using split_list [OF f] by (auto simp: file_bytes_def)
  also have "\<dots> \<le> SAFE_SIZE" using assms by (simp add: config_ok_def)
  finally have "length (snd f) < 256 ^ 8" by (simp add: size_bounds)
  moreover have "0 < fst f \<and> fst f < field_type_end"
    using f by (auto simp: config_fields_def alg_field_def uint_field_def key_field_def field_defs
        split: alg.splits if_splits keyptr.splits)
  ultimately show "field_ok f" by (simp add: field_ok_def)
qed

lemma deserialize_file:
  assumes "config_ok cc key" "config_fields cc key \<noteq> []"
  shows "deserialize_cipher_config st (file_bytes cc key @ digest) (length (file_bytes cc key))
    = bind_res (fold_res read_field st (config_fields cc key)) (\<lambda>st. Ok (0, st))"
  using deserialize_fields [OF config_fields_ok [OF assms(1)] assms(2), of _ "[]" digest
      "length (file_bytes cc key)" st]
  by (simp add: deserialize_cipher_config_def file_bytes_def)

lemma read_key_halts:
  "ck_buf key = KeyBuf bs \<Longrightarrow> \<exists>h. fold_res read_field st (key_field key) = Halt h"
  by (simp add: key_field_def read_field_def store_field_def field_defs fmap_at_def fmap_entries_def)

lemma stored_key_halts:
  assumes "config_ok cc key" "ck_buf key = KeyBuf bs"
  shows "\<exists>h. deserialize_cipher_config st (file_bytes cc key @ digest) (length (file_bytes cc key)) = Halt h"
proof -
  let ?fs = "alg_field FIELD_KDF_ALGORITHM (kdf_algorithm cc) CPRDEF_KDF_ALGORITHM
     @ alg_field FIELD_HMAC_ALGORITHM (hmac_algorithm cc) CPRDEF_HMAC_ALGORITHM
     @ uint_field FIELD_COMPATIBILITY (compatibility cc) CPRDEF_COMPATIBILITY
     @ uint_field FIELD_PAGE_SIZE (page_size cc) CPRDEF_PAGE_SIZE
     @ uint_field FIELD_KDF_ITER (kdf_iter cc) CPRDEF_KDF_ITER"
  have fs: "config_fields cc key = ?fs @ key_field key" by (simp add: config_fields_def)
  have "config_fields cc key \<noteq> []" using assms(2) by (simp add: fs key_field_def)
  moreover have "\<exists>h. fold_res read_field st (config_fields cc key) = Halt h"
  proof (cases "fold_res read_field st ?fs")
    case (Ok st')
    then show ?thesis
      using read_key_halts [OF assms(2), of st'] by (simp only: fs fold_res_append bind_res.simps)
  next
    case (Halt h)
    then show ?thesis by (simp only: fs fold_res_append bind_res.simps) blast
  qed
  ultimately show ?thesis
    using deserialize_file [OF assms(1)] by auto
qed

text \<open>A passphrase and a default configuration.\<close>

lemma secret_key:
  "config_ok CC_INIT \<lparr>ck_buf = KeyBuf (bytes_of ''secret''), ck_len = 6, ck_is_binary = False\<rparr>"
  "length (file_bytes CC_INIT \<lparr>ck_buf = KeyBuf (bytes_of ''secret''), ck_len = 6, ck_is_binary = False\<rparr>) = 15"
  by (simp_all add: config_ok_def CC_INIT_def alg_valid_def key_valid_def file_bytes_def config_fields_def
       alg_field_def uint_field_def key_field_def field_bytes_def bytes_of_def cprdef_defs size_bounds)

text \<open>
  A remembered key can never be read back.  Whatever the configuration, the file that
  serialize_cipher_config writes with a key makes deserialize_cipher_config stop the
  process or run into undefined behaviour: a passphrase is written with type FIELD_KEY,
  which the reader reports as a bug, and a binary key with FIELD_KEY_PASSPHRASE, for which
  the reader indexes fmap outside its bounds.
\<close>

theorem remembered_key_unreadable:
  assumes "config_ok cc key" "ck_buf key = KeyBuf bs"
  shows "\<exists>h. deserialize_cipher_config st (file_bytes cc key @ digest) (length (file_bytes cc key)) = Halt h"
  using assms by (rule stored_key_halts)

theorem remembered_key_unreadable_witness:
  "let key = \<lparr>ck_buf = KeyBuf (bytes_of ''secret''), ck_len = 6, ck_is_binary = False\<rparr>
   in \<exists>h. deserialize_cipher_config (CC_INIT, CK_INIT) (file_bytes CC_INIT key @ replicate 32 0)
          (length (file_bytes CC_INIT key)) = Halt h"
  unfolding Let_def
  by (rule remembered_key_unreadable [where bs = "bytes_of ''secret''"]) (simp_all add: secret_key [simplified])

text \<open>
  What the reader makes of a file without a key, in which the HMAC algorithm and the
  number of KDF iterations have their defaults: it returns success, with every setting
  stored one member too far.  The KDF algorithm becomes the HMAC algorithm (without a
  terminator), the compatibility becomes the page size, the page size becomes the number of
  iterations, and the members that were written keep their defaults.
\<close>

theorem deserialize_shifts_settings:
  assumes ok: "config_ok cc CK_INIT" and some: "config_fields cc CK_INIT \<noteq> []"
    and def: "alg_field FIELD_HMAC_ALGORITHM (hmac_algorithm cc) CPRDEF_HMAC_ALGORITHM = []"
      "kdf_iter cc = CPRDEF_KDF_ITER"
  shows "deserialize_cipher_config (CC_INIT, CK_INIT) (file_bytes cc CK_INIT @ digest) (length (file_bytes cc CK_INIT))
    = Ok (0, \<lparr>kdf_algorithm = AlgNull,
              hmac_algorithm =
                (case alg_field FIELD_KDF_ALGORITHM (kdf_algorithm cc) CPRDEF_KDF_ALGORITHM of
                   [] \<Rightarrow> AlgNull | f # _ \<Rightarrow> AlgBuf (chars_of (snd f))),
              compatibility = CPRDEF_COMPATIBILITY,
              page_size = (if compatibility cc = CPRDEF_COMPATIBILITY then CPRDEF_PAGE_SIZE else compatibility cc),
              kdf_iter = (if page_size cc = CPRDEF_PAGE_SIZE then CPRDEF_KDF_ITER else page_size cc)\<rparr>, CK_INIT)"
proof -
  have u: "le_value (le_bytes 4 (unat x)) = unat x" for x :: uint
    by (rule le_value_bytes) (use unsigned_less [of x] in simp)
  have fs: "config_fields cc CK_INIT
      = alg_field FIELD_KDF_ALGORITHM (kdf_algorithm cc) CPRDEF_KDF_ALGORITHM
        @ uint_field FIELD_COMPATIBILITY (compatibility cc) CPRDEF_COMPATIBILITY
        @ uint_field FIELD_PAGE_SIZE (page_size cc) CPRDEF_PAGE_SIZE"
    using def by (simp add: config_fields_def uint_field_def key_field_def CK_INIT_def)
  have short: "length (bytes_of (cstr_of s)) \<le> ALLOC_MAX"
    if "kdf_algorithm cc = AlgBuf s" "cstr_of s \<noteq> CPRDEF_KDF_ALGORITHM" for s
    using ok that by (auto simp: config_ok_def file_bytes_def fs alg_field_def field_bytes_def size_bounds
        split: if_splits)
  have kdf: "fold_res read_field (CC_INIT, CK_INIT) (alg_field FIELD_KDF_ALGORITHM (kdf_algorithm cc) CPRDEF_KDF_ALGORITHM)
      = Ok (CC_INIT\<lparr>hmac_algorithm :=
          (case alg_field FIELD_KDF_ALGORITHM (kdf_algorithm cc) CPRDEF_KDF_ALGORITHM of
             [] \<Rightarrow> AlgNull | f # _ \<Rightarrow> AlgBuf (chars_of (snd f)))\<rparr>, CK_INIT)"
    by (cases "kdf_algorithm cc")
       (auto dest: short simp: alg_field_def read_field_def store_field_def field_defs fmap_at_def fmap_entries_def
          xmalloc_def not_less CC_INIT_def)
  have compat: "fold_res read_field (c, k) (uint_field FIELD_COMPATIBILITY x CPRDEF_COMPATIBILITY)
      = Ok (if x = CPRDEF_COMPATIBILITY then c else c\<lparr>page_size := x\<rparr>, k)" for c k x
    by (simp add: uint_field_def read_field_def store_field_def field_defs fmap_at_def fmap_entries_def
        low_bytes_def u)
  have page: "fold_res read_field (c, k) (uint_field FIELD_PAGE_SIZE x CPRDEF_PAGE_SIZE)
      = Ok (if x = CPRDEF_PAGE_SIZE then c else c\<lparr>kdf_iter := x\<rparr>, k)" for c k x
    by (simp add: uint_field_def read_field_def store_field_def field_defs fmap_at_def fmap_entries_def
        low_bytes_def u)
  show ?thesis
    unfolding deserialize_file [OF ok some] fs fold_res_append kdf bind_res.simps compat page
    by (simp add: CC_INIT_def)
qed

theorem deserialize_shifts_settings_witness:
  "let cc = CC_INIT\<lparr>page_size := 8192, kdf_algorithm := AlgBuf (''PBKDF2_HMAC_SHA1'' @ [NUL])\<rparr>
   in deserialize_cipher_config (CC_INIT, CK_INIT) (file_bytes cc CK_INIT @ replicate 32 0) (length (file_bytes cc CK_INIT))
    = Ok (0, CC_INIT\<lparr>kdf_iter := 8192, hmac_algorithm := AlgBuf ''PBKDF2_HMAC_SHA1''\<rparr>, CK_INIT)"
  unfolding Let_def
  by (subst deserialize_shifts_settings)
     (simp_all add: config_ok_def CC_INIT_def CK_INIT_def alg_valid_def key_valid_def file_bytes_def config_fields_def
       alg_field_def uint_field_def key_field_def field_bytes_def cprdef_defs size_bounds
       CPRDEF_KDF_ALGORITHM_def cstr_of_def)

section \<open>Accepting a file\<close>

lemma resolve_iff:
  assumes "\<And>m. \<exists>d. sha256 m = Some d \<and> length d = 32"
  shows "resolve_cipher_config sha256 content
    = (if 32 \<le> length content
          \<and> sha256 (take (length content - 32) content) = Some (drop (length content - 32) content)
       then Ok (0, Some (content, length content - 32)) else Ok (1, None))"
proof (cases "32 \<le> length content")
  case True
  let ?body = "take (length content - 32) content" and ?tail = "drop (length content - 32) content"
  obtain d where d: "sha256 ?body = Some d" "length d = 32" using assms by blast
  have "length ?tail = 32" using True by simp
  with c_memcmp_eq [of 32 d ?tail] d obtain r where r: "c_memcmp d ?tail 32 = Ok r" "r = 0 \<longleftrightarrow> d = ?tail"
    by auto
  with d True show ?thesis
    by (auto simp: resolve_cipher_config_def CIPHER_DIGEST_LENGTH_def verify_digest_sha256_def
        digest_message_sha256_def Let_def)
qed (simp add: resolve_cipher_config_def CIPHER_DIGEST_LENGTH_def)



section \<open>Page sizes\<close>

lemma nat_pow2_iff: "n \<noteq> 0 \<and> n AND (n - 1) = (0::nat) \<longleftrightarrow> (\<exists>k. n = 2 ^ k)"
proof (induction n rule: less_induct)
  case (less n)
  have "n = 0 \<or> n = 1 \<or> (\<exists>m>0. n = 2 * m) \<or> (\<exists>m>0. n = 2 * m + 1)" by presburger
  then consider "n = 0" | "n = 1" | m where "n = 2 * m" "0 < m" | m where "n = 2 * m + 1" "0 < m"
    by blast
  then show ?case
  proof cases
    case 3
    then have "n - 1 = 2 * (m - 1) + 1" by simp
    then have "n AND (n - 1) = 2 * (m AND (m - 1))"
      using 3 and_nat_rec [of n "n - 1"] by simp
    moreover have "(\<exists>k. n = 2 ^ k) \<longleftrightarrow> (\<exists>k. m = 2 ^ k)"
    proof
      assume "\<exists>k. n = 2 ^ k"
      then obtain k where "n = 2 ^ k" by blast
      with 3 show "\<exists>k. m = 2 ^ k" by (cases k) auto
    next
      assume "\<exists>k. m = 2 ^ k"
      with 3 show "\<exists>k. n = 2 ^ k" by (metis power_Suc)
    qed
    ultimately show ?thesis using less.IH [of m] 3 by auto
  next
    case 4
    then have "n AND (n - 1) = 2 * m"
      using and_nat_rec [of n "n - 1"] by simp
    moreover have "\<nexists>k. n = 2 ^ k"
    proof
      assume "\<exists>k. n = 2 ^ k"
      then obtain k where "n = 2 ^ k" by blast
      with 4 show False by (cases k) (simp_all, presburger)
    qed
    ultimately show ?thesis using 4 by auto
  next
    case 1 then show ?thesis by simp
  next
    case 2 then show ?thesis by (auto intro: exI [of _ 0])
  qed
qed

lemma is_pow2_iff: "is_pow2 x \<longleftrightarrow> (\<exists>k<32. unat x = 2 ^ k)"
proof -
  have e: "x AND (x - 1) = 0 \<longleftrightarrow> unat x AND unat (x - 1) = 0"
    by (metis unat_eq_zero unsigned_and_eq)
  have z: "x = 0 \<longleftrightarrow> unat x = 0" by (simp add: unat_eq_zero)
  have "is_pow2 x \<longleftrightarrow> unat x \<noteq> 0 \<and> unat x AND (unat x - 1) = 0"
    unfolding is_pow2_def e by (cases "x = 0") (simp_all add: unat_minus_one flip: z)
  also have "\<dots> \<longleftrightarrow> (\<exists>k. unat x = 2 ^ k)" by (rule nat_pow2_iff)
  also have "\<dots> \<longleftrightarrow> (\<exists>k<32. unat x = 2 ^ k)"
  proof -
    have "k < 32" if "unat x = 2 ^ k" for k
    proof -
      have "(2::nat) ^ k < 2 ^ 32" using unsigned_less [of x, where ?'a = nat] that by simp
      then show ?thesis by (rule power_less_imp_less_exp [rotated]) simp
    qed
    then show ?thesis by blast
  qed
  finally show ?thesis .
qed

text \<open>
  The page size test rejects only powers of two outside 512 .. 65536: every number that
  is not a power of two passes, however small or large, 0 included.
\<close>

theorem is_cc_page_size_accepts:
  "is_cc_page_size sz \<longleftrightarrow> \<not> (\<exists>k<32. unat sz = 2 ^ k \<and> (k < 9 \<or> 16 < k))"
proof -
  have r: "in_range_i sz 512 65536 \<longleftrightarrow> 2 ^ 9 \<le> unat sz \<and> unat sz \<le> 2 ^ 16"
    by (simp add: in_range_i_def word_le_nat_alt)
  show ?thesis
  proof (cases "is_pow2 sz")
    case True
    then obtain k where k: "k < 32" "unat sz = 2 ^ k" by (auto simp: is_pow2_iff)
    have "in_range_i sz 512 65536 \<longleftrightarrow> 9 \<le> k \<and> k \<le> 16"
      unfolding r k(2) by (simp only: power_increasing_iff)
    moreover have "(\<exists>k<32. unat sz = 2 ^ k \<and> (k < 9 \<or> 16 < k)) \<longleftrightarrow> k < 9 \<or> 16 < k"
      using k(1) unfolding k(2) by auto
    ultimately show ?thesis
      unfolding is_cc_page_size_def using True by (simp add: not_le not_less linorder_not_le)
  next
    case False
    then show ?thesis by (auto simp: is_cc_page_size_def is_pow2_iff)
  qed
qed

theorem is_cc_page_size_accepts_witness:
  "is_cc_page_size 7 \<and> is_cc_page_size 4096 \<and> \<not> is_cc_page_size 256"
proof -
  have "7 \<noteq> (2 ^ k :: nat)" for k by (cases k) (simp_all, presburger)
  then have "is_cc_page_size 7" unfolding is_cc_page_size_accepts by simp
  moreover have "is_cc_page_size 4096" by (simp add: is_cc_page_size_def in_range_i_def)
  moreover have "\<not> is_cc_page_size 256"
    unfolding is_cc_page_size_accepts by (simp, rule exI [of _ 8]) simp
  ultimately show ?thesis by blast
qed

section \<open>The PRAGMA text\<close>

definition pragma_items :: "cipher_config \<Rightarrow> string list" where
  "pragma_items cc =
     (case kdf_algorithm cc of AlgBuf s \<Rightarrow> [''PRAGMA cipher_kdf_algorithm = '' @ cstr_of s @ '';''] | _ \<Rightarrow> [])
     @ (case hmac_algorithm cc of AlgBuf s \<Rightarrow> [''PRAGMA cipher_hmac_algorithm = '' @ cstr_of s @ '';''] | _ \<Rightarrow> [])
     @ (if kdf_iter cc \<noteq> CPRDEF_KDF_ITER then [''PRAGMA kdf_iter = '' @ int_string (kdf_iter cc) @ '';''] else [])
     @ (if page_size cc \<noteq> CPRDEF_PAGE_SIZE then [''PRAGMA cipher_page_size = '' @ int_string (page_size cc) @ '';''] else [])
     @ (if compatibility cc \<noteq> CPRDEF_COMPATIBILITY
        then [''PRAGMA cipher_compatibility = '' @ int_string (compatibility cc) @ '';''] else [])"

lemma pragma_alg_fold:
  "alg_valid algo \<Longrightarrow> pragma_alg sb name algo
     = fold_res sink_put sb (map Printf (case algo of AlgBuf s \<Rightarrow> [name @ '' = '' @ cstr_of s @ '';''] | _ \<Rightarrow> []))"
  by (cases algo) (auto simp: pragma_alg_def alg_valid_def)

lemma pragma_uint_fold:
  "pragma_uint sb name x def
     = fold_res sink_put sb (map Printf (if x \<noteq> def then [name @ '' = '' @ int_string x @ '';''] else []))"
  by (simp add: pragma_uint_def)

lemma pragma_items_fold:
  assumes "alg_valid (kdf_algorithm cc)" "alg_valid (hmac_algorithm cc)"
  shows "format_apply_cc_sqlstr cc =
    bind_res (fold_res sink_put STRBUF_INIT (map Printf (pragma_items cc))) (\<lambda>sb.
      if sb_capacity sb = 0 then Ok None
      else bind_res (buf_read (sb_buf sb) 0 (sb_length sb + 1)) (\<lambda>bs. Ok (Some (cstr_of bs))))"
  unfolding format_apply_cc_sqlstr_def pragma_items_def map_append fold_res_append
  by (simp add: pragma_alg_fold assms pragma_uint_fold bind_res_assoc
      cong: alg.case_cong)

lemma cstring_dec_string [simp]: "cstring (dec_string n)"
  using dec_string_digits [of n] by (auto simp: cstring_def ctype_simps)

lemma cstring_int_string [simp]: "cstring (int_string x)"
  by (simp add: int_string_def)

lemma pragma_items_cstring: "t \<in> set (pragma_items cc) \<Longrightarrow> cstring t"
  by (auto simp: pragma_items_def split: alg.splits if_splits)

text \<open>
  format_apply_cc_sqlstr returns NULL when every setting has its default and otherwise
  exactly one PRAGMA statement for each setting that does not, in a fixed order, with the
  numbers in decimal.
\<close>

theorem format_apply_cc_text:
  assumes "alg_valid (kdf_algorithm cc)" "alg_valid (hmac_algorithm cc)"
    "\<forall>t\<in>set (pragma_items cc). length t \<le> INT_MAX" "length (concat (pragma_items cc)) \<le> SAFE_SIZE"
  shows "format_apply_cc_sqlstr cc
    = Ok (if pragma_items cc = [] then None else Some (concat (pragma_items cc)))"
proof (cases "pragma_items cc = []")
  case True
  then show ?thesis
    by (simp add: pragma_items_fold [OF assms(1,2)] STRBUF_INIT_def)
next
  case False
  let ?text = "concat (pragma_items cc)"
  have m: "map sink_text (map Printf (pragma_items cc)) = pragma_items cc"
    by (induction "pragma_items cc") (simp_all add: comp_def)
  obtain sb where sb: "fold_res sink_put STRBUF_INIT (map Printf (pragma_items cc)) = Ok sb" "strbuf_rep sb ?text"
    using sb.put_all [of STRBUF_INIT "[]" "map Printf (pragma_items cc)"] assms(3,4) m by auto
  obtain t where "t \<in> set (pragma_items cc)" using False by (cases "pragma_items cc") auto
  then have ne: "?text \<noteq> []" by (fastforce simp: pragma_items_def split: alg.splits if_splits)
  have cs: "cstring ?text"
    using pragma_items_cstring by (auto simp: cstring_def)
  obtain b where b: "sb_buf sb = Heap b" "sb_length sb = length ?text" "length b = sb_capacity sb"
      "take (length ?text + 1) b = map Some (?text @ [NUL])"
    using sb(2) ne by (auto simp: strbuf_rep_def split: bufptr.splits)
  have len: "length ?text + 1 \<le> length b"
    using arg_cong [OF b(4), of length] by simp
  then have "buf_read (sb_buf sb) 0 (sb_length sb + 1) = Ok (?text @ [NUL])"
    using b mem_read_prefix [OF b(4)] by simp
  moreover have "sb_capacity sb \<noteq> 0" using len b(3) by simp
  ultimately show ?thesis
    using sb(1) cs False by (simp add: pragma_items_fold [OF assms(1,2)])
qed

theorem format_apply_cc_text_witness:
  "let cc = CC_INIT\<lparr>hmac_algorithm := AlgBuf (''HMAC_SHA1'' @ [NUL]), page_size := 512\<rparr>
   in format_apply_cc_sqlstr cc
      = Ok (Some (''PRAGMA cipher_hmac_algorithm = HMAC_SHA1;'' @ ''PRAGMA cipher_page_size = 512;''))"
proof -
  let ?cc = "CC_INIT\<lparr>hmac_algorithm := AlgBuf (''HMAC_SHA1'' @ [NUL]), page_size := 512\<rparr>"
  have i: "pragma_items ?cc = [''PRAGMA cipher_hmac_algorithm = HMAC_SHA1;'', ''PRAGMA cipher_page_size = 512;'']"
    by (simp add: pragma_items_def CC_INIT_def cprdef_defs cstr_of_def int_string_def dec_string.simps digit_char_def char_of_def bit_0)
  have "format_apply_cc_sqlstr ?cc
      = Ok (if pragma_items ?cc = [] then None else Some (concat (pragma_items ?cc)))"
    by (rule format_apply_cc_text) (unfold i, simp_all add: alg_valid_def CC_INIT_def size_bounds)
  then show ?thesis unfolding Let_def i by simp
qed

end
