(* ===== verification/Handle_Record.thy ===== *)
theory Handle_Record
  imports Strbuf Strutil Strlist
begin

text \<open>
  \<^verbatim>\<open>src/src/handle-record.c\<close> and \<^verbatim>\<open>handle-record.h\<close>: a credential record, the
  text file in which the user edits it, and the columns bound from it.  The file has, for
  each field, a line with the field's id, the value and an empty line; lines that start
  with a number sign are comments.  A field is a string or NULL; files and their contents are parameters.
\<close>

section \<open>The record\<close>

record cred_record =
  sitename :: "string option"
  siteurl :: "string option"
  username :: "string option"
  password :: "string option"
  guard :: "string option"
  recovery :: "string option"
  memo :: "string option"
  rec_comment :: "string option"

definition INIT_RECORD :: cred_record where
  "INIT_RECORD = \<lparr>sitename = None, siteurl = None, username = None, password = None,
                  guard = None, recovery = None, memo = None, rec_comment = None\<rparr>"

text \<open>The pointers of the two field maps.\<close>

datatype field = F_sitename | F_siteurl | F_username | F_password | F_guard | F_recovery | F_memo | F_comment

fun get_field :: "field \<Rightarrow> cred_record \<Rightarrow> string option" where
  "get_field F_sitename r = sitename r"
| "get_field F_siteurl r = siteurl r"
| "get_field F_username r = username r"
| "get_field F_password r = password r"
| "get_field F_guard r = guard r"
| "get_field F_recovery r = recovery r"
| "get_field F_memo r = memo r"
| "get_field F_comment r = rec_comment r"

fun set_field :: "field \<Rightarrow> string option \<Rightarrow> cred_record \<Rightarrow> cred_record" where
  "set_field F_sitename v r = r\<lparr>sitename := v\<rparr>"
| "set_field F_siteurl v r = r\<lparr>siteurl := v\<rparr>"
| "set_field F_username v r = r\<lparr>username := v\<rparr>"
| "set_field F_password v r = r\<lparr>password := v\<rparr>"
| "set_field F_guard v r = r\<lparr>guard := v\<rparr>"
| "set_field F_recovery v r = r\<lparr>recovery := v\<rparr>"
| "set_field F_memo v r = r\<lparr>memo := v\<rparr>"
| "set_field F_comment v r = r\<lparr>rec_comment := v\<rparr>"

definition recfile_fmap :: "(string \<times> field) list" where
  "recfile_fmap =
    [('':sitename:'', F_sitename), ('':siteurl:'', F_siteurl), ('':username:'', F_username),
     ('':password:'', F_password), ('':guard:'', F_guard), ('':recovery:'', F_recovery),
     ('':memo:'', F_memo), ('':comment:'', F_comment)]"

text \<open>The quotation marks of the message are U+2018 and U+2019.\<close>

definition quoted :: "string \<Rightarrow> string" where
  "quoted s = [CHR 0xE2, CHR 0x80, CHR 0x98] @ s @ [CHR 0xE2, CHR 0x80, CHR 0x99]"

definition common_record_lines :: "string list" where
  "common_record_lines =
    [''# Please enter the information for your password record. Lines starting'',
     ''# with '' @ quoted ''#'' @ '' will be ignored, and an empty record aborts the creation.'',
     ''# Certain symbols prefixing a line (such as '' @ quoted ''#'' @ '' and '' @ quoted '':'' @ '') have special'',
     ''# meanings for PassKeeper. To include such symbols in the text without'',
     ''# invoking their special meanings, start the line with '' @ quoted ''|'' @ ''.'',
     ''# Run '' @ quoted ''./pk example record'' @ '' to see the example.'']"

definition COMMON_RECORD_MESSAGE :: string where
  "COMMON_RECORD_MESSAGE = join_with [NL] common_record_lines"

section \<open>Writing the file\<close>

definition put_record_field :: "cred_record \<Rightarrow> strbuf \<Rightarrow> string \<times> field \<Rightarrow> strbuf res" where
  "put_record_field rec message fm =
     bind_res (strbuf_puts message (fst fm)) (\<lambda>message.
     bind_res (case get_field (snd fm) rec of
                 None \<Rightarrow> strbuf_putchar message NL
               | Some v \<Rightarrow> if \<not> is_blank_str (Some v) then strbuf_puts message v
                           else strbuf_putchar message NL) (\<lambda>message.
       strbuf_putchar message NL))"

definition format_recfile_content :: "cred_record \<Rightarrow> (string \<times> size_t) res" where
  "format_recfile_content rec =
     bind_res (fold_res (put_record_field rec) STRBUF_INIT recfile_fmap) (\<lambda>message.
     bind_res (strbuf_puts message COMMON_RECORD_MESSAGE) (\<lambda>message.
       if sb_length message = 0 then Halt (Bug ''COMMON_RECORD_MESSAGE is empty'')
       else bind_res (buf_read (sb_buf message) 0 (sb_length message + 1)) (\<lambda>bs.
              Ok (cstr_of bs, sb_length message))))"

section \<open>Reading it\<close>

definition recfile_line_filter :: "strlist_elem \<Rightarrow> bool" where
  "recfile_line_filter el \<longleftrightarrow> first_char (el_str el) \<noteq> NUL \<and> first_char (el_str el) \<noteq> CHR ''#''"

definition recfile_line_filter_all :: "strlist_elem \<Rightarrow> bool" where
  "recfile_line_filter_all el \<longleftrightarrow> recfile_line_filter el \<and> first_char (el_str el) \<noteq> CHR '':''"

text \<open>
  The inner loop appends the lines up to the next one that starts with a colon; a leading
  bar is dropped and keeps the line break.
\<close>

definition put_value_line :: "strbuf \<Rightarrow> string \<Rightarrow> strbuf res" where
  "put_value_line fld line =
     (if first_char line = CHR ''|'' then strbuf_puts fld (tl line) else strbuf_concat fld line)"

text \<open>
  The outer loop over the remaining lines \<^verbatim>\<open>lines->elvec[i ..]\<close>; \<open>fld\<close> is the buffer
  \<^verbatim>\<open>field\<close>, which strbuf_detach leaves empty again.
\<close>

function reassign_loop :: "strbuf \<Rightarrow> string list \<Rightarrow> cred_record \<Rightarrow> cred_record res" where
  "reassign_loop fld [] rec = Ok rec"
| "reassign_loop fld (l # ls) rec =
     (if first_char l \<noteq> CHR '':'' then reassign_loop fld ls rec
      else case map_of recfile_fmap l of
             None \<Rightarrow> reassign_loop fld ls rec
           | Some f \<Rightarrow>
               let body = takeWhile (\<lambda>l. first_char l \<noteq> CHR '':'') ls
               in if body = [] then reassign_loop fld ls rec
                  else bind_res (fold_res put_value_line fld body) (\<lambda>fld.
                       bind_res (strbuf_detach fld) (\<lambda>(v, fld).
                         reassign_loop fld (dropWhile (\<lambda>l. first_char l \<noteq> CHR '':'') ls)
                           (set_field f (Some (cstr_of v)) rec))))"
  by pat_completeness auto
termination
  by (relation "measure (\<lambda>(fld, ls, rec). length ls)") (auto simp: le_imp_less_Suc length_dropWhile_le)

declare reassign_loop.simps [simp del]

definition reassign_record :: "strlist \<Rightarrow> cred_record res" where
  "reassign_record lines =
     bind_res (live_elems lines) (\<lambda>els. reassign_loop STRBUF_INIT (map el_str els) INIT_RECORD)"

definition is_incomplete_record :: "cred_record \<Rightarrow> bool" where
  "is_incomplete_record rec \<longleftrightarrow> is_blank_str (sitename rec) \<or> is_blank_str (password rec)"

text \<open>\<open>fmap0\<close> is the list of names collected; its length is \<^verbatim>\<open>fcount\<close>.\<close>

definition format_missing_field :: "cred_record \<Rightarrow> string res" where
  "format_missing_field rec =
     bind_res (if is_blank_str (sitename rec) then Ok [''sitename'']
               else if is_blank_str (password rec) then Ok [''password'']
               else Halt (Bug ''unknown condition'')) (\<lambda>fmap0.
     bind_res (if length fmap0 = 2
               then fold_res push_name STRLIST_INIT_NODUP [fmap0 ! 0, ''and'', fmap0 ! 1]
               else if length fmap0 = 1 then fold_res push_name STRLIST_INIT_NODUP [fmap0 ! 0]
               else Halt (Bug ''invalid field count'')) (\<lambda>message.
     bind_res (strlist_join message '' '' EXT_JOIN_TAIL) (\<lambda>buf.
     bind_res (strlist_destroy message False) (\<lambda>_. Ok buf))))"

datatype read_outcome = RecordRead cred_record | Cancelled | MissingField string

text \<open>
  read_record_file: \<open>content\<close> is what the file holds.  For an empty file the code jumps to
  \<^verbatim>\<open>cancelled\<close> past the initialisation of \<^verbatim>\<open>rec_line\<close> and destroys an uninitialised list.
\<close>

definition read_record_file :: "string \<Rightarrow> read_outcome res" where
  "read_record_file content =
     (if content = [] then Halt (Undef ''rec_line is used uninitialised'')
      else bind_res (strlist_split STRLIST_INIT_DUPSTR (cstr_of content) NL (-1)) (\<lambda>(_, rec_line).
           bind_res (strlist_filter rec_line recfile_line_filter False) (\<lambda>(_, rec_line).
           if sl_size rec_line = 0
           then bind_res (strlist_destroy rec_line False) (\<lambda>_. Ok Cancelled)
           else bind_res (reassign_record rec_line) (\<lambda>rec.
                if is_incomplete_record rec
                then bind_res (strlist_filter rec_line recfile_line_filter_all False) (\<lambda>(_, rec_line).
                     bind_res (strlist_destroy rec_line False) (\<lambda>_.
                       if sl_size rec_line = 0 then Ok Cancelled
                       else bind_res (format_missing_field rec) (\<lambda>s. Ok (MissingField s))))
                else bind_res (strlist_destroy rec_line False) (\<lambda>_. Ok (RecordRead rec))))))"

section \<open>Groups, transactions, columns\<close>

definition have_security_group :: "cred_record \<Rightarrow> bool" where
  "have_security_group rec \<longleftrightarrow> guard rec \<noteq> None \<or> recovery rec \<noteq> None \<or> memo rec \<noteq> None"

definition have_misc_group :: "cred_record \<Rightarrow> bool" where
  "have_misc_group rec \<longleftrightarrow> rec_comment rec \<noteq> None"

definition is_need_transaction :: "cred_record \<Rightarrow> bool" where
  "is_need_transaction rec \<longleftrightarrow>
     (let group_count =
            of_bool (sitename rec \<noteq> None \<or> siteurl rec \<noteq> None \<or> username rec \<noteq> None \<or> password rec \<noteq> None)
            + of_bool (have_security_group rec) + of_bool (have_misc_group rec)
      in group_count > (1 :: int))"

text \<open>What is bound to the numbered parameters of a statement.\<close>

datatype sql_value = SqlNull | SqlText string | SqlInt int | SqlBlob string

definition bind_text_or_null :: "string option \<Rightarrow> sql_value" where
  "bind_text_or_null v = (case v of None \<Rightarrow> SqlNull | Some s \<Rightarrow> SqlText s)"

definition bind_record_basic_column :: "cred_record \<Rightarrow> (nat \<times> sql_value) list" where
  "bind_record_basic_column rec =
    [(1, bind_text_or_null (sitename rec)), (2, bind_text_or_null (siteurl rec)),
     (3, bind_text_or_null (username rec)), (4, bind_text_or_null (password rec))]"

text \<open>\<open>read_file path\<close> is the content xread delivers; an empty memo file is skipped.\<close>

definition bind_record_security_column ::
    "(string \<Rightarrow> string) \<Rightarrow> int \<Rightarrow> cred_record \<Rightarrow> (nat \<times> sql_value) list" where
  "bind_record_security_column read_file account_id rec =
    [(1, SqlInt account_id), (2, bind_text_or_null (guard rec)), (3, bind_text_or_null (recovery rec)),
     (4, case memo rec of
           None \<Rightarrow> SqlNull
         | Some path \<Rightarrow> (if read_file path = [] then SqlNull else SqlBlob (read_file path)))]"

definition bind_record_misc_column :: "int \<Rightarrow> cred_record \<Rightarrow> (nat \<times> sql_value) list" where
  "bind_record_misc_column account_id rec =
    [(1, SqlInt account_id), (2, bind_text_or_null (rec_comment rec))]"

text \<open>\<open>None\<close> when there is no database path: nothing is unlinked.\<close>

definition rm_journal_file :: "string option \<Rightarrow> string option res" where
  "rm_journal_file cred_db_path =
     (case cred_db_path of
        None \<Rightarrow> Ok None
      | Some p \<Rightarrow> bind_res (concat_str p ''-journal'') (\<lambda>s. Ok (Some s)))"

section \<open>The text written\<close>

definition field_value :: "cred_record \<Rightarrow> field \<Rightarrow> string option" where
  "field_value rec f = (if is_blank_str (get_field f rec) then None else get_field f rec)"

definition value_line :: "cred_record \<Rightarrow> field \<Rightarrow> string" where
  "value_line rec f = (case field_value rec f of None \<Rightarrow> [] | Some v \<Rightarrow> v)"

definition recfile_lines :: "cred_record \<Rightarrow> string list" where
  "recfile_lines rec =
     concat (map (\<lambda>(k, f). [k, value_line rec f, []]) recfile_fmap) @ common_record_lines"

definition lines_text :: "string list \<Rightarrow> string" where
  "lines_text ls = concat (map (\<lambda>l. l @ [NL]) ls)"

definition field_items :: "cred_record \<Rightarrow> string \<times> field \<Rightarrow> sink_op list" where
  "field_items rec fm =
     [Puts (fst fm),
      case field_value rec (snd fm) of None \<Rightarrow> Putchar NL | Some v \<Rightarrow> Puts v,
      Putchar NL]"

lemma put_record_field_items:
  "put_record_field rec sb fm = fold_res sink_put sb (field_items rec fm)"
  by (simp add: put_record_field_def field_items_def field_value_def split: option.splits)

lemma put_record_fields_items:
  "fold_res (put_record_field rec) sb fms = fold_res sink_put sb (concat (map (field_items rec) fms))"
  by (induction fms arbitrary: sb) (simp_all add: put_record_field_items fold_res_append)

lemma field_items_text:
  "concat (map sink_text (field_items rec fm)) = lines_text [fst fm, value_line rec (snd fm), []]"
  by (simp add: field_items_def lines_text_def value_line_def split: option.splits)

lemma lines_text_Nil [simp]: "lines_text [] = []"
  by (simp add: lines_text_def)

lemma lines_text_append [simp]: "lines_text (xs @ ys) = lines_text xs @ lines_text ys"
  by (simp add: lines_text_def)

lemma lines_text_concat: "lines_text (concat xss) = concat (map lines_text xss)"
  by (induction xss) (simp_all add: lines_text_def)

lemma join_lines_text: "ls \<noteq> [] \<Longrightarrow> join_with [NL] ls @ [NL] = lines_text ls"
  by (induction ls rule: induct_list012) (simp_all add: lines_text_def)

lemma recfile_items_text:
  "concat (map sink_text (concat (map (field_items rec) recfile_fmap) @ [Puts COMMON_RECORD_MESSAGE]))
   = lines_text (recfile_lines rec)"
proof -
  have "concat (map sink_text (concat (map (field_items rec) fms)))
      = lines_text (concat (map (\<lambda>(k, f). [k, value_line rec f, []]) fms))" for fms
    by (induction fms) (auto simp: field_items_text lines_text_append [symmetric] simp del: lines_text_append)
  moreover have "COMMON_RECORD_MESSAGE @ [NL] = lines_text common_record_lines"
    unfolding COMMON_RECORD_MESSAGE_def by (rule join_lines_text) (simp add: common_record_lines_def)
  ultimately show ?thesis by (simp add: recfile_lines_def)
qed

lemma common_lines_cstring: "l \<in> set common_record_lines \<Longrightarrow> cstring l \<and> NL \<notin> set l \<and> first_char l = CHR ''#''"
  by (auto simp: common_record_lines_def quoted_def)

text \<open>The fields of a record that fit the line format: one line each, or blank.\<close>

definition one_line :: "string \<Rightarrow> bool" where
  "one_line v \<longleftrightarrow> cstring v \<and> NL \<notin> set v \<and> first_char v \<notin> {CHR ''#'', CHR '':'', CHR ''|''}"

definition editable :: "cred_record \<Rightarrow> bool" where
  "editable rec \<longleftrightarrow> (\<forall>f v. field_value rec f = Some v \<longrightarrow> one_line v)
     \<and> length (lines_text (recfile_lines rec)) < SAFE_SIZE"

lemma recfile_keys: "(k, f) \<in> set recfile_fmap \<Longrightarrow> cstring k \<and> NL \<notin> set k \<and> first_char k = CHR '':''"
  by (auto simp: recfile_fmap_def)

lemma recfile_lines_plain:
  assumes "editable rec" "l \<in> set (recfile_lines rec)"
  shows "cstring l \<and> NL \<notin> set l"
  using assms(2)
proof -
  have v: "cstring (value_line rec f) \<and> NL \<notin> set (value_line rec f)" for f
    using assms(1) by (auto simp: editable_def one_line_def value_line_def split: option.splits)
  show ?thesis
    using assms(2) v recfile_keys common_lines_cstring by (fastforce simp: recfile_lines_def)
qed

lemma format_recfile_content_text:
  assumes "editable rec"
  shows "format_recfile_content rec
    = Ok (lines_text (recfile_lines rec), length (lines_text (recfile_lines rec)))"
proof -
  let ?items = "concat (map (field_items rec) recfile_fmap) @ [Puts COMMON_RECORD_MESSAGE]"
  let ?text = "lines_text (recfile_lines rec)"
  have ok: "\<forall>x\<in>set ?items. sink_ok x"
    by (auto simp: field_items_def split: option.splits)
  obtain sb where sb: "fold_res sink_put STRBUF_INIT ?items = Ok sb" "strbuf_rep sb ?text"
  proof -
    have len: "length ([] :: string) + length (concat (map sink_text ?items)) \<le> SAFE_SIZE"
      using assms unfolding editable_def recfile_items_text by simp
    have "\<exists>sb. fold_res sink_put STRBUF_INIT ?items = Ok sb
        \<and> strbuf_rep sb ([] @ concat (map sink_text ?items))"
      by (rule sb.put_all [OF strbuf_rep_INIT ok len])
    then show ?thesis using that unfolding recfile_items_text by auto
  qed
  have cs: "cstring ?text"
    using recfile_lines_plain [OF assms] by (auto simp: lines_text_def cstring_def)
  have ne: "?text \<noteq> []" by (simp add: recfile_lines_def lines_text_def recfile_fmap_def)
  note c = strbuf_contents [OF sb(2) ne cs]
  have "sb_length sb \<noteq> 0" using c(1) ne by simp
  moreover have "cstr_of (?text @ [NUL]) = ?text" using cs by simp
  moreover obtain sb1 where "fold_res sink_put STRBUF_INIT (concat (map (field_items rec) recfile_fmap)) = Ok sb1"
      "strbuf_puts sb1 COMMON_RECORD_MESSAGE = Ok sb"
    using sb(1) by (auto simp: fold_res_append bind_res_eq_Ok)
  ultimately show ?thesis
    using c unfolding format_recfile_content_def put_record_fields_items by simp
qed

section \<open>The values read\<close>

text \<open>Reference: the same walk over the lines, with values in place of the buffer.\<close>

definition value_text :: "string \<Rightarrow> string" where
  "value_text l = (if first_char l = CHR ''|'' then tl l @ [NL] else l)"

definition is_body :: "string \<Rightarrow> bool" where
  "is_body l \<longleftrightarrow> first_char l \<noteq> CHR '':''"

function parse_lines :: "string list \<Rightarrow> cred_record \<Rightarrow> cred_record" where
  "parse_lines [] rec = rec"
| "parse_lines (l # ls) rec =
     (if is_body l then parse_lines ls rec
      else case map_of recfile_fmap l of
             None \<Rightarrow> parse_lines ls rec
           | Some f \<Rightarrow>
               if takeWhile is_body ls = [] then parse_lines ls rec
               else parse_lines (dropWhile is_body ls)
                      (set_field f (Some (concat (map value_text (takeWhile is_body ls)))) rec))"
  by pat_completeness auto
termination
  by (relation "measure (\<lambda>(ls, rec). length ls)") (auto simp: le_imp_less_Suc length_dropWhile_le)

declare parse_lines.simps(2) [simp del]

lemma cstring_value_text: "cstring l \<Longrightarrow> cstring (value_text l)"
  by (cases l) (auto simp: value_text_def cstring_def)

lemma put_value_line_item:
  "put_value_line sb l = sink_put sb (if first_char l = CHR ''|'' then Puts (tl l) else Write l)"
  by (simp add: put_value_line_def)

lemma put_value_lines_rep:
  assumes "strbuf_rep sb s" "length s + length (concat (map value_text ls)) \<le> SAFE_SIZE"
  shows "\<exists>sb'. fold_res put_value_line sb ls = Ok sb' \<and> strbuf_rep sb' (s @ concat (map value_text ls))"
proof -
  let ?item = "\<lambda>l. if first_char l = CHR ''|'' then Puts (tl l) else Write l"
  have "fold_res put_value_line sb ls = fold_res sink_put sb (map ?item ls)"
    by (induction ls arbitrary: sb) (simp_all add: put_value_line_item)
  moreover have txt_eq: "map sink_text (map ?item ls) = map value_text ls"
    by (auto simp: value_text_def)
  moreover have ok: "\<forall>x\<in>set (map ?item ls). sink_ok x" by auto
  have "length s + length (concat (map sink_text (map ?item ls))) \<le> SAFE_SIZE"
    unfolding txt_eq using assms(2) by simp
  from sb.put_all [OF assms(1) ok this]
  have "\<exists>sb'. fold_res sink_put sb (map ?item ls) = Ok sb'
      \<and> strbuf_rep sb' (s @ concat (map value_text ls))"
    unfolding txt_eq .
  ultimately show ?thesis by simp
qed

lemma reassign_loop_parses:
  assumes "strbuf_rep fld []" "\<forall>l\<in>set ls. cstring l" "length (concat (map value_text ls)) \<le> SAFE_SIZE"
  shows "reassign_loop fld ls rec = Ok (parse_lines ls rec)"
  using assms
proof (induction ls rec arbitrary: fld rule: parse_lines.induct)
  case (1 rec)
  then show ?case by (simp add: reassign_loop.simps)
next
  case (2 l ls rec)
  let ?body = "takeWhile is_body ls" and ?rest = "dropWhile is_body ls"
  have eq: "takeWhile (\<lambda>l. first_char l \<noteq> CHR '':'') ls = ?body"
    "dropWhile (\<lambda>l. first_char l \<noteq> CHR '':'') ls = ?rest"
    by (simp_all add: is_body_def [abs_def])
  have tail: "\<forall>l\<in>set ls. cstring l" "length (concat (map value_text ls)) \<le> SAFE_SIZE"
    using "2.prems"(2,3) by auto
  show ?case
  proof (cases "\<not> is_body l \<and> map_of recfile_fmap l \<noteq> None \<and> ?body \<noteq> []")
    case False
    then show ?thesis
      using "2.IH"(1,2,3) "2.prems"(1) tail
      by (cases "map_of recfile_fmap l") (auto simp: reassign_loop.simps parse_lines.simps eq is_body_def)
  next
    case True
    then obtain f where f: "map_of recfile_fmap l = Some f" "\<not> is_body l" "?body \<noteq> []" by auto
    have split: "length (concat (map value_text ?body)) + length (concat (map value_text ?rest))
        = length (concat (map value_text ls))"
      by (metis concat_append length_append map_append takeWhile_dropWhile_id)
    let ?v = "concat (map value_text ?body)"
    have bound: "length ?v \<le> SAFE_SIZE" using split tail(2) by linarith
    obtain sb where sb: "fold_res put_value_line fld ?body = Ok sb" "strbuf_rep sb ?v"
      using put_value_lines_rep [OF "2.prems"(1), of ?body] bound by auto
    obtain sb' where sb': "strbuf_detach sb = Ok (?v @ [NUL], sb')" "strbuf_rep sb' []"
      by (rule strbuf_detach_rep [OF sb(2) bound])
    have "\<forall>l\<in>set ?body. cstring (value_text l)"
      using tail(1) by (auto dest!: set_takeWhileD intro: cstring_value_text)
    then have cv: "cstr_of (?v @ [NUL]) = ?v" by (subst cstr_of_cstring) (auto simp: cstring_def)
    have "reassign_loop sb' ?rest (set_field f (Some ?v) rec) = Ok (parse_lines ?rest (set_field f (Some ?v) rec))"
      using "2.IH"(4) f sb'(2) tail split by (auto dest: set_dropWhileD)
    then show ?thesis
      using f sb sb' cv by (simp add: reassign_loop.simps parse_lines.simps eq is_body_def)
  qed
qed

section \<open>Round trip\<close>

text \<open>A record without its blank fields.\<close>

definition tidy :: "cred_record \<Rightarrow> cred_record" where
  "tidy rec = fold (\<lambda>(k, f) r. set_field f (field_value rec f) r) recfile_fmap INIT_RECORD"

definition kept_lines :: "cred_record \<Rightarrow> (string \<times> field) list \<Rightarrow> string list" where
  "kept_lines rec fms =
     concat (map (\<lambda>(k, f). k # (case field_value rec f of None \<Rightarrow> [] | Some v \<Rightarrow> [v])) fms)"

definition keep_line :: "string \<Rightarrow> bool" where
  "keep_line l \<longleftrightarrow> first_char l \<noteq> NUL \<and> first_char l \<noteq> CHR ''#''"

lemma first_char_nonblank: "\<not> is_blank_str (Some v) \<Longrightarrow> cstring v \<Longrightarrow> first_char v \<noteq> NUL"
  by (cases v) (auto simp: is_blank_str_def is_empty_str_def)

lemma field_value_nonblank: "field_value rec f = Some v \<Longrightarrow> \<not> is_blank_str (Some v)"
  by (auto simp: field_value_def split: if_splits)

lemma editable_value:
  assumes "editable rec" "field_value rec f = Some v"
  shows "cstring v" "NL \<notin> set v" "is_body v" "keep_line v" "value_text v = v"
  using assms field_value_nonblank [OF assms(2)] first_char_nonblank [of v]
  by (auto simp: editable_def one_line_def is_body_def keep_line_def value_text_def)

lemma keep_recfile_fields:
  assumes "editable rec" "set fms \<subseteq> set recfile_fmap"
  shows "filter keep_line (concat (map (\<lambda>(k, f). [k, value_line rec f, []]) fms)) = kept_lines rec fms"
  using assms(2)
proof (induction fms)
  case (Cons kf fms)
  obtain k f where kf: "kf = (k, f)" by (cases kf)
  have "keep_line k" using Cons.prems kf recfile_keys [of k f] by (simp add: keep_line_def)
  moreover have "\<not> keep_line []" by (simp add: keep_line_def)
  moreover have "field_value rec f = Some v \<Longrightarrow> keep_line v" for v
    using editable_value(4) [OF assms(1)] .
  ultimately show ?case
    using Cons kf by (cases "field_value rec f") (auto simp: kept_lines_def value_line_def)
qed (simp add: kept_lines_def)

lemma keep_recfile_lines:
  assumes "editable rec"
  shows "filter keep_line (recfile_lines rec @ [[]]) = kept_lines rec recfile_fmap"
proof -
  have "filter keep_line common_record_lines = []"
    using common_lines_cstring by (auto simp: filter_empty_conv keep_line_def)
  moreover have "\<not> keep_line []" by (simp add: keep_line_def)
  ultimately show ?thesis
    using keep_recfile_fields [OF assms subset_refl] by (simp add: recfile_lines_def)
qed

lemma kept_lines_head: "kept_lines rec fms = [] \<or> (set fms \<subseteq> set recfile_fmap \<longrightarrow> \<not> is_body (hd (kept_lines rec fms)))"
  using recfile_keys by (cases fms) (auto simp: kept_lines_def is_body_def)

lemma parse_kept_lines:
  assumes "editable rec" "set fms \<subseteq> set recfile_fmap"
  shows "parse_lines (kept_lines rec fms) r
    = fold (\<lambda>(k, f) r. case field_value rec f of None \<Rightarrow> r | Some v \<Rightarrow> set_field f (Some v) r) fms r"
  using assms(2)
proof (induction fms arbitrary: r)
  case (Cons kf fms)
  obtain k f where kf: "kf = (k, f)" by (cases kf)
  have sub: "set fms \<subseteq> set recfile_fmap" and mem: "(k, f) \<in> set recfile_fmap" using Cons.prems kf by auto
  have "distinct (map fst recfile_fmap)" by (simp add: recfile_fmap_def)
  then have f: "map_of recfile_fmap k = Some f" using mem by simp
  have k: "\<not> is_body k" using recfile_keys [OF mem] by (simp add: is_body_def)
  have tl0: "takeWhile is_body (kept_lines rec fms) = []" "dropWhile is_body (kept_lines rec fms) = kept_lines rec fms"
    using kept_lines_head [of rec fms] sub by (cases "kept_lines rec fms"; auto)+
  show ?case
  proof (cases "field_value rec f")
    case None
    then show ?thesis using Cons.IH [OF sub] f k tl0
      by (simp add: kf kept_lines_def parse_lines.simps(2))
  next
    case (Some v)
    have v: "is_body v" "value_text v = v" using editable_value [OF assms(1) Some] by simp_all
    have "kept_lines rec (kf # fms) = k # v # kept_lines rec fms"
      using Some by (simp add: kf kept_lines_def)
    then show ?thesis using Cons.IH [OF sub] f k tl0 v Some by (simp add: kf parse_lines.simps(2))
  qed
qed (simp add: kept_lines_def)

lemma parse_kept: "editable rec \<Longrightarrow> parse_lines (kept_lines rec recfile_fmap) INIT_RECORD = tidy rec"
  by (subst parse_kept_lines) (auto simp: tidy_def recfile_fmap_def INIT_RECORD_def split: option.splits)

lemma value_texts_bound:
  "length (concat (map value_text (filter P ls))) \<le> length (lines_text ls)"
  by (induction ls) (auto simp: value_text_def lines_text_def)

lemma recfile_line_filter_plain: "recfile_line_filter (plain l) = keep_line l"
  by (simp add: recfile_line_filter_def keep_line_def)

lemma get_tidy: "get_field f (tidy rec) = field_value rec f"
  by (cases f) (simp_all add: tidy_def recfile_fmap_def INIT_RECORD_def)

lemma tidy_complete: "is_incomplete_record (tidy rec) = is_incomplete_record rec"
proof -
  have "is_blank_str None" by (simp add: is_blank_str_def is_empty_str_def)
  then have "is_blank_str (field_value rec f) = is_blank_str (get_field f rec)" for f
    by (simp add: field_value_def)
  then show ?thesis
    using get_tidy [of F_sitename rec] get_tidy [of F_password rec]
    by (simp add: is_incomplete_record_def)
qed

lemma read_back:
  assumes "editable rec" "\<not> is_incomplete_record rec"
  shows "read_record_file (lines_text (recfile_lines rec)) = Ok (RecordRead (tidy rec))"
proof -
  let ?text = "lines_text (recfile_lines rec)" and ?L = "recfile_lines rec @ [[]]"
  have ne: "?text \<noteq> []" "recfile_lines rec \<noteq> []" by (simp_all add: recfile_lines_def lines_text_def recfile_fmap_def)
  have cs: "cstring ?text"
    using recfile_lines_plain [OF assms(1)] by (auto simp: lines_text_def cstring_def)
  have fields: "split_on NL ?text = ?L"
  proof -
    have "?text = join_with [NL] ?L"
      using join_lines_text [OF ne(2)] ne(2) by (simp add: join_with_append)
    then show ?thesis
      using split_join [of ?L NL] recfile_lines_plain [OF assms(1)] by simp
  qed
  have "length ?text < SAFE_SIZE" using assms(1) by (simp add: editable_def)
  then obtain sl n where sl: "strlist_split STRLIST_INIT_DUPSTR ?text NL (-1) = Ok (n, sl)"
      "strlist_rep sl (map plain ?L)" "dupstr sl"
    using strlist_split_fields [OF _ strlist_rep_INIT(1), of NL ?text] fields
    by (auto simp: STRLIST_INIT_DUPSTR_def [THEN arg_cong, of dupstr] simp del: map_append)
  obtain fr sl1 where f1: "strlist_filter sl recfile_line_filter False = Ok (fr, sl1)"
      "strlist_rep sl1 (filter recfile_line_filter (map plain ?L))"
    using strlist_filter_rep [OF sl(2), of recfile_line_filter False]
    by (auto simp: recfile_line_filter_def)
  have kept: "filter recfile_line_filter (map plain ?L) = map plain (kept_lines rec recfile_fmap)"
    by (simp only: filter_map comp_def recfile_line_filter_plain keep_recfile_lines [OF assms(1)])
  have knonempty: "kept_lines rec recfile_fmap \<noteq> []" by (simp add: kept_lines_def recfile_fmap_def)
  have size: "sl_size sl1 \<noteq> 0"
    using strlist_rep_size [OF f1(2)] knonempty unfolding kept by simp
  have bound: "length (concat (map value_text (kept_lines rec recfile_fmap))) \<le> SAFE_SIZE"
    using value_texts_bound [of keep_line ?L] assms(1) unfolding keep_recfile_lines [OF assms(1)]
    by (simp add: editable_def lines_text_def)
  have kc: "\<forall>l\<in>set (kept_lines rec recfile_fmap). cstring l"
    using recfile_lines_plain [OF assms(1)] keep_recfile_lines [OF assms(1), symmetric] by auto
  have "reassign_record sl1 = Ok (tidy rec)"
    using live_elems_rep [OF f1(2)] reassign_loop_parses [OF strbuf_rep_INIT kc bound] parse_kept [OF assms(1)]
    unfolding kept by (simp add: reassign_record_def comp_def)
  moreover obtain x where "strlist_destroy sl1 False = Ok x"
    using strlist_destroy_rep [OF f1(2), of False] by auto
  ultimately show ?thesis
    using ne cs sl(1) f1(1) size assms(2) by (simp add: read_record_file_def tidy_complete)
qed

text \<open>
  C13. Writing a record for the editor and reading the untouched file back gives the same
  record, blank fields becoming NULL: for a record with a site name and a password whose
  values are single lines that do not start with a number sign, a colon or a bar.
\<close>

theorem recfile_roundtrip:
  assumes "editable rec" "\<not> is_incomplete_record rec"
  shows "bind_res (format_recfile_content rec) (\<lambda>(text, n). read_record_file text) = Ok (RecordRead (tidy rec))
    \<and> get_field f (tidy rec) = field_value rec f"
  using read_back [OF assms] get_tidy [of f rec] format_recfile_content_text [OF assms(1)] by simp

theorem recfile_roundtrip_witness:
  "let rec = INIT_RECORD\<lparr>sitename := Some ''site'', siteurl := Some '' '', password := Some ''pw''\<rparr>
   in bind_res (format_recfile_content rec) (\<lambda>(text, n). read_record_file text)
        = Ok (RecordRead (INIT_RECORD\<lparr>sitename := Some ''site'', password := Some ''pw''\<rparr>))"
proof -
  let ?rec = "INIT_RECORD\<lparr>sitename := Some ''site'', siteurl := Some '' '', password := Some ''pw''\<rparr>"
  have "field_value ?rec f = Some v \<Longrightarrow> v = ''site'' \<or> v = ''pw''" for f v
    by (cases f) (auto simp: field_value_def INIT_RECORD_def is_blank_str_def is_empty_str_def c_isspace_def split: if_splits)
  moreover have "length (lines_text (recfile_lines ?rec)) < SAFE_SIZE"
    by (simp add: lines_text_def recfile_lines_def recfile_fmap_def common_record_lines_def quoted_def
        value_line_def field_value_def INIT_RECORD_def is_blank_str_def is_empty_str_def size_bounds c_isspace_def)
  ultimately have "editable ?rec" by (fastforce simp: editable_def one_line_def)
  moreover have "\<not> is_incomplete_record ?rec"
    by (simp add: is_incomplete_record_def is_blank_str_def is_empty_str_def c_isspace_def)
  moreover have "tidy ?rec = INIT_RECORD\<lparr>sitename := Some ''site'', password := Some ''pw''\<rparr>"
    by (simp add: tidy_def recfile_fmap_def INIT_RECORD_def field_value_def is_blank_str_def is_empty_str_def c_isspace_def)
  ultimately show ?thesis
    using recfile_roundtrip [of ?rec] by (simp add: Let_def)
qed

end
