(* ===== verification/Messages.thy ===== *)
theory Messages
  imports Strutil Security
begin

text \<open>
  \<^verbatim>\<open>src/src/usage.c\<close>, \<^verbatim>\<open>message.h\<close>, \<^verbatim>\<open>pkerrno.c\<close> and the sqlite3 wrappers of
  \<^verbatim>\<open>wrapper.h\<close>: the reports written to stderr, the text of an error number, and what a
  failed sqlite3 call reports.  The text a format produces is the argument; \<open>None\<close>
  stands for a failing vsnprintf.  The quotation marks of the messages are U+2018 and U+2019.
\<close>

section \<open>Reports\<close>

definition REPORT_SIZE :: nat where "REPORT_SIZE = 4096"

text \<open>vsnprintf(buf + i, size, ...) producing \<open>out\<close>.\<close>

definition snprintf_at :: "char block \<Rightarrow> nat \<Rightarrow> size_t \<Rightarrow> string \<Rightarrow> char block res" where
  "snprintf_at b i n out =
     (if n = 0 then Ok b else mem_write b i (take (n - 1) out @ [NUL]))"

text \<open>The bytes that vreportf writes to stderr.\<close>

definition vreportf :: "string \<Rightarrow> string option \<Rightarrow> string option \<Rightarrow> string res" where
  "vreportf prefix formatted detail =
     bind_res (mem_write (replicate REPORT_SIZE None) 0 prefix) (\<lambda>b.
     let buf1 = length prefix; bufaval = sz_sub REPORT_SIZE buf1
     in bind_res (case formatted of
                    None \<Rightarrow> Ok (b, buf1, bufaval)
                  | Some out \<Rightarrow> bind_res (snprintf_at b buf1 bufaval out) (\<lambda>b.
                      Ok (b, buf1 + length out, sz_sub bufaval (length out)))) (\<lambda>(b, buf, bufaval).
     bind_res (case detail of
                 None \<Rightarrow> Ok (b, buf)
               | Some d \<Rightarrow>
                   if bufaval > 0
                   then bind_res (snprintf_at b buf bufaval (''; '' @ d)) (\<lambda>b.
                          Ok (b, buf + length (''; '' @ d)))
                   else Ok (b, buf)) (\<lambda>(b, buf).
     bind_res (mem_write b buf [NL]) (\<lambda>b. mem_read b 0 (buf + 1)))))"

definition note_routine :: "string option \<Rightarrow> string res" where
  "note_routine formatted = vreportf ''note: '' formatted None"

definition warning_routine :: "string option \<Rightarrow> string option \<Rightarrow> string res" where
  "warning_routine detail formatted = vreportf ''warning: '' formatted detail"

definition error_routine :: "string option \<Rightarrow> string option \<Rightarrow> (int \<times> string) res" where
  "error_routine detail formatted =
     bind_res (vreportf ''error: '' formatted detail) (\<lambda>bytes. Ok (-1, bytes))"

definition EXIT_FAILURE :: int where "EXIT_FAILURE = 1"

text \<open>die_routine: the tracker after the call, the bytes written and the exit status.\<close>

definition die_routine :: "int \<Rightarrow> string option \<Rightarrow> string option \<Rightarrow> (int \<times> string \<times> int) res" where
  "die_routine die_tracker detail formatted =
     (let die_tracker = die_tracker + 1
      in if die_tracker > 1
         then Ok (die_tracker, ''fatal: recursion detected in die handler'' @ [NL], EXIT_FAILURE)
         else bind_res (vreportf ''fatal: '' formatted detail) (\<lambda>bytes.
                Ok (die_tracker, bytes, EXIT_FAILURE)))"

text \<open>The prefix that names file and line is formatted, but not printed.\<close>

definition bug_routine :: "string \<Rightarrow> nat \<Rightarrow> string option \<Rightarrow> (string \<times> int) res" where
  "bug_routine file line formatted =
     bind_res (snprintf_at (replicate 256 None) 0 256 (''BUG: '' @ file @ '':'' @ dec_string line @ '': ''))
       (\<lambda>prefix. bind_res (vreportf ''fatal: '' formatted None) (\<lambda>bytes. Ok (bytes, EXIT_FAILURE)))"

section \<open>Error numbers\<close>

definition EBUF_SIZE :: nat where "EBUF_SIZE = 256"
definition ENOTREG :: int where "ENOTREG = -3"
definition EINCPHR :: int where "EINCPHR = -10"

text \<open>\<^verbatim>\<open>len = strlen(msg) >= EBUF_SIZE\<close> stores the truth value of the comparison.\<close>

definition strcpy_errmsg :: "char block \<Rightarrow> string \<Rightarrow> char block res" where
  "strcpy_errmsg buf msg =
     (let len = (of_bool (length msg \<ge> EBUF_SIZE) :: nat)
      in if len \<noteq> 0 then Halt (Bug ''error message length is more than EBUF_SIZE characters'')
         else bind_res (mem_read (map Some (msg @ [NUL])) 0 (len + 1)) (\<lambda>bytes. mem_write buf 0 bytes))"

definition static_errbuf :: "char block" where
  "static_errbuf = replicate EBUF_SIZE (Some NUL)"

text \<open>The static buffer after the call; the string returned starts at it.\<close>

definition pk_strerror :: "(int \<Rightarrow> string) \<Rightarrow> char block \<Rightarrow> int \<Rightarrow> char block res" where
  "pk_strerror strerror buf errnum =
     (if errnum \<ge> 0
      then bind_res (strcpy_errmsg buf (strerror errnum)) (\<lambda>buf.
           bind_res (mem_read buf 0 1) (\<lambda>c.
             if c_isupper (hd c) then mem_write buf 0 [c_tolower (hd c)] else Ok buf))
      else if errnum = ENOTREG then strcpy_errmsg buf ''not a regular file''
      else if errnum = EINCPHR then strcpy_errmsg buf ''invalid cipher config''
      else Halt (Bug ''unknown errnum''))"

section \<open>sqlite3 errors\<close>

datatype sqlite_fn = Sqlite_open | Sqlite_open_v2 | Sqlite_key | Sqlite_exec | Sqlite_avail
  | Sqlite_prepare_v2 | Sqlite_bind_blob | Sqlite_bind_int64 | Sqlite_bind_null
  | Sqlite_bind_text | Sqlite_step | Sqlite_other

text \<open>The variable arguments; reading one that was not passed is undefined.\<close>

datatype vararg = VStr string | VBytes "byte list" | VInt int

definition squote :: "string \<Rightarrow> string" where
  "squote s = [CHR 0xE2, CHR 0x80, CHR 0x98] @ s @ [CHR 0xE2, CHR 0x80, CHR 0x99]"

definition missing_vararg :: "'a res" where
  "missing_vararg = Halt (Undef ''va_arg without an argument'')"

text \<open>Each handler gives the text and whether sqlite3_errmsg is appended to it.\<close>

fun handle_sqlite3_exec_error :: "string \<Rightarrow> vararg list \<Rightarrow> string res" where
  "handle_sqlite3_exec_error path (VStr sql # VStr errmsg # _) =
     Ok (''Failed to execute '' @ squote sql @ '' on db '' @ squote path @ ''; '' @ errmsg)"
| "handle_sqlite3_exec_error path _ = missing_vararg"

fun handle_sqlite3_prepare_v2_error :: "string \<Rightarrow> vararg list \<Rightarrow> string res" where
  "handle_sqlite3_prepare_v2_error path (VStr sql # _) =
     Ok (''Failed to prepare statement '' @ squote sql @ '' on db '' @ squote path)"
| "handle_sqlite3_prepare_v2_error path _ = missing_vararg"

text \<open>The length is cut to 16 before it is compared with 16.\<close>

fun handle_sqlite3_bind_blob_error :: "string \<Rightarrow> vararg list \<Rightarrow> string res" where
  "handle_sqlite3_bind_blob_error path (VBytes bin # VInt bin_len # _) =
     (let bin_len = (if bin_len > 16 then 16 else bin_len)
      in bind_res (mem_read (map Some bin) 0 (nat bin_len)) (\<lambda>copy.
         bind_res (bin2hex (map Some copy) (nat bin_len)) (\<lambda>(hex, hex_len).
         bind_res (mem_read hex 0 hex_len) (\<lambda>digits.
           Ok (''Unable to bind blob value ''
               @ squote (map (\<lambda>x. char_of (unat x)) digits @ (if bin_len > 16 then ''...'' else []))
               @ '' on db '' @ squote path)))))"
| "handle_sqlite3_bind_blob_error path _ = missing_vararg"

fun int_text :: "int \<Rightarrow> string" where
  "int_text i = (if i < 0 then ''-'' @ dec_string (nat (- i)) else dec_string (nat i))"

fun handle_sqlite3_bind_int64_error :: "string \<Rightarrow> vararg list \<Rightarrow> string res" where
  "handle_sqlite3_bind_int64_error path (VInt val # _) =
     Ok (''Unable to bind int64 value '' @ squote (int_text val) @ '' on db '' @ squote path)"
| "handle_sqlite3_bind_int64_error path _ = missing_vararg"

fun handle_sqlite3_bind_text_error :: "string \<Rightarrow> vararg list \<Rightarrow> string res" where
  "handle_sqlite3_bind_text_error path (VStr val # VInt nr # _) =
     Ok (''Unable to bind text value '' @ squote (take 16 val @ (if nr > 16 then ''...'' else []))
         @ '' on db '' @ squote path)"
| "handle_sqlite3_bind_text_error path _ = missing_vararg"

text \<open>
  report_sqlite_error: \<open>errmsg\<close> is sqlite3_errmsg of the connection; the result is the
  return value and what was written to stderr.
\<close>

definition error_sqlerr :: "string \<Rightarrow> string \<Rightarrow> (int \<times> string) res" where
  "error_sqlerr errmsg txt = error_routine (Some errmsg) (Some txt)"

definition report_sqlite_error ::
    "string option \<Rightarrow> string \<Rightarrow> sqlite_fn \<Rightarrow> vararg list \<Rightarrow> (int \<times> string) res" where
  "report_sqlite_error msqlite3_pathname errmsg fn args =
     (case msqlite3_pathname of
        None \<Rightarrow> Halt (Bug ''no value given to msqlite3_pathname before report_sqlite_error()'')
      | Some path \<Rightarrow>
          (case fn of
             Sqlite_open \<Rightarrow> error_sqlerr errmsg (''unable to open db file '' @ squote path)
           | Sqlite_open_v2 \<Rightarrow> error_sqlerr errmsg (''unable to open db file '' @ squote path)
           | Sqlite_key \<Rightarrow> error_routine None (Some (''cannot apply key to cred db '' @ squote path))
           | Sqlite_exec \<Rightarrow> bind_res (handle_sqlite3_exec_error path args) (\<lambda>t. error_routine None (Some t))
           | Sqlite_avail \<Rightarrow>
               error_routine None (Some (''Encryption key is incorrect or '' @ squote path
                                         @ '' is not a valid db file.''))
           | Sqlite_prepare_v2 \<Rightarrow>
               bind_res (handle_sqlite3_prepare_v2_error path args) (error_sqlerr errmsg)
           | Sqlite_bind_blob \<Rightarrow>
               bind_res (handle_sqlite3_bind_blob_error path args) (error_sqlerr errmsg)
           | Sqlite_bind_int64 \<Rightarrow>
               bind_res (handle_sqlite3_bind_int64_error path args) (error_sqlerr errmsg)
           | Sqlite_bind_null \<Rightarrow>
               error_sqlerr errmsg (''Unable to bind null value on db '' @ squote path)
           | Sqlite_bind_text \<Rightarrow>
               bind_res (handle_sqlite3_bind_text_error path args) (error_sqlerr errmsg)
           | Sqlite_step \<Rightarrow>
               error_sqlerr errmsg (''Failed to step statement on db '' @ squote path)
           | Sqlite_other \<Rightarrow> Halt (Bug ''unhandled function pointer'')))"

text \<open>xio_die with the two branches as the code has them.\<close>

definition xio_die_text :: "string option \<Rightarrow> int \<Rightarrow> string \<Rightarrow> string res" where
  "xio_die_text xiopath fd prefix =
     (case xiopath of
        None \<Rightarrow> Halt (Undef ''printing a NULL string'')
      | Some p \<Rightarrow> Ok (prefix @ '' fd '' @ squote (int_text fd)))"

section \<open>The sqlite3 wrappers\<close>

definition SQLITE_OK :: int where "SQLITE_OK = 0"
definition SQLITE_DONE :: int where "SQLITE_DONE = 101"

text \<open>
  \<open>rc\<close> is what the wrapped function returned; \<open>rep\<close> is report_sqlite_error.
  run_sqlite3 passes no variable arguments on.
\<close>

definition run_sqlite3 ::
    "(sqlite_fn \<Rightarrow> vararg list \<Rightarrow> (int \<times> string) res) \<Rightarrow> sqlite_fn \<Rightarrow> int \<Rightarrow> (int \<times> string) res" where
  "run_sqlite3 rep fn rc = (if rc \<noteq> SQLITE_OK then rep fn [] else Ok (SQLITE_OK, []))"

definition msqlite3_bind_blob where
  "msqlite3_bind_blob rep rc val nr =
     (if rc = SQLITE_OK then Ok (SQLITE_OK, []) else rep Sqlite_bind_blob [VBytes val, VInt nr])"

definition msqlite3_bind_int64 where
  "msqlite3_bind_int64 rep rc val =
     (if rc = SQLITE_OK then Ok (SQLITE_OK, []) else rep Sqlite_bind_int64 [VInt val])"

definition msqlite3_bind_text where
  "msqlite3_bind_text rep rc val nr =
     (if rc = SQLITE_OK then Ok (SQLITE_OK, []) else rep Sqlite_bind_text [VStr val, VInt nr])"

definition msqlite3_step where
  "msqlite3_step rep rc =
     (if rc = SQLITE_DONE then Ok (SQLITE_DONE, []) else rep Sqlite_step [])"

text \<open>msqlite3_exec: sqlite3's message is passed on, and handed out or freed.\<close>

definition msqlite3_exec where
  "msqlite3_exec rep rc sql errmsg want_errmsg =
     bind_res (if rc \<noteq> SQLITE_OK then rep Sqlite_exec [VStr sql, VStr errmsg] else Ok (SQLITE_OK, []))
       (\<lambda>(rescode, out). Ok (rescode, out, if want_errmsg then Some errmsg else None))"

definition require_success :: "int \<Rightarrow> int \<Rightarrow> unit res" where
  "require_success rescode succode = (if rescode \<noteq> succode then Halt (Exit EXIT_FAILURE) else Ok ())"

section \<open>What is written\<close>

definition detail_text :: "string option \<Rightarrow> string" where
  "detail_text detail = (case detail of None \<Rightarrow> [] | Some d \<Rightarrow> ''; '' @ d)"

text \<open>A block whose first cells hold \<open>s\<close>.\<close>

definition holds :: "char block \<Rightarrow> string \<Rightarrow> bool" where
  "holds b s \<longleftrightarrow> length b = REPORT_SIZE \<and> length s \<le> REPORT_SIZE \<and> take (length s) b = map Some s"

lemma holds_write:
  assumes "holds b s" "length s + length xs \<le> REPORT_SIZE"
  shows "\<exists>b'. mem_write b (length s) xs = Ok b' \<and> holds b' (s @ xs)"
  using assms mem_write_prefix [of s b xs] by (auto simp: holds_def)

lemma holds_prefix: "holds b (s @ t) \<Longrightarrow> holds b s"
  using take_take [of "length s" "length (s @ t)" b] by (auto simp: holds_def min_def)

lemma holds_snprintf:
  assumes "holds b s" "length s + length out < REPORT_SIZE" "n = REPORT_SIZE - length s"
  shows "\<exists>b'. snprintf_at b (length s) n out = Ok b' \<and> holds b' (s @ out)"
proof -
  have "take (n - 1) out = out" "n \<noteq> 0" using assms(2,3) by simp_all
  moreover obtain b' where "mem_write b (length s) (out @ [NUL]) = Ok b'" "holds b' (s @ out @ [NUL])"
    using holds_write [OF assms(1), of "out @ [NUL]"] assms(2) by auto
  moreover have "holds b' (s @ out)"
    using holds_prefix [of b' "s @ out" "[NUL]"] calculation(4) by simp
  ultimately show ?thesis by (auto simp: snprintf_at_def)
qed

lemma holds_read: "holds b s \<Longrightarrow> mem_read b 0 (length s) = Ok s"
  using mem_read_prefix [of "length s" b s] by (auto simp: holds_def)

lemma write_past: "length b = REPORT_SIZE \<Longrightarrow> REPORT_SIZE < i + length xs
    \<Longrightarrow> mem_write b i xs = Halt (Undef ''write outside the block'')"
  by (simp add: mem_write_def)

lemma holds_start: "length prefix < REPORT_SIZE
    \<Longrightarrow> \<exists>b. mem_write (replicate REPORT_SIZE None) 0 prefix = Ok b \<and> holds b prefix"
  using holds_write [of "replicate REPORT_SIZE None" "[]" prefix] by (simp add: holds_def)

lemma snprintf_at_length: "snprintf_at b i n out = Ok b' \<Longrightarrow> length b' = length b"
  by (auto simp: snprintf_at_def split: if_splits dest: mem_write_length)

lemma snprintf_cut:
  assumes "length b = REPORT_SIZE" "i \<le> REPORT_SIZE" "n = REPORT_SIZE - i"
  shows "\<exists>b'. snprintf_at b i n out = Ok b' \<and> length b' = REPORT_SIZE"
  using assms by (auto simp: snprintf_at_def mem_write_def)

lemma vreportf_fits:
  assumes "length prefix + length out + length (detail_text detail) < REPORT_SIZE"
  shows "vreportf prefix (Some out) detail = Ok (prefix @ out @ detail_text detail @ [NL])"
proof -
  have sub: "sz_sub REPORT_SIZE (length prefix) = REPORT_SIZE - length prefix"
    "sz_sub (REPORT_SIZE - length prefix) (length out) = REPORT_SIZE - length (prefix @ out)"
    using assms by (simp_all add: REPORT_SIZE_def size_bounds)
  obtain b where b: "mem_write (replicate REPORT_SIZE None) 0 prefix = Ok b" "holds b prefix"
    using holds_start [of prefix] assms by auto
  obtain b1 where b1: "snprintf_at b (length prefix) (REPORT_SIZE - length prefix) out = Ok b1"
      "holds b1 (prefix @ out)"
    using holds_snprintf [OF b(2), of out] assms by auto
  have room: "REPORT_SIZE - length (prefix @ out) > 0" using assms by simp
  obtain b2 where b2: "(case detail of None \<Rightarrow> Ok (b1, length (prefix @ out))
      | Some d \<Rightarrow> bind_res (snprintf_at b1 (length (prefix @ out)) (REPORT_SIZE - length (prefix @ out)) (''; '' @ d))
          (\<lambda>b. Ok (b, length (prefix @ out) + length (''; '' @ d))))
      = Ok (b2, length (prefix @ out @ detail_text detail))" "holds b2 (prefix @ out @ detail_text detail)"
  proof (cases detail)
    case None
    then show ?thesis using b1(2) that by (simp add: detail_text_def)
  next
    case (Some d)
    then show ?thesis
      using holds_snprintf [OF b1(2) _ refl, of "''; '' @ d"] assms that by (auto simp: detail_text_def)
  qed
  obtain b3 where b3: "mem_write b2 (length (prefix @ out @ detail_text detail)) [NL] = Ok b3"
      "holds b3 ((prefix @ out @ detail_text detail) @ [NL])"
    using holds_write [OF b2(2), of "[NL]"] assms by auto
  show ?thesis
    using b(1) b1(1) b2(1) b3(1) holds_read [OF b3(2)] room sub
    by (cases detail) (simp_all add: vreportf_def)
qed

lemma vreportf_overflows:
  assumes "length prefix < REPORT_SIZE" "length out \<le> INT_MAX"
    "REPORT_SIZE \<le> length prefix + length out + length (detail_text detail)"
  shows "vreportf prefix (Some out) detail = Halt (Undef ''write outside the block'')"
proof -
  have sub: "sz_sub REPORT_SIZE (length prefix) = REPORT_SIZE - length prefix"
    using assms(1) by (simp add: REPORT_SIZE_def size_bounds)
  obtain b where b: "mem_write (replicate REPORT_SIZE None) 0 prefix = Ok b" "holds b prefix"
    using holds_start [OF assms(1)] by auto
  obtain b1 where b1: "snprintf_at b (length prefix) (REPORT_SIZE - length prefix) out = Ok b1"
      "length b1 = REPORT_SIZE"
    using snprintf_cut [of b "length prefix" _ out] assms(1) b(2) by (auto simp: holds_def)
  let ?i = "length prefix + length out" and ?a = "sz_sub (REPORT_SIZE - length prefix) (length out)"
  have end_: "?i + length (detail_text detail) \<ge> REPORT_SIZE" using assms(3) by simp
  show ?thesis
  proof (cases "detail = None \<or> ?a = 0")
    case True
    have "?a = 0 \<Longrightarrow> ?i \<ge> REPORT_SIZE"
      using assms(1) sz_sub_exact [of "length out" "REPORT_SIZE - length prefix"]
      by (cases "length out \<le> REPORT_SIZE - length prefix") (auto simp: REPORT_SIZE_def size_bounds)
    then have "?i \<ge> REPORT_SIZE" using True end_ by (auto simp: detail_text_def)
    then have "mem_write b1 ?i [NL] = Halt (Undef ''write outside the block'')"
      using b1(2) by (intro write_past) simp_all
    then show ?thesis
      using True b b1 sub by (cases detail) (auto simp: vreportf_def Let_def)
  next
    case False
    then obtain d where d: "detail = Some d" "?a > 0" by auto
    have a: "length out \<le> REPORT_SIZE - length prefix \<Longrightarrow> ?a = REPORT_SIZE - ?i"
      by (simp add: REPORT_SIZE_def size_bounds)
    have "snprintf_at b1 ?i ?a (''; '' @ d) = Halt (Undef ''write outside the block'')
        \<or> (\<exists>b2. snprintf_at b1 ?i ?a (''; '' @ d) = Ok b2 \<and> length b2 = REPORT_SIZE)"
      using b1(2) by (auto simp: snprintf_at_def mem_write_def)
    moreover have "length b2 = REPORT_SIZE
        \<Longrightarrow> mem_write b2 (?i + length (''; '' @ d)) [NL] = Halt (Undef ''write outside the block'')" for b2
      by (rule write_past) (use end_ d in \<open>simp_all add: detail_text_def\<close>)
    ultimately show ?thesis
      using d b b1 sub by (auto simp: vreportf_def)
  qed
qed

text \<open>
  A report is written as prefix, text, detail and a line break as long as all of that
  fits the 4096 bytes of the stack buffer; as soon as it does not, vreportf writes past the
  end of the buffer, whatever part is the long one.
\<close>

theorem vreportf_bound:
  assumes "length prefix < REPORT_SIZE" "length out \<le> INT_MAX"
  shows "vreportf prefix (Some out) detail =
    (if length prefix + length out + length (detail_text detail) < REPORT_SIZE
     then Ok (prefix @ out @ detail_text detail @ [NL])
     else Halt (Undef ''write outside the block''))"
  using vreportf_fits [of prefix out detail] vreportf_overflows [OF assms, of detail] by auto

theorem vreportf_bound_witness:
  "vreportf ''error: '' (Some ''bad'') (Some ''why'') = Ok (''error: bad; why'' @ [NL])
   \<and> vreportf ''note: '' (Some (replicate 4090 (CHR ''x''))) None = Halt (Undef ''write outside the block'')"
  using vreportf_bound [of "''error: ''" "''bad''" "Some ''why''"]
    vreportf_bound [of "''note: ''" "replicate 4090 (CHR ''x'')" None]
  by (simp add: REPORT_SIZE_def size_bounds detail_text_def)

definition errbuf_ok :: "char block \<Rightarrow> bool" where
  "errbuf_ok buf \<longleftrightarrow> (\<exists>c. buf = Some c # replicate (EBUF_SIZE - 1) (Some NUL))"

lemma errbuf_ok_static: "errbuf_ok static_errbuf"
  by (simp add: errbuf_ok_def static_errbuf_def EBUF_SIZE_def numeral_eq_Suc)

lemma strcpy_errmsg_first:
  assumes "errbuf_ok buf" "length msg < EBUF_SIZE"
  shows "strcpy_errmsg buf msg = Ok (Some (first_char msg) # replicate (EBUF_SIZE - 1) (Some NUL))"
  using assms by (cases msg) (auto simp: errbuf_ok_def strcpy_errmsg_def mem_read_def mem_write_def EBUF_SIZE_def)

lemma c_tolower_NUL: "c_tolower c = NUL \<longleftrightarrow> c = NUL"
proof (cases "c_isupper c")
  case True
  then have "65 \<le> char_code c" "char_code c \<le> 90" by (simp_all add: ctype_simps)
  then have "char_code (c_tolower c) = char_code c + 32"
    using True by (simp add: c_tolower_def char_code_def)
  moreover have "char_code NUL = 0" by (simp add: char_code_def)
  ultimately show ?thesis using \<open>65 \<le> char_code c\<close> by (metis add_is_0 not_numeral_le_zero)
qed (simp add: c_tolower_def)

text \<open>
  The text of an error number is its first character only, in lower case: the length of
  the message is lost, so one byte is copied into the zeroed static buffer, and this holds
  again after any number of calls.
\<close>

theorem pk_strerror_first_char:
  assumes "errbuf_ok buf" "errnum \<ge> 0" "length (strerror errnum) < EBUF_SIZE"
  shows "\<exists>buf'. pk_strerror strerror buf errnum = Ok buf' \<and> errbuf_ok buf'
    \<and> cstr_of (map the buf') = map c_tolower (take 1 (cstr_of (strerror errnum)))"
proof -
  let ?c = "first_char (strerror errnum)"
  have low: "\<not> c_isupper ?c \<Longrightarrow> c_tolower ?c = ?c" by (simp add: c_tolower_def)
  have nul: "c_tolower ?c = NUL \<longleftrightarrow> ?c = NUL"
    by (rule c_tolower_NUL)
  let ?b = "Some (c_tolower ?c) # replicate (EBUF_SIZE - 1) (Some NUL)"
  have "pk_strerror strerror buf errnum = Ok ?b"
    using strcpy_errmsg_first [OF assms(1,3)] assms(2) low
    by (auto simp: pk_strerror_def mem_read_def mem_write_def EBUF_SIZE_def)
  moreover have "cstr_of (map the ?b) = map c_tolower (take 1 (cstr_of (strerror errnum)))"
    using nul by (cases "strerror errnum") (auto simp: cstr_of_def EBUF_SIZE_def)
  moreover have "errbuf_ok ?b" by (simp add: errbuf_ok_def)
  ultimately show ?thesis by blast
qed

theorem pk_strerror_first_char_witness:
  "\<exists>buf'. pk_strerror (\<lambda>n. ''No such file or directory'') static_errbuf 2 = Ok buf'
    \<and> errbuf_ok buf' \<and> cstr_of (map the buf') = ''n''"
proof -
  have "map c_tolower (take 1 (cstr_of ''No such file or directory'')) = ''n''"
    by (simp add: cstr_of_def c_tolower_def ctype_simps char_of_def bit_0)
  then show ?thesis
    using pk_strerror_first_char [OF errbuf_ok_static, of 2 "\<lambda>n. ''No such file or directory''"]
    by (simp add: EBUF_SIZE_def)
qed

text \<open>
  A statement that cannot be prepared is never reported: run_sqlite3 hands no arguments
  on, and the handler reads the statement text that was not passed.  Every other wrapped
  call that goes through run_sqlite3 is reported with -1.
\<close>

theorem run_sqlite3_reports:
  assumes "length path < 1024" "length errmsg < 2048"
    "rc \<noteq> SQLITE_OK" "fn \<in> {Sqlite_open, Sqlite_open_v2, Sqlite_key, Sqlite_avail, Sqlite_prepare_v2, Sqlite_bind_null}"
  shows "if fn = Sqlite_prepare_v2
    then run_sqlite3 (report_sqlite_error (Some path) errmsg) fn rc = Halt (Undef ''va_arg without an argument'')
    else (\<exists>out. run_sqlite3 (report_sqlite_error (Some path) errmsg) fn rc = Ok (-1, out))"
proof -
  have "length out < 1200 \<Longrightarrow> \<exists>w. error_sqlerr errmsg out = Ok (-1, w)" for out
    using vreportf_fits [of "''error: ''" out "Some errmsg"] assms(2)
    by (simp add: error_sqlerr_def error_routine_def detail_text_def REPORT_SIZE_def)
  moreover have "length out < 1200 \<Longrightarrow> \<exists>w. error_routine None (Some out) = Ok (-1, w)" for out
    using vreportf_fits [of "''error: ''" out None] by (simp add: error_routine_def detail_text_def REPORT_SIZE_def)
  ultimately show ?thesis
    using assms by (auto simp: run_sqlite3_def report_sqlite_error_def missing_vararg_def squote_def)
qed

theorem run_sqlite3_reports_witness:
  "run_sqlite3 (report_sqlite_error (Some ''.pk-cred-db'') ''no such table: account'') Sqlite_prepare_v2 1
     = Halt (Undef ''va_arg without an argument'')"
  using run_sqlite3_reports [of "''.pk-cred-db''" "''no such table: account''" 1 Sqlite_prepare_v2]
  by (simp add: SQLITE_OK_def)

end
