(* ===== verification/System_Calls.thy ===== *)
theory System_Calls
  imports Strbuf Strutil Messages
begin

text \<open>
  \<^verbatim>\<open>src/src/wrapper.c\<close>, the descriptor wrappers of \<^verbatim>\<open>wrapper.h\<close>,
  \<^verbatim>\<open>src/src/filesys.c\<close> and \<^verbatim>\<open>compat/uni/filesys.c\<close>.  What the kernel answers is
  a parameter: the answers of successive read or write calls as a list, the outcome of
  open, getcwd, mkdir, access and stat as a value.
\<close>

section \<open>Interrupted and non-blocking calls\<close>

datatype errnum = EINTR | EAGAIN | EWOULDBLOCK | ENOENT | EACCES | EEXIST | ERANGE | Eother int

datatype io_answer = Count nat | Fail errnum

text \<open>Whether the call waits in poll and is repeated.\<close>

definition handle_nonblock :: "errnum \<Rightarrow> bool" where
  "handle_nonblock err = (if err \<noteq> EAGAIN \<and> err \<noteq> EWOULDBLOCK then False else True)"

definition MAX_IO_SIZE :: nat where "MAX_IO_SIZE = 8 * 1024 * 1024"

text \<open>
  The loop of pk_read and pk_write over the answers of the system call; \<open>None\<close> when the
  answers end before the call is done.  The result is the last answer and the answers left.
\<close>

fun io_loop :: "io_answer list \<Rightarrow> (io_answer \<times> io_answer list) option" where
  "io_loop [] = None"
| "io_loop (Count nr # as) = Some (Count nr, as)"
| "io_loop (Fail err # as) =
     (if err = EINTR then io_loop as
      else if handle_nonblock err then io_loop as
      else Some (Fail err, as))"

text \<open>The bytes asked for in each call, and the outcome.\<close>

definition pk_read :: "io_answer list \<Rightarrow> size_t \<Rightarrow> size_t \<times> (io_answer \<times> io_answer list) option" where
  "pk_read as nbytes = (if nbytes > MAX_IO_SIZE then MAX_IO_SIZE else nbytes, io_loop as)"

definition pk_write :: "io_answer list \<Rightarrow> size_t \<Rightarrow> size_t \<times> (io_answer \<times> io_answer list) option" where
  "pk_write as n = (if n > MAX_IO_SIZE then MAX_IO_SIZE else n, io_loop as)"

text \<open>\<open>None\<close>: still waiting.\<close>

definition xwrite :: "io_answer list \<Rightarrow> size_t \<Rightarrow> nat res option" where
  "xwrite as n =
     (case snd (pk_write as n) of
        None \<Rightarrow> None
      | Some (Fail _, _) \<Rightarrow> Some (Halt (Die ''Unable to write content to''))
      | Some (Count nr, _) \<Rightarrow>
          Some (if nr \<noteq> n then Halt (Die ''Content was truncated when writing to'') else Ok nr))"

definition xread :: "io_answer list \<Rightarrow> size_t \<Rightarrow> nat res option" where
  "xread as nbytes =
     (case snd (pk_read as nbytes) of
        None \<Rightarrow> None
      | Some (Fail _, _) \<Rightarrow> Some (Halt (Die ''Unable to read content from''))
      | Some (Count nr, _) \<Rightarrow> Some (Ok nr))"

text \<open>open and lseek: \<open>Inl\<close> the error number, \<open>Inr\<close> descriptor or offset.\<close>

definition xopen :: "errnum + int \<Rightarrow> int res" where
  "xopen answer = (case answer of Inl _ \<Rightarrow> Halt (Die ''Failed to open file'') | Inr fd \<Rightarrow> Ok fd)"

definition xlseek :: "errnum + int \<Rightarrow> int res" where
  "xlseek answer = (case answer of Inl _ \<Rightarrow> Halt (Die ''Unable to seek on'') | Inr off \<Rightarrow> Ok off)"

section \<open>The working directory\<close>

text \<open>
  \<open>getcwd size\<close> is what getcwd answers for a buffer of that size.  The loop has no bound of its own.
\<close>

partial_function (option) getcwd_loop :: "(size_t \<Rightarrow> errnum + string) \<Rightarrow> size_t \<Rightarrow> string res option" where
  "getcwd_loop getcwd sz =
     (case xmalloc sz :: char block res of
        Halt h \<Rightarrow> Some (Halt h)
      | Ok _ \<Rightarrow>
          (case getcwd sz of
             Inr cwd \<Rightarrow> Some (Ok cwd)
           | Inl err \<Rightarrow>
               if err = ERANGE
               then (case fixed_growth sz of
                       Halt h \<Rightarrow> Some (Halt h)
                     | Ok sz \<Rightarrow> getcwd_loop getcwd sz)
               else Some (Halt (Die ''Unable to get the current working directory''))))"

text \<open>\<open>buf\<close> is the static buffer, \<open>None\<close> for NULL.\<close>

definition get_working_dir_routine ::
    "(size_t \<Rightarrow> errnum + string) \<Rightarrow> string option \<Rightarrow> bool \<Rightarrow> string res option" where
  "get_working_dir_routine getcwd buf force_get =
     (if \<not> force_get \<and> buf \<noteq> None then Some (Ok (the buf))
      else case fixed_growth 64 of
             Halt h \<Rightarrow> Some (Halt h)
           | Ok sz \<Rightarrow> getcwd_loop getcwd sz)"

section \<open>Paths and files\<close>

abbreviation DIRSEPCHAR :: char where "DIRSEPCHAR \<equiv> CHR ''/''"

definition is_abs_path :: "string \<Rightarrow> bool" where
  "is_abs_path p \<longleftrightarrow> first_char p \<noteq> NUL \<and> first_char p = CHR ''/''"

definition BACKSLASH :: char where "BACKSLASH = CHR 0x5C"

definition prefix_filename :: "string \<Rightarrow> string \<Rightarrow> string res" where
  "prefix_filename prefix filename =
     (if is_abs_path filename then Ok filename
      else bind_res (strbuf_write STRBUF_INIT prefix (length prefix)) (\<lambda>sb.
           let filename =
                 (if first_char filename \<noteq> NUL \<and> first_char filename = CHR ''.''
                     \<and> (first_char (tl filename) = CHR ''/'' \<or> first_char (tl filename) = BACKSLASH)
                  then drop 2 filename else filename)
           in bind_res (strbuf_printf sb (DIRSEPCHAR # filename)) (\<lambda>sb.
              bind_res (buf_read (sb_buf sb) 0 (sb_length sb + 1)) (\<lambda>bs. Ok (cstr_of bs)))))"

text \<open>\<open>mk\<close>: \<open>None\<close> when mkdir succeeds; \<open>wx\<close>: access with W_OK and X_OK.\<close>

definition avail_dir :: "(string \<Rightarrow> errnum option) \<Rightarrow> (string \<Rightarrow> bool) \<Rightarrow> string \<Rightarrow> int" where
  "avail_dir mk wx path =
     (case mk path of
        None \<Rightarrow> 0
      | Some err \<Rightarrow> if err \<noteq> EEXIST then -1 else if \<not> wx path then -1 else 0)"

text \<open>dirname of the C library.\<close>

definition strip_slashes :: "string \<Rightarrow> string" where
  "strip_slashes p = rev (dropWhile (\<lambda>c. c = DIRSEPCHAR) (rev p))"

definition c_dirname :: "string \<Rightarrow> string" where
  "c_dirname path =
     (let p = strip_slashes path;
          dir = rev (dropWhile (\<lambda>c. c \<noteq> DIRSEPCHAR) (rev p))
      in if path \<noteq> [] \<and> p = [] then ''/''
         else if dir = [] then ''.''
         else if strip_slashes dir = [] then ''/'' else strip_slashes dir)"

definition avail_file_dir :: "(string \<Rightarrow> errnum option) \<Rightarrow> (string \<Rightarrow> bool) \<Rightarrow> string \<Rightarrow> int" where
  "avail_file_dir mk wx path = avail_dir mk wx (c_dirname path)"

definition avail_file_dir_or_die :: "(string \<Rightarrow> errnum option) \<Rightarrow> (string \<Rightarrow> bool) \<Rightarrow> string \<Rightarrow> unit res" where
  "avail_file_dir_or_die mk wx path = require_success (avail_file_dir mk wx path) 0"

text \<open>populate_file: open, write everything or stop.\<close>

definition populate_file :: "errnum + int \<Rightarrow> io_answer list \<Rightarrow> string \<Rightarrow> unit res option" where
  "populate_file opened as content =
     (case xopen opened of
        Halt h \<Rightarrow> Some (Halt h)
      | Ok fd \<Rightarrow>
          (case xwrite as (length content) of
             None \<Rightarrow> None
           | Some r \<Rightarrow> Some (bind_res r (\<lambda>_. Ok ()))))"

text \<open>The permission bits, as in sys/stat.h; R_OK, W_OK and X_OK are 4, 2 and 1.\<close>

record file_stat =
  st_uid :: nat
  st_gid :: nat
  st_regular :: bool
  st_mode :: uint

definition R_OK :: uint where "R_OK = 4"
definition W_OK :: uint where "W_OK = 2"
definition X_OK :: uint where "X_OK = 1"

definition match_mode :: "uint \<Rightarrow> uint \<Rightarrow> uint \<Rightarrow> uint \<Rightarrow> bool" where
  "match_mode m1 f1 m2 f2 = (if and m1 f1 \<noteq> 0 then and m2 f2 \<noteq> 0 else True)"

definition test_file_mode :: "nat \<Rightarrow> nat \<Rightarrow> file_stat \<Rightarrow> uint \<Rightarrow> int" where
  "test_file_mode euid egid st mode =
     (if st_uid st = euid
      then (if match_mode mode R_OK (st_mode st) 0x100 \<and> match_mode mode W_OK (st_mode st) 0x80
               \<and> match_mode mode X_OK (st_mode st) 0x40 then 0 else 1)
      else if st_gid st = egid
      then (if match_mode mode R_OK (st_mode st) 0x20 \<and> match_mode mode W_OK (st_mode st) 0x10
               \<and> match_mode mode X_OK (st_mode st) 8 then 0 else 1)
      else (if match_mode mode R_OK (st_mode st) 4 \<and> match_mode mode W_OK (st_mode st) 2
               \<and> match_mode mode X_OK (st_mode st) 1 then 0 else 1))"

datatype access_errno = Stat_failed errnum | Not_regular | Access_denied

text \<open>\<open>None\<close> is a return value of 0.\<close>

definition access_regular ::
    "nat \<Rightarrow> nat \<Rightarrow> (string \<Rightarrow> errnum + file_stat) \<Rightarrow> string \<Rightarrow> uint \<Rightarrow> access_errno option" where
  "access_regular euid egid stat name type =
     (case stat name of
        Inl err \<Rightarrow> Some (Stat_failed err)
      | Inr st \<Rightarrow>
          if \<not> st_regular st then Some Not_regular
          else if test_file_mode euid egid st type \<noteq> 0 then Some Access_denied
          else None)"

section \<open>Repeated calls\<close>

definition retried :: "io_answer \<Rightarrow> bool" where
  "retried a \<longleftrightarrow> a \<in> Fail ` {EINTR, EAGAIN, EWOULDBLOCK}"

lemma io_loop_dropWhile:
  "io_loop as = (case dropWhile retried as of [] \<Rightarrow> None | a # as' \<Rightarrow> Some (a, as'))"
  by (induction as rule: io_loop.induct) (auto simp: retried_def handle_nonblock_def)

text \<open>An answer the kernel may give to a request of \<open>n\<close> bytes.\<close>

definition fits :: "size_t \<Rightarrow> io_answer \<Rightarrow> bool" where
  "fits n a \<longleftrightarrow> (case a of Count nr \<Rightarrow> nr \<le> n | Fail _ \<Rightarrow> True)"

text \<open>
  xwrite repeats an interrupted or non-blocking write as often as needed and returns
  exactly if the first other answer is the whole length; because one request is cut to
  8 MiB and the rest is never written, longer contents always end in a fatal error.
\<close>

theorem xwrite_all_or_die:
  assumes "list_all retried as" "\<not> retried a" "fits (fst (pk_write (as @ a # as') n)) a"
  shows "xwrite (as @ a # as') n =
      (if a = Count n \<and> n \<le> MAX_IO_SIZE then Some (Ok n)
       else if a \<in> range Count then Some (Halt (Die ''Content was truncated when writing to''))
       else Some (Halt (Die ''Unable to write content to'')))"
proof -
  have "dropWhile retried (as @ a # as') = a # as'"
    using assms(1,2) by (simp add: list_all_iff)
  then have "io_loop (as @ a # as') = Some (a, as')"
    by (simp add: io_loop_dropWhile)
  then show ?thesis
    using assms(3) by (cases a) (auto simp: xwrite_def pk_write_def fits_def split: if_splits)
qed

theorem xwrite_all_or_die_witness:
  "xwrite [Fail EINTR, Fail EAGAIN, Count 5] 5 = Some (Ok 5)
   \<and> xwrite [Count (8 * 1024 * 1024)] (9 * 1024 * 1024)
       = Some (Halt (Die ''Content was truncated when writing to''))"
  using xwrite_all_or_die [of "[Fail EINTR, Fail EAGAIN]" "Count 5" "[]" 5]
    xwrite_all_or_die [of "[]" "Count (8 * 1024 * 1024)" "[]" "9 * 1024 * 1024"]
  by (simp add: retried_def fits_def pk_write_def MAX_IO_SIZE_def image_iff)

section \<open>Finding the working directory\<close>

text \<open>getcwd as POSIX has it for a directory name \<open>cwd\<close>.\<close>

definition posix_getcwd :: "string \<Rightarrow> size_t \<Rightarrow> errnum + string" where
  "posix_getcwd cwd sz = (if length cwd < sz then Inr cwd else Inl ERANGE)"

lemma getcwd_loop_returns:
  assumes "length cwd < SAFE_SIZE" "sz \<le> 2 * SAFE_SIZE"
  shows "getcwd_loop (posix_getcwd cwd) sz = Some (Ok cwd)"
  using assms(2)
proof (induction "Suc (length cwd) - sz" arbitrary: sz rule: less_induct)
  case less
  have m: "xmalloc sz = Ok (replicate sz None :: char block)"
    using less.prems by (simp add: xmalloc_def size_bounds)
  show ?case
  proof (cases "length cwd < sz")
    case True
    then show ?thesis using m by (subst getcwd_loop.simps) (simp add: posix_getcwd_def)
  next
    case False
    have g: "fixed_growth sz = Ok ((sz + 16) * 3 div 2)"
      by (rule fixed_growth_exact) (use less.prems in \<open>simp add: size_bounds\<close>)
    have "(sz + 16) * 3 div 2 \<le> 2 * SAFE_SIZE" "sz < (sz + 16) * 3 div 2"
      using False assms(1) by (simp_all add: SAFE_SIZE_def)
    then have "getcwd_loop (posix_getcwd cwd) ((sz + 16) * 3 div 2) = Some (Ok cwd)"
      using False by (intro less.hyps) simp_all
    then show ?thesis
      using m g False by (subst getcwd_loop.simps) (simp add: posix_getcwd_def)
  qed
qed

text \<open>
  C40. The loop that enlarges the buffer for getcwd ends with the name of the directory,
  however long it is; a cached name is returned without a call unless a new one is forced.
\<close>

theorem get_working_dir_returns:
  assumes "length cwd < SAFE_SIZE"
  shows "get_working_dir_routine (posix_getcwd cwd) buf force_get
    = Some (Ok (if force_get \<or> buf = None then cwd else the buf))"
proof -
  have "fixed_growth 64 = Ok 120"
    by (subst fixed_growth_exact) (simp_all add: size_bounds)
  then show ?thesis
    using getcwd_loop_returns [OF assms, of 120] by (auto simp: get_working_dir_routine_def SAFE_SIZE_def)
qed

theorem get_working_dir_returns_witness:
  "get_working_dir_routine (posix_getcwd (replicate 500 (CHR ''a''))) None False
     = Some (Ok (replicate 500 (CHR ''a'')))"
  using get_working_dir_returns [of "replicate 500 (CHR ''a'')" None False] by (simp add: size_bounds)

section \<open>Prefixed names\<close>

fun skip_dot :: "string \<Rightarrow> string" where
  "skip_dot (c # d # r) = (if c = CHR ''.'' \<and> (d = CHR ''/'' \<or> d = BACKSLASH) then r else c # d # r)"
| "skip_dot f = f"

text \<open>
  prefix_filename leaves an absolute name alone and otherwise puts the prefix and one
  slash in front, a leading dot and separator of the name being dropped.
\<close>

theorem prefix_filename_text:
  assumes "cstring prefix" "cstring filename" "length prefix + length filename + 2 \<le> INT_MAX"
  shows "prefix_filename prefix filename =
    Ok (if is_abs_path filename then filename else prefix @ ''/'' @ skip_dot filename)"
proof (cases "is_abs_path filename")
  case False
  let ?f = "skip_dot filename"
  have nobs: "BACKSLASH \<noteq> NUL" by (simp add: BACKSLASH_def)
  have f: "?f = (if first_char filename \<noteq> NUL \<and> first_char filename = CHR ''.''
      \<and> (first_char (tl filename) = CHR ''/'' \<or> first_char (tl filename) = BACKSLASH)
      then drop 2 filename else filename)"
  proof (cases filename)
    case (Cons c s)
    then show ?thesis using nobs by (cases s) auto
  qed simp
  have len: "length ?f \<le> length filename" and cs: "cstring ?f"
    using assms(2) by (cases filename rule: skip_dot.cases; simp)+
  have ok: "\<forall>x\<in>set [Write prefix, Printf (DIRSEPCHAR # ?f)]. sink_ok x"
    using assms(3) len by simp
  have fit: "length ([] :: string) + length (concat (map sink_text [Write prefix, Printf (DIRSEPCHAR # ?f)])) \<le> SAFE_SIZE"
    using assms(3) len by (simp add: size_bounds)
  obtain sb where sb: "fold_res sink_put STRBUF_INIT [Write prefix, Printf (DIRSEPCHAR # ?f)] = Ok sb"
      "strbuf_rep sb (prefix @ DIRSEPCHAR # ?f)"
    using sb.put_all [OF strbuf_rep_INIT ok fit] by auto
  have cs': "cstring (prefix @ DIRSEPCHAR # ?f)" using assms(1) cs by simp
  have "buf_read (sb_buf sb) 0 (sb_length sb + 1) = Ok ((prefix @ DIRSEPCHAR # ?f) @ [NUL])"
    using strbuf_contents [OF sb(2) _ cs'] by simp
  moreover have "cstr_of ((prefix @ DIRSEPCHAR # ?f) @ [NUL]) = prefix @ DIRSEPCHAR # ?f"
    by (rule cstr_of_cstring) (rule cs')
  ultimately show ?thesis
    using sb(1) False by (auto simp: prefix_filename_def f [symmetric] strbuf_concat_def bind_res_eq_Ok Let_def)
qed (simp add: prefix_filename_def)

theorem prefix_filename_text_witness:
  "prefix_filename ''/home/u'' ''./db'' = Ok ''/home/u/db'' \<and> prefix_filename ''/home/u'' ''/tmp/db'' = Ok ''/tmp/db''"
  using prefix_filename_text [of "''/home/u''" "''./db''"] prefix_filename_text [of "''/home/u''" "''/tmp/db''"]
  by (simp add: size_bounds is_abs_path_def)

section \<open>Permissions\<close>

definition class_shift :: "nat \<Rightarrow> nat \<Rightarrow> file_stat \<Rightarrow> nat" where
  "class_shift euid egid st = (if st_uid st = euid then 6 else if st_gid st = egid then 3 else 0)"

lemma mode_bits:
  fixes m :: uint
  shows "and m 0x100 \<noteq> 0 \<longleftrightarrow> bit m 8" "and m 0x80 \<noteq> 0 \<longleftrightarrow> bit m 7" "and m 0x40 \<noteq> 0 \<longleftrightarrow> bit m 6"
    "and m 0x20 \<noteq> 0 \<longleftrightarrow> bit m 5" "and m 0x10 \<noteq> 0 \<longleftrightarrow> bit m 4" "and m 8 \<noteq> 0 \<longleftrightarrow> bit m 3"
    "and m 4 \<noteq> 0 \<longleftrightarrow> bit m 2" "and m 2 \<noteq> 0 \<longleftrightarrow> bit m 1" "and m 1 \<noteq> 0 \<longleftrightarrow> bit m 0"
  using and_exp_eq_0_iff_not_bit [of m 8] and_exp_eq_0_iff_not_bit [of m 7]
    and_exp_eq_0_iff_not_bit [of m 6] and_exp_eq_0_iff_not_bit [of m 5]
    and_exp_eq_0_iff_not_bit [of m 4] and_exp_eq_0_iff_not_bit [of m 3]
    and_exp_eq_0_iff_not_bit [of m 2] and_exp_eq_0_iff_not_bit [of m 1]
    and_exp_eq_0_iff_not_bit [of m 0]
  by simp_all

text \<open>
  access_regular accepts a name exactly if it is a regular file and the first of the
  owner, group and other classes that applies to the process grants everything asked for.
\<close>

theorem access_regular_iff:
  "access_regular euid egid stat name type = None \<longleftrightarrow>
    (\<exists>st. stat name = Inr st \<and> st_regular st
       \<and> (\<forall>k\<in>{0, 1, 2}. bit type k \<longrightarrow> bit (st_mode st) (class_shift euid egid st + k)))"
proof (cases "stat name")
  case (Inr st)
  have "test_file_mode euid egid st type = 0
      \<longleftrightarrow> (\<forall>k\<in>{0, 1, 2}. bit type k \<longrightarrow> bit (st_mode st) (class_shift euid egid st + k))"
    unfolding test_file_mode_def match_mode_def R_OK_def W_OK_def X_OK_def mode_bits class_shift_def
    by (simp add: numeral_eq_Suc) blast
  then show ?thesis using Inr by (simp add: access_regular_def)
qed (simp add: access_regular_def)

theorem access_regular_iff_witness:
  "access_regular 1000 1000 (\<lambda>_. Inr \<lparr>st_uid = 1000, st_gid = 1000, st_regular = True, st_mode = 0x180\<rparr>)
     ''.pk-cred-db'' 6 = None"
proof -
  have "bit (0x180 :: uint) (6 + k)" if "k \<in> {1, 2}" for k using that by auto
  then show ?thesis
    by (subst access_regular_iff) (auto simp: class_shift_def)
qed

end
