(* ===== verification/Compat.thy ===== *)
theory Compat
  imports Helper
begin

text \<open>
  \<^verbatim>\<open>src/src/compat/*.c\<close>: the replacements for C library functions that the build picks
  when the platform lacks them, on memory blocks, so that reads and writes outside an
  object are visible.  malloc refuses requests above ALLOC_MAX.
\<close>

section \<open>Copies\<close>

text \<open>malloc of the C library: \<open>None\<close> is NULL.\<close>

definition c_malloc :: "size_t \<Rightarrow> 'a block option" where
  "c_malloc sz = (if ALLOC_MAX < sz then None else Some (replicate sz None))"

definition pk_strdup :: "string \<Rightarrow> char block option res" where
  "pk_strdup s =
     (let bufsz = length s + 1
      in case c_malloc bufsz of
           None \<Rightarrow> Ok None
         | Some buf \<Rightarrow> bind_res (mem_write buf 0 (s @ [NUL])) (\<lambda>b. Ok (Some b)))"

definition pk_strndup :: "string \<Rightarrow> size_t \<Rightarrow> char block option res" where
  "pk_strndup s n =
     (let strsz = length s; n = (if strsz < n then strsz else n)
      in case c_malloc (n + 1) of
           None \<Rightarrow> Ok None
         | Some buf \<Rightarrow> bind_res (mem_write buf 0 (take n s)) (\<lambda>b.
                       bind_res (mem_write b n [NUL]) (\<lambda>b. Ok (Some b))))"

text \<open>\<open>mem\<close> is the object \<^verbatim>\<open>s\<close> points to; \<^verbatim>\<open>s[len]\<close> is read before the length is tested.\<close>

function pk_strnlen_loop :: "char block \<Rightarrow> size_t \<Rightarrow> nat \<Rightarrow> nat res" where
  "pk_strnlen_loop mem maxlen len =
     (if length mem \<le> len then Halt (Undef ''read outside the block'')
      else case mem ! len of
             None \<Rightarrow> Halt (Undef ''read of an uninitialised cell'')
           | Some c \<Rightarrow> if c \<noteq> NUL \<and> len < maxlen then pk_strnlen_loop mem maxlen (len + 1) else Ok len)"
  by pat_completeness simp_all
termination
  by (relation "measure (\<lambda>(mem, maxlen, len). length mem - len)") auto

declare pk_strnlen_loop.simps [simp del]

definition pk_strnlen :: "char block \<Rightarrow> size_t \<Rightarrow> nat res" where
  "pk_strnlen mem maxlen = pk_strnlen_loop mem maxlen 0"

text \<open>The rest of the string from the first \<open>c\<close> on, empty at its end.\<close>

fun pk_strchrnul :: "string \<Rightarrow> char \<Rightarrow> string" where
  "pk_strchrnul [] c = []"
| "pk_strchrnul (x # s) c = (if x \<noteq> NUL \<and> x \<noteq> c then pk_strchrnul s c else x # s)"

fun zeromem_loop :: "byte block \<Rightarrow> nat \<Rightarrow> size_t \<Rightarrow> byte block res" where
  "zeromem_loop b p 0 = Ok b"
| "zeromem_loop b p (Suc len) = bind_res (mem_write b p [0]) (\<lambda>b. zeromem_loop b (p + 1) len)"

definition pk_zeromem :: "byte block \<Rightarrow> size_t \<Rightarrow> byte block res" where
  "pk_zeromem b len = zeromem_loop b 0 len"

section \<open>The environment\<close>

type_synonym environ = "string \<rightharpoonup> string"

definition pk_setenv :: "environ \<Rightarrow> string option \<Rightarrow> string \<Rightarrow> bool \<Rightarrow> int \<times> environ" where
  "pk_setenv env envname envval overwrite =
     (case envname of
        None \<Rightarrow> (-1, env)
      | Some n \<Rightarrow>
          if first_char n = NUL \<or> CHR ''='' \<in> set n then (-1, env)
          else if env n \<noteq> None \<and> \<not> overwrite then (0, env)
          else if ALLOC_MAX < length n + length envval + 2 then (-1, env)
          else (0, env(n \<mapsto> envval)))"

text \<open>putenv of a string without an equals sign removes the variable.\<close>

definition pk_unsetenv :: "environ \<Rightarrow> string \<Rightarrow> int \<times> environ" where
  "pk_unsetenv env n =
     (if first_char n = NUL \<or> CHR ''='' \<in> set n then (-1, env) else (0, env(n := None)))"

section \<open>getline\<close>

text \<open>
  fgetc delivers the bytes of the stream, then EOF.  The result is kept in a (signed)
  char, so the byte 255 is taken for EOF.  When the buffer is full, realloc is called
  with the moving pointer \<^verbatim>\<open>ptr\<close>, which is not the start of the allocation.
\<close>

abbreviation EOF_CHAR :: char where "EOF_CHAR \<equiv> CHR 0xFF"

fun getline_loop :: "char block \<Rightarrow> size_t \<Rightarrow> nat \<Rightarrow> string \<Rightarrow> (char block \<times> nat \<times> string) res" where
  "getline_loop b n len [] = Ok (b, len, [])"
| "getline_loop b n len (c # stream) =
     (if c = EOF_CHAR then Ok (b, len, stream)
      else if sz_sub n 1 \<le> len
      then bind_res (fixed_growth n) (\<lambda>n. Halt (Undef ''realloc of a pointer inside the block''))
      else bind_res (mem_write b len [c]) (\<lambda>b.
             if c = NL then Ok (b, len + 1, stream) else getline_loop b n (len + 1) stream))"

text \<open>
  \<open>lineptr\<close> is \<^verbatim>\<open>*lineptr\<close> with its size \<^verbatim>\<open>*n\<close>.  The result is the return value,
  the buffer and the rest of the stream.
\<close>

definition pk_getline ::
    "char block option \<Rightarrow> size_t \<Rightarrow> string \<Rightarrow> (int \<times> char block option \<times> size_t \<times> string) res" where
  "pk_getline lineptr n stream =
     (if stream = [] then Ok (-1, lineptr, n, [])
      else if hd stream = EOF_CHAR then Ok (-1, lineptr, n, tl stream)
      else bind_res (case lineptr of
                       Some b \<Rightarrow> Ok (Some b, n)
                     | None \<Rightarrow> bind_res (fixed_growth 64) (\<lambda>n. Ok (c_malloc n, n))) (\<lambda>(lineptr, n).
           case lineptr of
             None \<Rightarrow> Ok (-1, None, n, tl stream)
           | Some b \<Rightarrow>
               bind_res (getline_loop b n 0 stream) (\<lambda>(b, len, stream).
               bind_res (mem_write b len [NUL]) (\<lambda>b. Ok (int len, Some b, n, stream)))))"

section \<open>dirname\<close>

text \<open>The offsets of the last separator and of the one before it.\<close>

fun last_seps :: "string \<Rightarrow> nat \<Rightarrow> nat option \<Rightarrow> nat option \<Rightarrow> nat option \<times> nat option" where
  "last_seps [] i next_sep prev_sep = (next_sep, prev_sep)"
| "last_seps (c # s) i next_sep prev_sep =
     (if c = CHR ''/'' then last_seps s (i + 1) (Some i) next_sep
      else last_seps s (i + 1) next_sep prev_sep)"

text \<open>The last branch shrinks the block to \<open>plen\<close> bytes and stores the terminator at \<open>plen\<close>.\<close>

definition cut_path :: "string \<Rightarrow> nat \<Rightarrow> string res" where
  "cut_path path plen =
     (if ALLOC_MAX < plen then Halt (Die ''out of memory, realloc failed'')
      else bind_res (mem_write (resize_block (map Some (path @ [NUL])) plen) plen [NUL]) (\<lambda>b.
           bind_res (mem_read b 0 (plen + 1)) (\<lambda>bs. Ok (cstr_of bs))))"

definition pk_dirname :: "string option \<Rightarrow> string res" where
  "pk_dirname path0 =
     (case path0 of
        None \<Rightarrow> Ok ''.''
      | Some path \<Rightarrow>
          if first_char path = NUL \<or> first_char path = CHR ''.'' \<or> path = ''..'' then Ok ''.''
          else case last_seps path 0 None None of
                 (None, _) \<Rightarrow> Ok ''.''
               | (Some next_sep, prev_sep) \<Rightarrow>
                   if next_sep = 0 then Ok ''/''
                   else if drop (next_sep + 1) path = []
                   then (case prev_sep of
                           None \<Rightarrow> Ok ''.''
                         | Some p \<Rightarrow> if p = 0 then Ok ''/'' else cut_path path p)
                   else cut_path path next_sep)"

section \<open>What they do\<close>

lemma strnlen_loop_exact:
  assumes "take (length s) mem = map Some s" "cstring s" "len \<le> length s" "length s \<le> maxlen"
    "length s < maxlen \<Longrightarrow> length s < length mem \<and> mem ! length s = Some NUL"
  shows "pk_strnlen_loop mem maxlen len =
    (if length s < length mem \<and> mem ! length s \<noteq> None then Ok (length s)
     else if length s < length mem then Halt (Undef ''read of an uninitialised cell'')
     else Halt (Undef ''read outside the block''))"
  using assms(3)
proof (induction "length s - len" arbitrary: len)
  case 0
  then have "len = length s" by simp
  then show ?case
    using assms(4,5) by (subst pk_strnlen_loop.simps) (auto split: option.splits)
next
  case (Suc k)
  then have l: "len < length s" by simp
  have lm: "length s \<le> length mem" using arg_cong [OF assms(1), of length] by simp
  have c: "mem ! len = Some (s ! len)"
    using l assms(1) nth_take [of len "length s" mem] by simp
  have c0: "s ! len \<noteq> NUL" using assms(2) nth_mem [OF l] by (metis cstring_def)
  have "pk_strnlen_loop mem maxlen len = pk_strnlen_loop mem maxlen (len + 1)"
    using c c0 l lm assms(4) by (subst pk_strnlen_loop.simps) simp
  then show ?case using Suc by simp
qed

text \<open>
  pk_strnlen counts the bytes up to the terminator; where maxlen bytes without a
  terminator are given, it also reads the byte after them, which is undefined when the
  object ends there, although the function exists for unterminated objects.
\<close>

theorem pk_strnlen_reads_past:
  assumes "cstring s"
  shows "(length s < maxlen \<longrightarrow> pk_strnlen (map Some (s @ [NUL]) @ rest) maxlen = Ok (length s))
    \<and> pk_strnlen (map Some s) (length s) = Halt (Undef ''read outside the block'')
    \<and> pk_strnlen (map Some (s @ [c])) (length s) = Ok (length s)"
  using strnlen_loop_exact [of s "map Some (s @ [NUL]) @ rest" 0 maxlen]
    strnlen_loop_exact [of s "map Some s" 0 "length s"]
    strnlen_loop_exact [of s "map Some (s @ [c])" 0 "length s"] assms
  by (simp add: pk_strnlen_def nth_append)

theorem pk_strnlen_reads_past_witness:
  "pk_strnlen (map Some ''key'') 3 = Halt (Undef ''read outside the block'')"
  using pk_strnlen_reads_past [of "''key''" 0 "[]" NUL] by (simp add: numeral_eq_Suc)

lemma getline_loop_line:
  assumes "length pre < n" "n \<le> 1024" "EOF_CHAR \<notin> set line" "NL \<notin> set line"
  shows "getline_loop (map Some pre @ replicate (n - length pre) None) n (length pre) (line @ NL # stream)
    = (if length pre + length line + 1 < n
       then Ok (map Some (pre @ line @ [NL]) @ replicate (n - length (pre @ line @ [NL])) None,
                length (pre @ line @ [NL]), stream)
       else Halt (Undef ''realloc of a pointer inside the block''))"
  using assms
proof (induction line arbitrary: pre)
  case Nil
  have sub: "sz_sub n 1 = n - 1" using Nil.prems by (simp add: size_bounds)
  have g: "\<exists>m. fixed_growth n = Ok m" using Nil.prems by (subst fixed_growth_exact) (simp_all add: size_bounds)
  have w: "length pre + 1 < n \<Longrightarrow> mem_write (map Some pre @ replicate (n - length pre) None) (length pre) [NL]
      = Ok (map Some (pre @ [NL]) @ replicate (n - Suc (length pre)) None)"
    by (subst mem_write_prefix) simp_all
  show ?case using sub g w Nil.prems by auto
next
  case (Cons c line)
  have sub: "sz_sub n 1 = n - 1" using Cons.prems by (simp add: size_bounds)
  have g: "\<exists>m. fixed_growth n = Ok m" using Cons.prems by (subst fixed_growth_exact) (simp_all add: size_bounds)
  show ?case
  proof (cases "n - 1 \<le> length pre")
    case True
    then show ?thesis using sub g Cons.prems by auto
  next
    case False
    then have w: "mem_write (map Some pre @ replicate (n - length pre) None) (length pre) [c]
        = Ok (map Some (pre @ [c]) @ replicate (n - length (pre @ [c])) None)"
      by (subst mem_write_prefix) simp_all
    have "length (pre @ [c]) < n" using False by simp
    moreover have "c \<noteq> EOF_CHAR" "c \<noteq> NL" using Cons.prems(3,4) by auto
    ultimately show ?thesis
      using Cons.IH [OF _ Cons.prems(2), of "pre @ [c]"] Cons.prems(3,4) sub False w by simp
  qed
qed

text \<open>
  Into a fresh buffer pk_getline reads a line of up to 119 bytes, its line break
  included, and terminates it; for any longer line it calls realloc with a pointer into the
  middle of the allocation, so the buffer never grows.
\<close>

theorem pk_getline_line:
  assumes "EOF_CHAR \<notin> set line" "NL \<notin> set line"
  shows "if length line < 119
    then \<exists>b. pk_getline None n (line @ NL # stream) = Ok (int (length line + 1), Some b, 120, stream)
           \<and> take (length line + 2) b = map Some (line @ [NL, NUL])
    else pk_getline None n (line @ NL # stream) = Halt (Undef ''realloc of a pointer inside the block'')"
proof -
  let ?s = "line @ NL # stream"
  have hd: "?s \<noteq> []" "hd ?s \<noteq> EOF_CHAR" using assms(1) by (cases line; auto)+
  have g: "fixed_growth 64 = Ok 120" by (subst fixed_growth_exact) (simp_all add: size_bounds)
  have m: "c_malloc 120 = Some (replicate 120 None :: char block)" by (simp add: c_malloc_def size_bounds)
  have loop: "getline_loop (replicate 120 None) 120 0 ?s
    = (if length line + 1 < 120
       then Ok (map Some (line @ [NL]) @ replicate (120 - length (line @ [NL])) None, length (line @ [NL]), stream)
       else Halt (Undef ''realloc of a pointer inside the block''))"
    using getline_loop_line [of "[]" 120 line stream] assms by simp
  show ?thesis
  proof (cases "length line < 119")
    case True
    have "mem_write (map Some (line @ [NL]) @ replicate (120 - length (line @ [NL])) None) (length (line @ [NL])) [NUL]
        = Ok (map Some ((line @ [NL]) @ [NUL]) @ drop (length (line @ [NL]) + 1)
            (map Some (line @ [NL]) @ replicate (120 - length (line @ [NL])) None))"
      using mem_write_prefix [of "line @ [NL]" "map Some (line @ [NL]) @ replicate (120 - length (line @ [NL])) None" "[NUL]"]
        True by simp
    then show ?thesis using True hd g m loop by (simp add: pk_getline_def)
  next
    case False
    then show ?thesis using hd g m loop by (simp add: pk_getline_def)
  qed
qed

theorem pk_getline_line_witness:
  "\<exists>b. pk_getline None 0 (''secret'' @ NL # ''rest'') = Ok (7, Some b, 120, ''rest'')
     \<and> take 8 b = map Some (''secret'' @ [NL, NUL])"
  using pk_getline_line [of "''secret''" 0 "''rest''"] by (simp add: numeral_eq_Suc)

lemma last_seps_none: "CHR ''/'' \<notin> set f \<Longrightarrow> last_seps f i n p = (n, p)"
  by (induction f arbitrary: i n p) auto

lemma last_seps_at:
  "CHR ''/'' \<notin> set f \<Longrightarrow> fst (last_seps (d @ CHR ''/'' # f) i n p) = Some (i + length d)"
  by (induction d arbitrary: i n p) (auto simp: last_seps_none)

lemma pk_dirname_parts:
  assumes "cstring (d @ f)" "CHR ''/'' \<notin> set f" "f \<noteq> []" "length d \<le> ALLOC_MAX"
  shows "pk_dirname (Some f) = Ok ''.''"
    and "pk_dirname (Some (CHR ''/'' # f)) = Ok ''/''"
    and "pk_dirname (Some (CHR ''.'' # d)) = Ok ''.''"
    and "d \<noteq> [] \<Longrightarrow> first_char d \<noteq> CHR ''.''
      \<Longrightarrow> pk_dirname (Some (d @ CHR ''/'' # f)) = Halt (Undef ''write outside the block'')"
proof -
  show "pk_dirname (Some f) = Ok ''.''"
    using assms(2,3) by (simp add: pk_dirname_def last_seps_none)
  show "pk_dirname (Some (CHR ''/'' # f)) = Ok ''/''"
    using last_seps_at [OF assms(2), of "[]" 0 None None]
    by (cases "last_seps (CHR ''/'' # f) 0 None None") (auto simp: pk_dirname_def)
  show "pk_dirname (Some (CHR ''.'' # d)) = Ok ''.''" by (simp add: pk_dirname_def)
  assume d: "d \<noteq> []" "first_char d \<noteq> CHR ''.''"
  let ?path = "d @ CHR ''/'' # f"
  have fc: "first_char ?path = first_char d" "first_char d \<noteq> NUL"
    using d(1) assms(1) by (cases d; auto)+
  have "fst (last_seps ?path 0 None None) = Some (length d)"
    using last_seps_at [OF assms(2), of d 0 None None] by simp
  moreover have "cut_path ?path (length d) = Halt (Undef ''write outside the block'')"
    using assms(4) by (simp add: cut_path_def mem_write_def)
  moreover have "drop (length d + 1) ?path = f" by simp
  ultimately show "pk_dirname (Some ?path) = Halt (Undef ''write outside the block'')"
    using fc d assms(3) by (cases "last_seps ?path 0 None None") (auto simp: pk_dirname_def)
qed

text \<open>
  pk_dirname: a name without a slash gives a dot and a name directly under the root a
  slash; every name that starts with a dot gives a dot, whatever directories follow; for
  every other name the terminator is written one past the end of the shrunken block.
\<close>

theorem pk_dirname_cases:
  assumes "cstring (d @ f)" "CHR ''/'' \<notin> set f" "f \<noteq> []" "d \<noteq> []" "first_char d \<noteq> CHR ''.''"
    "length d \<le> ALLOC_MAX"
  shows "pk_dirname (Some f) = Ok ''.'' \<and> pk_dirname (Some (CHR ''/'' # f)) = Ok ''/''
    \<and> pk_dirname (Some (CHR ''.'' # e)) = Ok ''.''
    \<and> pk_dirname (Some (d @ CHR ''/'' # f)) = Halt (Undef ''write outside the block'')"
proof -
  have "pk_dirname (Some (CHR ''.'' # e)) = Ok ''.''" by (simp add: pk_dirname_def)
  then show ?thesis using pk_dirname_parts [OF assms(1,2,3,6)] assms(4,5) by simp
qed

theorem pk_dirname_cases_witness:
  "pk_dirname (Some ''/home/u/db'') = Halt (Undef ''write outside the block'')
   \<and> pk_dirname (Some ''./data/db'') = Ok ''.''"
  using pk_dirname_cases [of "''/home/u''" "''db''" "''/data/db''"]
  by (simp add: size_bounds)

section \<open>The environment\<close>

text \<open>
  pk_setenv and pk_unsetenv change the named variable and nothing else; a name that is
  empty or contains an equals sign is refused, and an existing value is kept unless it may be
  overwritten.
\<close>

theorem pk_setenv_lookup:
  assumes "n \<noteq> []" "cstring n" "CHR ''='' \<notin> set n" "length n + length v + 2 \<le> ALLOC_MAX"
  shows "pk_setenv env (Some n) v overwrite
      = (0, if env n \<noteq> None \<and> \<not> overwrite then env else env(n \<mapsto> v))
    \<and> pk_unsetenv env n = (0, env(n := None))
    \<and> snd (pk_unsetenv (snd (pk_setenv env (Some n) v True)) n) = env(n := None)
    \<and> (CHR ''='' \<in> set m \<longrightarrow> pk_setenv env (Some m) v overwrite = (-1, env))"
proof -
  have "first_char n \<noteq> NUL" using assms(1,2) by (cases n) auto
  then show ?thesis using assms by (auto simp: pk_setenv_def pk_unsetenv_def)
qed

theorem pk_setenv_lookup_witness:
  "snd (pk_setenv [''PK_EDITOR'' \<mapsto> ''vi''] (Some ''PK_EDITOR'') ''ed'' False) ''PK_EDITOR'' = Some ''vi''"
  using pk_setenv_lookup [of "''PK_EDITOR''" "''ed''" "[''PK_EDITOR'' \<mapsto> ''vi'']" False "[]"]
  by (simp add: size_bounds)

lemma copy_block:
  assumes "length s + 1 \<le> ALLOC_MAX"
  shows "pk_strdup s = Ok (Some (map Some (s @ [NUL])))"
    and "pk_strndup s n = Ok (Some (map Some (take n s @ [NUL])))"
proof -
  show "pk_strdup s = Ok (Some (map Some (s @ [NUL])))"
    using assms by (simp add: pk_strdup_def c_malloc_def mem_write_def Let_def)
  have "pk_strndup s n = Ok (Some (map Some (take (min (length s) n) s @ [NUL])))"
    using assms by (simp add: pk_strndup_def c_malloc_def mem_write_def Let_def min_def)
  then show "pk_strndup s n = Ok (Some (map Some (take n s @ [NUL])))"
    by (simp add: min_def)
qed

lemma zeromem_loop_all:
  "p + n \<le> length b \<Longrightarrow> zeromem_loop b p n = Ok (take p b @ replicate n (Some 0) @ drop (p + n) b)"
proof (induction n arbitrary: b p)
  case (Suc n)
  let ?b = "take p b @ Some 0 # drop (Suc p) b"
  have "mem_write b p [0] = Ok ?b" using Suc.prems by (simp add: mem_write_def)
  moreover have "zeromem_loop ?b (p + 1) n = Ok (take (p + 1) ?b @ replicate n (Some 0) @ drop (p + 1 + n) ?b)"
    using Suc.prems by (intro Suc.IH) simp
  moreover have "take (p + 1) ?b = take p b @ [Some 0]" "drop (p + 1 + n) ?b = drop (p + Suc n) b"
    using Suc.prems by (simp_all add: drop_drop min_def add.commute)
  ultimately show ?case by simp
qed simp

text \<open>
  pk_zeromem overwrites exactly the given number of bytes with zeros, and pk_strdup and
  pk_strndup give a fresh terminated copy of the string, of at most the given length.
\<close>

theorem copies_and_zeroes:
  assumes "n \<le> length b" "length s + 1 \<le> ALLOC_MAX"
  shows "pk_zeromem b n = Ok (replicate n (Some 0) @ drop n b)
    \<and> pk_strdup s = Ok (Some (map Some (s @ [NUL])))
    \<and> pk_strndup s k = Ok (Some (map Some (take k s @ [NUL])))"
  using zeromem_loop_all [of 0 n b] copy_block [OF assms(2)] assms(1) by (simp add: pk_zeromem_def)

theorem copies_and_zeroes_witness:
  "pk_zeromem [Some 1, Some 2, None] 2 = Ok [Some 0, Some 0, None]
   \<and> pk_strndup ''abc'' 2 = Ok (Some (map Some (''ab'' @ [NUL])))"
proof -
  have "length ''abc'' + 1 \<le> ALLOC_MAX" by (simp add: ALLOC_MAX_def)
  then show ?thesis
    using copies_and_zeroes [of 2 "[Some 1, Some 2, None]" "''abc''" 2] by (simp add: numeral_eq_Suc)
qed

end
