(* ===== verification/Parse_Option.thy ===== *)
theory Parse_Option
  imports System_Calls Strlist Compat
begin

text \<open>
  \<^verbatim>\<open>src/src/parse-option.c\<close> and \<^verbatim>\<open>parse-option.h\<close>: the parser of command line options.
  The variables that options store to are cells of a store, the argument vector is an array
  that the parser compacts in place, and everything that is printed is kept in a log.  A set of
  flags stands for the bit mask of the code.
\<close>

section \<open>Option tables\<close>

datatype option_type = OPTION_END | OPTION_GROUP | OPTION_INTEGER | OPTION_COUNTUP
  | OPTION_STRING | OPTION_FILENAME

datatype option_flag = OPTION_OPTARG | OPTION_NOARG | OPTION_ALLONEG | OPTION_SHOWARGH
  | OPTION_REALPATH | OPTION_UNSIGNED | OPTION_CMDMODE | OPTION_HIDDEN | OPTION_NOEMDASH

text \<open>
  A string pointer: NULL, a string, or the marker \<^verbatim>\<open>(void *)-1\<close>.  Addresses are numbers, 0 is NULL.
\<close>

datatype strptr = NullPtr | StrPtr string | MarkPtr

datatype cell = IntCell int | UintCell uint | BoolCell bool | StrCell strptr

type_synonym addr = nat
type_synonym cells = "addr \<rightharpoonup> cell"

datatype defval = DefInt int | DefStr strptr

record opt =
  opt_type :: option_type
  opt_alias :: char
  opt_name :: "string option"
  opt_value :: addr
  opt_defval :: defval
  opt_help :: "string option"
  opt_argh :: "string option"
  opt_flags :: "option_flag set"

datatype command_parser_flag = PARSER_ABORT_NON_OPTION | PARSER_ONE_SHOT
  | PARSER_UNTIL_NON_OPTION | PARSER_NO_SHORT_HELP

definition option_zero :: opt where
  "option_zero = \<lparr>opt_type = OPTION_END, opt_alias = NUL, opt_name = None, opt_value = 0,
     opt_defval = DefInt 0, opt_help = None, opt_argh = None, opt_flags = {}\<rparr>"

definition mk_OPTION_END :: opt where "mk_OPTION_END = option_zero"

definition mk_OPTION_GROUP :: "string \<Rightarrow> opt" where
  "mk_OPTION_GROUP h = option_zero\<lparr>opt_type := OPTION_GROUP, opt_help := Some h\<rparr>"

definition OPTION_STRING_F :: "char \<Rightarrow> string option \<Rightarrow> addr \<Rightarrow> string option \<Rightarrow> string option \<Rightarrow> option_flag set \<Rightarrow> opt" where
  "OPTION_STRING_F s l v a h f = option_zero\<lparr>opt_type := OPTION_STRING, opt_alias := s, opt_name := l,
     opt_value := v, opt_argh := a, opt_help := h, opt_flags := f\<rparr>"

definition OPTION_OPTARG_F where
  "OPTION_OPTARG_F s l v d a h f = option_zero\<lparr>opt_type := OPTION_STRING, opt_alias := s, opt_name := l,
     opt_value := v, opt_defval := DefStr d, opt_argh := a, opt_help := h, opt_flags := insert OPTION_OPTARG f\<rparr>"

definition OPTION_FILENAME_F where
  "OPTION_FILENAME_F s l v a h f = option_zero\<lparr>opt_type := OPTION_FILENAME, opt_alias := s, opt_name := l,
     opt_value := v, opt_argh := a, opt_help := h, opt_flags := f\<rparr>"

definition OPTION_SWITCH_F where
  "OPTION_SWITCH_F s l v h f = option_zero\<lparr>opt_type := OPTION_INTEGER, opt_alias := s, opt_name := l,
     opt_value := v, opt_help := h, opt_defval := DefInt 1, opt_flags := {OPTION_NOARG, OPTION_ALLONEG} \<union> f\<rparr>"

definition OPTION_COUNTUP_F where
  "OPTION_COUNTUP_F s l v h f = option_zero\<lparr>opt_type := OPTION_COUNTUP, opt_alias := s, opt_name := l,
     opt_value := v, opt_help := h, opt_defval := DefInt 0, opt_flags := insert OPTION_NOARG f\<rparr>"

definition OPTION_UNSIGNED_F where
  "OPTION_UNSIGNED_F s l v h f = option_zero\<lparr>opt_type := OPTION_INTEGER, opt_alias := s, opt_name := l,
     opt_value := v, opt_help := h, opt_defval := DefInt 0, opt_flags := insert OPTION_UNSIGNED f\<rparr>"

definition OPTION_CMDMODE_F where
  "OPTION_CMDMODE_F s l v h d f = option_zero\<lparr>opt_type := OPTION_INTEGER, opt_alias := s, opt_name := l,
     opt_value := v, opt_help := h, opt_defval := DefInt d, opt_flags := {OPTION_CMDMODE, OPTION_NOARG} \<union> f\<rparr>"

definition mk_OPTION_STRING where
  "mk_OPTION_STRING s l v h = OPTION_STRING_F s (Some l) v None (Some h) {}"
definition mk_OPTION_SWITCH where
  "mk_OPTION_SWITCH s l v h = OPTION_SWITCH_F s (Some l) v (Some h) {}"
definition mk_OPTION_COUNTUP where
  "mk_OPTION_COUNTUP s l v h = OPTION_COUNTUP_F s (Some l) v (Some h) {}"
definition mk_OPTION_UNSIGNED where
  "mk_OPTION_UNSIGNED s l v h = OPTION_UNSIGNED_F s (Some l) v (Some h) {}"
definition mk_OPTION_CMDMODE where
  "mk_OPTION_CMDMODE s l v h d = OPTION_CMDMODE_F s (Some l) v (Some h) d {}"
definition mk_OPTION_FILENAME where
  "mk_OPTION_FILENAME s l v h = OPTION_FILENAME_F s (Some l) v (Some ''path'') (Some h) {OPTION_SHOWARGH}"
definition mk_OPTION_PATHNAME where
  "mk_OPTION_PATHNAME s l v h = OPTION_FILENAME_F s (Some l) v (Some ''file'') (Some h) {OPTION_REALPATH, OPTION_SHOWARGH}"
definition mk_OPTION_COMMAND where
  "mk_OPTION_COMMAND l h = OPTION_STRING_F NUL (Some l) 0 None (Some h) {OPTION_NOARG, OPTION_NOEMDASH}"
definition mk_OPTION_NANO where
  "mk_OPTION_NANO v = mk_OPTION_SWITCH (CHR ''e'') ''nano'' v ''use editor to edit records''"
definition mk_OPTION_CMDKEY where
  "mk_OPTION_CMDKEY v = mk_OPTION_COUNTUP (CHR ''k'') ''cmdkey'' v ''input key from command line''"

section \<open>Parser state\<close>

datatype parse_result = PARSING_COMPLETE | PARSING_HELP | PARSING_ERROR | PARSING_DONE
  | PARSING_NON_OPTION | PARSING_UNKNOWN

datatype option_category = LONG_OPTION | SHORT_OPTION | UNSET_OPTION

text \<open>The exclusive or of two categories of long options.\<close>

definition category_xor :: "option_category \<Rightarrow> option_category \<Rightarrow> option_category" where
  "category_xor c d = (if (c = UNSET_OPTION) \<noteq> (d = UNSET_OPTION) then UNSET_OPTION else LONG_OPTION)"

text \<open>\<open>cm_opt\<close> is \<open>None\<close> while \<^verbatim>\<open>opt\<close> and \<^verbatim>\<open>category\<close> of the element are uninitialised.\<close>

record command_mode =
  cm_val :: int
  cm_valptr :: addr
  cm_opt :: "(opt \<times> option_category) option"

datatype out_stream = To_stdout | To_stderr

record parser_context =
  ctx_argc :: nat
  ctx_argv :: nat
  ctx_args :: "string option list"
  ctx_prefix :: string
  ctx_flags :: "command_parser_flag set"
  ctx_argc0 :: nat
  ctx_idx :: nat
  ctx_optstr :: "string option"
  ctx_cmdmode :: "command_mode list"
  ctx_cells :: cells
  ctx_log :: "(out_stream \<times> string) list"

text \<open>\<^verbatim>\<open>argv[i]\<close> as a string; the vector ends with NULL.\<close>

definition arg_at :: "parser_context \<Rightarrow> nat \<Rightarrow> string res" where
  "arg_at ctx i =
     (if length (ctx_args ctx) \<le> i then Halt (Undef ''read outside argv'')
      else case ctx_args ctx ! i of None \<Rightarrow> Halt (Undef ''NULL argument'') | Some s \<Rightarrow> Ok s)"

text \<open>error(...): the message goes to the log.\<close>

definition log_error :: "parser_context \<Rightarrow> string \<Rightarrow> parser_context res" where
  "log_error ctx msg =
     bind_res (error_routine None (Some msg)) (\<lambda>(rc, bytes).
       Ok (ctx\<lparr>ctx_log := ctx_log ctx @ [(To_stderr, bytes)]\<rparr>))"

section \<open>Stores\<close>

definition store_int :: "cells \<Rightarrow> addr \<Rightarrow> int \<Rightarrow> cells res" where
  "store_int m a i =
     (case m a of Some (IntCell _) \<Rightarrow> Ok (m(a \<mapsto> IntCell i)) | _ \<Rightarrow> Halt (Undef ''int store through a wrong pointer''))"

definition load_int :: "cells \<Rightarrow> addr \<Rightarrow> int res" where
  "load_int m a =
     (case m a of Some (IntCell i) \<Rightarrow> Ok i | _ \<Rightarrow> Halt (Undef ''int load through a wrong pointer''))"

definition store_uint :: "cells \<Rightarrow> addr \<Rightarrow> uint \<Rightarrow> cells res" where
  "store_uint m a i =
     (case m a of Some (UintCell _) \<Rightarrow> Ok (m(a \<mapsto> UintCell i)) | _ \<Rightarrow> Halt (Undef ''unsigned store through a wrong pointer''))"

definition store_str :: "cells \<Rightarrow> addr \<Rightarrow> strptr \<Rightarrow> cells res" where
  "store_str m a p =
     (case m a of Some (StrCell _) \<Rightarrow> Ok (m(a \<mapsto> StrCell p)) | _ \<Rightarrow> Halt (Undef ''pointer store through a wrong pointer''))"

definition load_str :: "cells \<Rightarrow> addr \<Rightarrow> string res" where
  "load_str m a =
     (case m a of Some (StrCell (StrPtr s)) \<Rightarrow> Ok s | _ \<Rightarrow> Halt (Undef ''string load through a wrong pointer''))"

section \<open>Arguments of an option\<close>

definition name_of :: "opt \<Rightarrow> string res" where
  "name_of opt = (case opt_name opt of None \<Rightarrow> Halt (Undef ''NULL option name'') | Some n \<Rightarrow> Ok n)"

text \<open>snprintf into a buffer of 64 bytes keeps 63 of them.\<close>

definition sem_optname :: "opt \<Rightarrow> option_category \<Rightarrow> string res" where
  "sem_optname opt category =
     (case category of
        SHORT_OPTION \<Rightarrow> Ok (take 63 (''switch '' @ squote [opt_alias opt]))
      | UNSET_OPTION \<Rightarrow> bind_res (name_of opt) (\<lambda>n. Ok (take 63 (''option '' @ squote (''no-'' @ n))))
      | LONG_OPTION \<Rightarrow> bind_res (name_of opt) (\<lambda>n. Ok (take 63 (''option '' @ squote n))))"

definition optname_error ::
    "parser_context \<Rightarrow> opt \<Rightarrow> option_category \<Rightarrow> string \<Rightarrow> (parse_result \<times> parser_context) res" where
  "optname_error ctx opt category tail =
     bind_res (sem_optname opt category) (\<lambda>n.
     bind_res (log_error ctx (n @ tail)) (\<lambda>ctx. Ok (PARSING_ERROR, ctx)))"

text \<open>The three ways to find the argument: rest of the word, next word, none (\<open>None\<close>).\<close>

definition next_arg :: "parser_context \<Rightarrow> (string option \<times> parser_context) res" where
  "next_arg ctx =
     (case ctx_optstr ctx of
        Some s \<Rightarrow> Ok (Some s, ctx\<lparr>ctx_optstr := None\<rparr>)
      | None \<Rightarrow>
          if ctx_argc ctx > 1
          then bind_res (arg_at ctx (ctx_argv ctx + 1)) (\<lambda>s.
                 Ok (Some s, ctx\<lparr>ctx_argc := ctx_argc ctx - 1, ctx_argv := ctx_argv ctx + 1\<rparr>))
          else Ok (None, ctx))"

definition get_arg_str ::
    "parser_context \<Rightarrow> opt \<Rightarrow> option_category \<Rightarrow> addr \<Rightarrow> (parse_result \<times> parser_context) res" where
  "get_arg_str ctx opt category out =
     bind_res (next_arg ctx) (\<lambda>(arg, ctx).
       case arg of
         None \<Rightarrow> optname_error ctx opt category '' requires a value''
       | Some s \<Rightarrow>
           bind_res (store_str (ctx_cells ctx) out (StrPtr s)) (\<lambda>m.
             Ok (PARSING_DONE, ctx\<lparr>ctx_cells := m\<rparr>)))"

text \<open>
  The test of strtou is the wrong way round: the branch of the code that reports errors is
  taken when strtou returns 0, and errno is then 0.
\<close>

definition get_arg_uint ::
    "parser_context \<Rightarrow> opt \<Rightarrow> option_category \<Rightarrow> addr \<Rightarrow> (parse_result \<times> parser_context) res" where
  "get_arg_uint ctx opt category out =
     bind_res (next_arg ctx) (\<lambda>(arg, ctx).
       case arg of
         None \<Rightarrow> optname_error ctx opt category '' requires a value''
       | Some s \<Rightarrow>
           (case strtou s of
              Inr v \<Rightarrow>
                bind_res (store_uint (ctx_cells ctx) out v) (\<lambda>m.
                  optname_error (ctx\<lparr>ctx_cells := m\<rparr>) opt category '' expects a numerical value'')
            | Inl e \<Rightarrow> Ok (PARSING_DONE, ctx)))"

text \<open>The switch over the type of the option.\<close>

definition get_arg_value ::
    "parser_context \<Rightarrow> opt \<Rightarrow> option_category \<Rightarrow> (parse_result \<times> parser_context) res" where
  "get_arg_value ctx opt category =
     (let unset = (category = UNSET_OPTION)
      in case opt_type opt of
           OPTION_INTEGER \<Rightarrow>
             if OPTION_UNSIGNED \<in> opt_flags opt then get_arg_uint ctx opt category (opt_value opt)
             else bind_res (store_int (ctx_cells ctx) (opt_value opt)
                              (if unset then 0 else case opt_defval opt of DefInt i \<Rightarrow> i | DefStr _ \<Rightarrow> 0)) (\<lambda>m.
                    Ok (PARSING_DONE, ctx\<lparr>ctx_cells := m\<rparr>))
         | OPTION_COUNTUP \<Rightarrow>
             bind_res (load_int (ctx_cells ctx) (opt_value opt)) (\<lambda>i.
             bind_res (if i = int INT_MAX then Halt (Undef ''signed overflow'')
                       else store_int (ctx_cells ctx) (opt_value opt) (i + 1)) (\<lambda>m.
               Ok (PARSING_DONE, ctx\<lparr>ctx_cells := m\<rparr>)))
         | OPTION_STRING \<Rightarrow>
             if unset
             then bind_res (store_str (ctx_cells ctx) (opt_value opt) NullPtr) (\<lambda>m.
                    Ok (PARSING_DONE, ctx\<lparr>ctx_cells := m\<rparr>))
             else if OPTION_OPTARG \<in> opt_flags opt \<and> ctx_optstr ctx = None
             then bind_res (store_str (ctx_cells ctx) (opt_value opt)
                              (case opt_defval opt of DefStr p \<Rightarrow> p | DefInt _ \<Rightarrow> NullPtr)) (\<lambda>m.
                    Ok (PARSING_DONE, ctx\<lparr>ctx_cells := m\<rparr>))
             else get_arg_str ctx opt category (opt_value opt)
         | OPTION_FILENAME \<Rightarrow>
             bind_res (get_arg_str ctx opt category (opt_value opt)) (\<lambda>(rescode, ctx).
               if rescode \<noteq> PARSING_DONE then Ok (rescode, ctx)
               else bind_res (load_str (ctx_cells ctx) (opt_value opt)) (\<lambda>s.
                    bind_res (prefix_filename (ctx_prefix ctx) s) (\<lambda>s.
                    bind_res (store_str (ctx_cells ctx) (opt_value opt) (StrPtr s)) (\<lambda>m.
                      Ok (PARSING_DONE, ctx\<lparr>ctx_cells := m\<rparr>)))))
         | _ \<Rightarrow> Halt (Bug ''opt->type''))"

definition get_arg_routine ::
    "parser_context \<Rightarrow> opt \<Rightarrow> option_category \<Rightarrow> (parse_result \<times> parser_context) res" where
  "get_arg_routine ctx opt category =
     (let unset = (category = UNSET_OPTION)
      in if unset \<and> ctx_optstr ctx \<noteq> None then optname_error ctx opt category '' takes no value''
         else if unset \<and> OPTION_ALLONEG \<notin> opt_flags opt
         then optname_error ctx opt category ('' isn'' @ [CHR 0x27] @ ''t available'')
         else if category \<noteq> SHORT_OPTION \<and> ctx_optstr ctx \<noteq> None \<and> OPTION_NOARG \<in> opt_flags opt
         then optname_error ctx opt category '' takes no value''
         else get_arg_value ctx opt category)"

section \<open>Command modes\<close>

definition prefix_optname :: "opt \<Rightarrow> option_category \<Rightarrow> string res" where
  "prefix_optname opt category =
     (if category = SHORT_OPTION then Ok (take 63 [CHR ''-'', opt_alias opt])
      else bind_res (name_of opt) (\<lambda>n.
             Ok (take 63 (''--'' @ (if category = UNSET_OPTION then ''no-'' else []) @ n))))"

text \<open>
  list_for_each stops at the last element without looking at it; the element it stops at,
  or at which the loop is left, is never NULL.  \<open>seen\<close> are the elements passed.
\<close>

fun verify_loop ::
    "cells \<Rightarrow> opt \<Rightarrow> option_category \<Rightarrow> command_mode list \<Rightarrow> command_mode list
       \<Rightarrow> (command_mode \<times> command_mode list) res" where
  "verify_loop m opt category seen [] = Halt (Undef ''NULL list head'')"
| "verify_loop m opt category seen [el] = Ok (el, seen @ [el])"
| "verify_loop m opt category seen (el # el2 # els) =
     bind_res (load_int m (cm_valptr el)) (\<lambda>v.
       if v = cm_val el then verify_loop m opt category (seen @ [el]) (el2 # els)
       else case cm_opt el of
              None \<Rightarrow> Halt (Undef ''iter->opt is uninitialised'')
            | Some (o1, c1) \<Rightarrow>
                if OPTION_CMDMODE \<in> opt_flags o1 \<union> opt_flags opt then Ok (el, seen @ el # el2 # els)
                else verify_loop m opt category
                       (seen @ [el\<lparr>cm_opt := Some (opt, category), cm_val := v\<rparr>]) (el2 # els))"

definition verify_cmdmode ::
    "parser_context \<Rightarrow> opt \<Rightarrow> option_category \<Rightarrow> (int \<times> parser_context) res" where
  "verify_cmdmode ctx opt category =
     bind_res (verify_loop (ctx_cells ctx) opt category [] (ctx_cmdmode ctx)) (\<lambda>(iter, els).
     bind_res (prefix_optname opt category) (\<lambda>optname1.
       case cm_opt iter of
         None \<Rightarrow> Halt (Undef ''iter->opt is uninitialised'')
       | Some (o2, c2) \<Rightarrow>
           bind_res (prefix_optname o2 c2) (\<lambda>optname2.
           bind_res (log_error (ctx\<lparr>ctx_cmdmode := els\<rparr>)
                       (''options '' @ squote optname1 @ '' and '' @ squote optname2
                        @ '' cannot be used together'')) (\<lambda>ctx. Ok (-1, ctx)))))"

definition get_arg ::
    "parser_context \<Rightarrow> opt \<Rightarrow> option_category \<Rightarrow> (parse_result \<times> parser_context) res" where
  "get_arg ctx opt category =
     bind_res (get_arg_routine ctx opt category) (\<lambda>(rescode, ctx).
       if rescode \<noteq> PARSING_DONE then Ok (rescode, ctx)
       else if ctx_cmdmode ctx \<noteq> []
       then bind_res (verify_cmdmode ctx opt category) (\<lambda>(r, ctx).
              if r \<noteq> 0 then Ok (PARSING_ERROR, ctx) else Ok (PARSING_DONE, ctx))
       else Ok (PARSING_DONE, ctx))"

section \<open>Long options\<close>

text \<open>
  What one round of the loop of parse_long_option makes of an option: go on, remember it as
  an abbreviation (with the category of the argument), or take it (with the text after an
  equals sign).
\<close>

datatype long_match = No_match | Abbreviated option_category option_category
  | Exact option_category "string option"

definition accept_rest :: "option_category \<Rightarrow> string \<Rightarrow> long_match" where
  "accept_rest category rest =
     (if first_char rest \<noteq> NUL
      then (if first_char rest \<noteq> CHR ''='' then No_match else Exact category (Some (tl rest)))
      else Exact category None)"

text \<open>\<^verbatim>\<open>strncmp(s, t, n) == 0\<close>\<close>

definition strncmp_eq :: "string \<Rightarrow> string \<Rightarrow> nat \<Rightarrow> bool" where
  "strncmp_eq s t n \<longleftrightarrow> take n s = take n t"

definition argstr_end :: "string \<Rightarrow> nat" where
  "argstr_end argstr = length argstr - length (pk_strchrnul argstr (CHR ''=''))"

definition match_long :: "string \<Rightarrow> opt \<Rightarrow> long_match res" where
  "match_long argstr opt =
     (if opt_type opt = OPTION_GROUP \<or> OPTION_NOEMDASH \<in> opt_flags opt then Ok No_match
      else bind_res (name_of opt) (\<lambda>n.
        let neg = (if \<not> starts_with argstr ''no-'' \<and> OPTION_ALLONEG \<in> opt_flags opt
                   then skip_prefix n ''no-'' else None);
            optname = (case neg of None \<Rightarrow> n | Some r \<Rightarrow> r);
            opt_category = (if neg = None then LONG_OPTION else UNSET_OPTION);
            as_long = category_xor LONG_OPTION opt_category;
            as_unset = category_xor UNSET_OPTION opt_category
        in Ok (case skip_prefix argstr optname of
                 Some rest \<Rightarrow> accept_rest as_long rest
               | None \<Rightarrow>
                   if strncmp_eq optname argstr (argstr_end argstr) then Abbreviated LONG_OPTION as_long
                   else if OPTION_ALLONEG \<notin> opt_flags opt then No_match
                   else if starts_with ''no-'' argstr then Abbreviated UNSET_OPTION as_unset
                   else if \<not> starts_with argstr ''no-'' then No_match
                   else case skip_prefix (drop 3 argstr) optname of
                          Some rest \<Rightarrow> accept_rest as_unset rest
                        | None \<Rightarrow> if starts_with optname (drop 3 argstr)
                                  then Abbreviated UNSET_OPTION as_unset else No_match)))"

fun no_text :: "option_category \<Rightarrow> string" where
  "no_text UNSET_OPTION = ''no-''"
| "no_text c = []"

definition ambiguous_error ::
    "parser_context \<Rightarrow> string \<Rightarrow> opt \<times> option_category \<Rightarrow> opt \<times> option_category \<Rightarrow> parser_context res" where
  "ambiguous_error ctx argstr amb abb =
     bind_res (name_of (fst amb)) (\<lambda>n1. bind_res (name_of (fst abb)) (\<lambda>n2.
       log_error ctx (''ambiguous option: '' @ argstr @ '' (could be --'' @ no_text (snd amb) @ n1
                      @ '' or --'' @ no_text (snd abb) @ n2 @ '')'')))"

text \<open>The result is the parse result, \<^verbatim>\<open>*parsed\<close> (if assigned) and the context.\<close>

fun parse_long_loop ::
    "parser_context \<Rightarrow> string \<Rightarrow> opt list \<Rightarrow> (opt \<times> option_category) option \<Rightarrow> (opt \<times> option_category) option
       \<Rightarrow> (parse_result \<times> opt option \<times> parser_context) res" where
  "parse_long_loop ctx argstr [] abbrev ambiguous = Halt (Undef ''read past the option table'')"
| "parse_long_loop ctx argstr (opt # opts) abbrev ambiguous =
     (if opt_type opt = OPTION_END
      then case ambiguous of
             Some amb \<Rightarrow>
               bind_res (ambiguous_error ctx argstr amb (the abbrev)) (\<lambda>ctx. Ok (PARSING_HELP, None, ctx))
           | None \<Rightarrow>
               (case abbrev of
                  Some (o1, c1) \<Rightarrow> bind_res (get_arg ctx o1 c1) (\<lambda>(r, ctx). Ok (r, Some o1, ctx))
                | None \<Rightarrow> Ok (PARSING_UNKNOWN, None, ctx\<lparr>ctx_optstr := Some argstr\<rparr>))
      else bind_res (match_long argstr opt) (\<lambda>verdict.
             case verdict of
               No_match \<Rightarrow> parse_long_loop ctx argstr opts abbrev ambiguous
             | Abbreviated arg_category category \<Rightarrow>
                 parse_long_loop
                   (if arg_category \<noteq> UNSET_OPTION \<and> argstr_end argstr < length argstr
                    then ctx\<lparr>ctx_optstr := Some (drop (argstr_end argstr + 1) argstr)\<rparr> else ctx)
                   argstr opts (Some (opt, category)) (if abbrev \<noteq> None then abbrev else ambiguous)
             | Exact category rest \<Rightarrow>
                 bind_res (get_arg (case rest of None \<Rightarrow> ctx | Some v \<Rightarrow> ctx\<lparr>ctx_optstr := Some v\<rparr>) opt category)
                   (\<lambda>(r, ctx). Ok (r, Some opt, ctx))))"

definition parse_long_option ::
    "parser_context \<Rightarrow> string \<Rightarrow> opt list \<Rightarrow> (parse_result \<times> opt option \<times> parser_context) res" where
  "parse_long_option ctx argstr opts = parse_long_loop ctx argstr opts None None"

section \<open>Short options\<close>

text \<open>\<^verbatim>\<open>*ctx->optstr\<close> is the terminator when a lone hyphen is parsed.\<close>

fun parse_short_option ::
    "parser_context \<Rightarrow> string \<Rightarrow> opt list \<Rightarrow> (parse_result \<times> opt option \<times> parser_context) res" where
  "parse_short_option ctx optstr [] = Halt (Undef ''read past the option table'')"
| "parse_short_option ctx optstr (opt # opts) =
     (if opt_type opt = OPTION_END then Ok (PARSING_UNKNOWN, None, ctx)
      else if opt_alias opt = first_char optstr
      then (if optstr = [] then Halt (Undef ''read past the end of the argument'')
            else bind_res (get_arg (ctx\<lparr>ctx_optstr := (if tl optstr \<noteq> [] then Some (tl optstr) else None)\<rparr>)
                             opt SHORT_OPTION) (\<lambda>(r, ctx). Ok (r, Some opt, ctx)))
      else parse_short_option ctx optstr opts)"

text \<open>\<open>stat path\<close>: \<open>None\<close> when it fails, else whether the path is a directory.\<close>

definition validate_parsed_value ::
    "(string \<Rightarrow> bool option) \<Rightarrow> parser_context \<Rightarrow> opt \<Rightarrow> (parse_result \<times> parser_context) res" where
  "validate_parsed_value stat ctx opt =
     (if OPTION_REALPATH \<in> opt_flags opt
      then bind_res (load_str (ctx_cells ctx) (opt_value opt)) (\<lambda>path.
             case stat path of
               None \<Rightarrow> bind_res (log_error ctx (squote path @ '' did not match any files''))
                         (\<lambda>ctx. Ok (PARSING_ERROR, ctx))
             | Some dir \<Rightarrow>
                 if dir then bind_res (log_error ctx (squote path @ '' is not a regular file''))
                               (\<lambda>ctx. Ok (PARSING_ERROR, ctx))
                 else Ok (PARSING_DONE, ctx))
      else Ok (PARSING_DONE, ctx))"

section \<open>What the steps keep\<close>

text \<open>
  Parsing an option consumes the rest of the word and at most the next word; it never
  touches the argument vector.
\<close>

definition steps_to :: "parser_context \<Rightarrow> parser_context \<Rightarrow> bool" where
  "steps_to ctx ctx' \<longleftrightarrow> ctx_args ctx' = ctx_args ctx \<and> ctx_idx ctx' = ctx_idx ctx
     \<and> ctx_argc0 ctx' = ctx_argc0 ctx \<and> ctx_flags ctx' = ctx_flags ctx \<and> ctx_prefix ctx' = ctx_prefix ctx
     \<and> ctx_argc ctx' + ctx_argv ctx' = ctx_argc ctx + ctx_argv ctx
     \<and> ctx_argv ctx \<le> ctx_argv ctx' \<and> (ctx_argc ctx > 0 \<longrightarrow> ctx_argc ctx' > 0)
     \<and> ctx_optstr ctx' \<in> {ctx_optstr ctx, None}
     \<and> (ctx_cmdmode ctx = [] \<longrightarrow> ctx_cmdmode ctx' = [])"

lemma steps_to_refl [simp]: "steps_to ctx ctx"
  by (simp add: steps_to_def)

lemma steps_to_trans [trans]: "steps_to a b \<Longrightarrow> steps_to b c \<Longrightarrow> steps_to a c"
  by (auto simp: steps_to_def)

lemma steps_to_cells [simp]: "steps_to ctx (ctx\<lparr>ctx_cells := m\<rparr>)"
  by (simp add: steps_to_def)

lemma log_error_steps: "log_error ctx msg = Ok ctx' \<Longrightarrow> steps_to ctx ctx'"
  by (auto simp: log_error_def bind_res_eq_Ok steps_to_def)

lemma optname_error_steps: "optname_error ctx opt c t = Ok (r, ctx') \<Longrightarrow> r = PARSING_ERROR \<and> steps_to ctx ctx'"
  by (auto simp: optname_error_def bind_res_eq_Ok dest: log_error_steps)

lemma next_arg_steps: "next_arg ctx = Ok (a, ctx') \<Longrightarrow> steps_to ctx ctx'"
  by (auto simp: next_arg_def bind_res_eq_Ok steps_to_def split: option.splits if_splits)

lemma get_arg_str_steps:
  assumes "get_arg_str ctx opt c a = Ok (r, ctx')"
  shows "steps_to ctx ctx'"
proof -
  obtain arg ctx1 where 1: "next_arg ctx = Ok (arg, ctx1)"
    using assms by (auto simp: get_arg_str_def bind_res_eq_Ok)
  have "steps_to ctx1 ctx'"
    using assms 1 optname_error_steps
    by (cases arg) (auto simp: get_arg_str_def bind_res_eq_Ok)
  then show ?thesis using next_arg_steps [OF 1] steps_to_trans by blast
qed

lemma get_arg_uint_steps:
  assumes "get_arg_uint ctx opt c a = Ok (r, ctx')"
  shows "steps_to ctx ctx'"
proof -
  obtain arg ctx1 where 1: "next_arg ctx = Ok (arg, ctx1)"
    using assms by (auto simp: get_arg_uint_def bind_res_eq_Ok)
  have "steps_to ctx1 ctx'"
  proof (cases arg)
    case None
    then show ?thesis using assms 1 optname_error_steps by (auto simp: get_arg_uint_def)
  next
    case (Some s)
    then show ?thesis
      using assms 1 by (cases "strtou s")
        (auto simp: get_arg_uint_def bind_res_eq_Ok dest!: optname_error_steps intro: steps_to_trans [OF steps_to_cells])
  qed
  then show ?thesis using next_arg_steps [OF 1] steps_to_trans by blast
qed

lemma get_arg_value_steps: "get_arg_value ctx opt c = Ok (r, ctx') \<Longrightarrow> steps_to ctx ctx'"
proof (cases "opt_type opt")
  case OPTION_FILENAME
  assume "get_arg_value ctx opt c = Ok (r, ctx')"
  then obtain r1 ctx1 where 1: "get_arg_str ctx opt c (opt_value opt) = Ok (r1, ctx1)"
      and 2: "ctx' = ctx1 \<or> (\<exists>m. ctx' = ctx1\<lparr>ctx_cells := m\<rparr>)"
    using OPTION_FILENAME by (auto simp: get_arg_value_def bind_res_eq_Ok split: if_splits)
  then show ?thesis using get_arg_str_steps [OF 1] steps_to_trans steps_to_cells by blast
qed (auto simp: get_arg_value_def bind_res_eq_Ok split: if_splits dest: get_arg_uint_steps get_arg_str_steps)

lemma get_arg_routine_steps: "get_arg_routine ctx opt c = Ok (r, ctx') \<Longrightarrow> steps_to ctx ctx'"
  by (auto simp: get_arg_routine_def Let_def split: if_splits dest: optname_error_steps get_arg_value_steps)

lemma verify_cmdmode_steps:
  "verify_cmdmode ctx opt c = Ok (r, ctx') \<Longrightarrow> ctx_cmdmode ctx \<noteq> [] \<Longrightarrow> steps_to ctx ctx' \<and> r = -1"
proof -
  assume v: "verify_cmdmode ctx opt c = Ok (r, ctx')" and ne: "ctx_cmdmode ctx \<noteq> []"
  then obtain els msg where "log_error (ctx\<lparr>ctx_cmdmode := els\<rparr>) msg = Ok ctx'" "r = -1"
    by (auto simp: verify_cmdmode_def bind_res_eq_Ok split: option.splits)
  moreover have "steps_to ctx (ctx\<lparr>ctx_cmdmode := els\<rparr>)" using ne by (simp add: steps_to_def)
  ultimately show ?thesis using log_error_steps steps_to_trans by blast
qed

lemma get_arg_steps: "get_arg ctx opt c = Ok (r, ctx') \<Longrightarrow> steps_to ctx ctx'"
  by (auto simp: get_arg_def bind_res_eq_Ok split: if_splits
      dest!: get_arg_routine_steps verify_cmdmode_steps intro: steps_to_trans)

lemma parse_short_option_steps:
  "parse_short_option ctx optstr opts = Ok (r, parsed, ctx') \<Longrightarrow> ctx_optstr ctx = Some optstr
   \<Longrightarrow> (r = PARSING_UNKNOWN \<and> ctx' = ctx) \<or>
       (optstr \<noteq> [] \<and> steps_to (ctx\<lparr>ctx_optstr := (if tl optstr \<noteq> [] then Some (tl optstr) else None)\<rparr>) ctx')"
  by (induction opts) (auto simp: bind_res_eq_Ok split: if_splits dest: get_arg_steps)

lemma parse_long_loop_steps:
  "parse_long_loop ctx argstr opts abbrev ambiguous = Ok (r, parsed, ctx')
   \<Longrightarrow> steps_to (ctx\<lparr>ctx_optstr := ctx_optstr ctx'\<rparr>) ctx'"
proof (induction ctx argstr opts abbrev ambiguous rule: parse_long_loop.induct)
  case (2 ctx argstr opt opts abbrev ambiguous)
  have set_opt: "steps_to (c\<lparr>ctx_optstr := x\<rparr>) c' \<Longrightarrow> steps_to (c\<lparr>ctx_optstr := ctx_optstr c'\<rparr>) c'" for c c' x
    by (auto simp: steps_to_def)
  have drop: "steps_to c c' \<Longrightarrow> steps_to (c\<lparr>ctx_optstr := ctx_optstr c'\<rparr>) c'" for c c'
    by (auto simp: steps_to_def)
  show ?case
  proof (cases "opt_type opt = OPTION_END")
    case True
    then show ?thesis
      using "2.prems" by (auto simp: bind_res_eq_Ok ambiguous_error_def steps_to_def split: option.splits
          dest!: get_arg_steps log_error_steps)
  next
    case False
    then obtain verdict where v: "match_long argstr opt = Ok verdict"
      using "2.prems" by (auto simp: bind_res_eq_Ok)
    show ?thesis
    proof (cases verdict)
      case No_match
      then show ?thesis using 2 False v by simp
    next
      case (Abbreviated c d)
      then show ?thesis
        using "2.IH"(2) [OF False v Abbreviated] "2.prems" False v by (auto split: if_splits)
    next
      case (Exact d rest)
      then obtain r' where "get_arg (case rest of None \<Rightarrow> ctx | Some v \<Rightarrow> ctx\<lparr>ctx_optstr := Some v\<rparr>) opt d = Ok (r', ctx')"
        using "2.prems" False v by (auto simp: bind_res_eq_Ok)
      then show ?thesis using get_arg_steps set_opt drop by (cases rest) fastforce+
    qed
  qed
qed simp

section \<open>One word\<close>

text \<open>The loop over the switches of a word.  The last component is \<^verbatim>\<open>parsed\<close>.\<close>

function short_loop ::
    "opt list \<Rightarrow> bool \<Rightarrow> parser_context \<Rightarrow> opt option \<Rightarrow> (parse_result \<times> opt option \<times> parser_context) res" where
  "short_loop options allow_short_help ctx parsed =
     (case ctx_optstr ctx of
        None \<Rightarrow> Ok (PARSING_DONE, parsed, ctx)
      | Some optstr \<Rightarrow>
          bind_res (parse_short_option ctx optstr options) (\<lambda>(rescode, parsed, ctx').
            if rescode = PARSING_DONE then short_loop options allow_short_help ctx' parsed
            else if rescode = PARSING_UNKNOWN
            then Ok (if first_char (case ctx_optstr ctx' of None \<Rightarrow> [] | Some o' \<Rightarrow> o') = CHR ''h'' \<and> allow_short_help
                     then PARSING_HELP else PARSING_UNKNOWN, parsed, ctx')
            else if rescode = PARSING_ERROR then Ok (PARSING_ERROR, parsed, ctx')
            else Halt (Bug ''parse_short_option() result'')))"
  by pat_completeness simp_all
termination
proof (relation "measure (\<lambda>(options, a, ctx, parsed). case ctx_optstr ctx of None \<Rightarrow> 0 | Some s \<Rightarrow> Suc (length s))",
    goal_cases)
  case (2 options a ctx parsed optstr x rescode y parsed' ctx')
  then have "ctx_optstr ctx' = None \<or> ctx_optstr ctx' = (if tl optstr \<noteq> [] then Some (tl optstr) else None)"
      "optstr \<noteq> []"
    using parse_short_option_steps [of ctx optstr options rescode parsed' ctx'] by (auto simp: steps_to_def)
  then show ?case using 2(1) by (cases optstr) (auto split: option.splits if_splits)
qed simp

declare short_loop.simps [simp del]

definition parse_option_next ::
    "(string \<Rightarrow> bool option) \<Rightarrow> opt list \<Rightarrow> parser_context \<Rightarrow> (parse_result \<times> parser_context) res" where
  "parse_option_next stat options ctx =
     bind_res (arg_at ctx (ctx_argv ctx)) (\<lambda>argstr.
     let allow_short_help = (PARSER_NO_SHORT_HELP \<notin> ctx_flags ctx);
         finish = (\<lambda>parsed ctx. case parsed of
                     None \<Rightarrow> Halt (Undef ''parsed is uninitialised'')
                   | Some opt \<Rightarrow> validate_parsed_value stat ctx opt)
     in if PARSER_ONE_SHOT \<in> ctx_flags ctx \<and> int (ctx_argc0 ctx) - int (ctx_argc ctx) = 1
        then Ok (PARSING_COMPLETE, ctx)
        else if first_char argstr \<noteq> CHR ''-''
        then (if PARSER_ABORT_NON_OPTION \<in> ctx_flags ctx then Ok (PARSING_NON_OPTION, ctx)
              else if PARSER_UNTIL_NON_OPTION \<in> ctx_flags ctx then Ok (PARSING_COMPLETE, ctx)
              else if length (ctx_args ctx) \<le> ctx_idx ctx then Halt (Undef ''write outside argv'')
              else Ok (PARSING_DONE, ctx\<lparr>ctx_args := (ctx_args ctx)[ctx_idx ctx := ctx_args ctx ! ctx_argv ctx],
                                         ctx_idx := ctx_idx ctx + 1\<rparr>))
        else if ctx_argc0 ctx = 1 \<and> tl argstr = ''h'' \<and> allow_short_help then Ok (PARSING_HELP, ctx)
        else if first_char (tl argstr) \<noteq> CHR ''-''
        then bind_res (short_loop options allow_short_help (ctx\<lparr>ctx_optstr := Some (tl argstr)\<rparr>) None)
               (\<lambda>(r, parsed, ctx). if r \<noteq> PARSING_DONE then Ok (r, ctx) else finish parsed ctx)
        else if drop 2 argstr = []
        then Ok (PARSING_COMPLETE, ctx\<lparr>ctx_argc := ctx_argc ctx - 1, ctx_argv := ctx_argv ctx + 1\<rparr>)
        else if drop 2 argstr = ''help'' then Ok (PARSING_HELP, ctx)
        else bind_res (parse_long_option ctx (drop 2 argstr) options) (\<lambda>(r, parsed, ctx).
               if r = PARSING_DONE then finish parsed ctx
               else if r \<in> {PARSING_ERROR, PARSING_HELP, PARSING_UNKNOWN} then Ok (r, ctx)
               else Halt (Bug ''parse_long_option() result'')))"

section \<open>The usage text\<close>

definition spaces :: "nat \<Rightarrow> string" where
  "spaces n = replicate n (CHR '' '')"

definition pad_usage :: "nat \<Rightarrow> nat \<Rightarrow> string" where
  "pad_usage opt_argh_indent pos =
     (if pos < opt_argh_indent then spaces (opt_argh_indent - pos) else NL # spaces opt_argh_indent)"

definition print_option_argh :: "opt \<Rightarrow> string" where
  "print_option_argh opt =
     (let printraw = (case opt_argh opt of None \<Rightarrow> True | Some a \<Rightarrow> \<exists>c\<in>set a. c \<in> set ''()<>[]|'');
          a = (case opt_argh opt of None \<Rightarrow> ''...'' | Some a \<Rightarrow> a);
          arg = (if printraw then a else ''<'' @ a @ ''>'')
      in if OPTION_OPTARG \<in> opt_flags opt
         then (if opt_name opt \<noteq> None then ''[='' @ arg @ '']'' else ''['' @ arg @ '']'')
         else '' '' @ arg)"

text \<open>The position is only used for the first line.\<close>

function print_help :: "nat \<Rightarrow> string \<Rightarrow> nat \<Rightarrow> string" where
  "print_help indent [] pos = []"
| "print_help indent (c # s) pos =
     (let line = takeWhile (\<lambda>c. c \<noteq> NL) (c # s); rest = dropWhile (\<lambda>c. c \<noteq> NL) (c # s)
      in pad_usage indent pos @ line @ take 1 rest @ print_help indent (tl rest) 0)"
  by pat_completeness simp_all
termination
  by (relation "measure (\<lambda>(indent, s, pos). length s)") (auto simp: less_Suc_eq_le intro: order.trans [OF diff_le_self length_dropWhile_le])

declare print_help.simps [simp del]

text \<open>The lines of one usage string; the list \<open>sl\<close> is used again for the next one.\<close>

fun number_lines :: "string \<Rightarrow> nat \<Rightarrow> string list \<Rightarrow> string" where
  "number_lines next_prefix i [] = []"
| "number_lines next_prefix i (line # lines) =
     (if i = 0 then next_prefix @ line @ [NL] else spaces 7 @ line @ [NL]) @ number_lines next_prefix (i + 1) lines"

fun usage_lines :: "strlist \<Rightarrow> string \<Rightarrow> string list \<Rightarrow> string res" where
  "usage_lines sl next_prefix [] = bind_res (strlist_destroy sl False) (\<lambda>_. Ok [])"
| "usage_lines sl next_prefix (ustr # usages) =
     bind_res (strlist_split sl ustr NL (-1)) (\<lambda>(_, sl).
     bind_res (live_elems sl) (\<lambda>els.
     bind_res (strlist_trunc sl False) (\<lambda>(_, sl).
     bind_res (usage_lines sl ''   or: '' usages) (\<lambda>rest.
       Ok (number_lines next_prefix 0 (map el_str els) @ rest)))))"

text \<open>
  The search for the opposite of a negative name moves the pointer \<^verbatim>\<open>options\<close>, which is not
  put back; strcmp is called with the name of every option passed.
\<close>

fun seek_name :: "string \<Rightarrow> opt list \<Rightarrow> opt list res" where
  "seek_name n [] = Halt (Undef ''read past the option table'')"
| "seek_name n (opt # opts) =
     (if opt_type opt = OPTION_END then Ok (opt # opts)
      else bind_res (name_of opt) (\<lambda>m. if n = m then Ok (opt # opts) else seek_name n opts))"

definition option_head :: "opt \<Rightarrow> string" where
  "option_head opt =
     ''    '' @ (if opt_alias opt \<noteq> NUL then [CHR ''-'', opt_alias opt] else [])
     @ (if opt_name opt \<noteq> None \<and> opt_alias opt \<noteq> NUL then '', '' else [])
     @ (case opt_name opt of
          None \<Rightarrow> []
        | Some n \<Rightarrow> (if OPTION_NOEMDASH \<in> opt_flags opt then [] else ''--'')
            @ (if OPTION_ALLONEG \<notin> opt_flags opt \<or> skip_prefix n ''no-'' \<noteq> None then n else ''[no-]'' @ n))
     @ (if OPTION_SHOWARGH \<in> opt_flags opt \<and> OPTION_NOARG \<notin> opt_flags opt then print_option_argh opt else [])"

definition negpos_name :: "opt \<Rightarrow> string option" where
  "negpos_name opt =
     (case opt_name opt of
        None \<Rightarrow> None
      | Some n \<Rightarrow> if OPTION_ALLONEG \<in> opt_flags opt then skip_prefix n ''no-'' else None)"

definition opposite_text :: "nat \<Rightarrow> string \<Rightarrow> string" where
  "opposite_text indent n =
     (let head = ''    --'' @ n in head @ pad_usage indent (length head) @ ''opposite of --no-'' @ n @ [NL])"

fun option_lines :: "nat \<Rightarrow> opt list \<Rightarrow> bool \<Rightarrow> opt list \<Rightarrow> string res" where
  "option_lines indent options need_newline [] = Halt (Undef ''read past the option table'')"
| "option_lines indent options need_newline (iter # rest) =
     (if opt_type iter = OPTION_END then Ok []
      else if OPTION_HIDDEN \<in> opt_flags iter then option_lines indent options need_newline rest
      else if opt_type iter = OPTION_GROUP
      then (case opt_help iter of
              None \<Rightarrow> Halt (Undef ''NULL help'')
            | Some h \<Rightarrow> bind_res (option_lines indent options False rest) (\<lambda>t.
                Ok ([NL] @ (if h \<noteq> [] then h @ [NL] else []) @ t)))
      else let head = option_head iter;
               line = (if need_newline then [NL] else []) @ head
                 @ print_help indent (case opt_help iter of None \<Rightarrow> [] | Some h \<Rightarrow> h) (length head) @ [NL]
           in case negpos_name iter of
                None \<Rightarrow> bind_res (option_lines indent options False rest) (\<lambda>t. Ok (line @ t))
              | Some n \<Rightarrow>
                  bind_res (seek_name n options) (\<lambda>options.
                  bind_res (option_lines indent options False rest) (\<lambda>t.
                    Ok (line @ (if opt_type (hd options) \<noteq> OPTION_END then opposite_text indent n else []) @ t))))"

definition usage_with_options :: "nat \<Rightarrow> string list \<Rightarrow> opt list \<Rightarrow> bool \<Rightarrow> (out_stream \<times> string) res" where
  "usage_with_options indent usages options is_error =
     bind_res (usage_lines STRLIST_INIT_DUPSTR ''usage: '' usages) (\<lambda>u.
     bind_res (option_lines indent options True options) (\<lambda>t.
       Ok (if is_error then To_stderr else To_stdout, u @ t @ [NL])))"

section \<open>The parser\<close>

text \<open>The elements are pushed at the front; \<^verbatim>\<open>opt\<close> and \<^verbatim>\<open>category\<close> are left uninitialised.\<close>

fun make_cmdmode_list :: "cells \<Rightarrow> command_mode list \<Rightarrow> opt list \<Rightarrow> command_mode list res" where
  "make_cmdmode_list m els [] = Halt (Undef ''read past the option table'')"
| "make_cmdmode_list m els (opt # opts) =
     (if opt_type opt = OPTION_END then Ok els
      else if OPTION_CMDMODE \<notin> opt_flags opt then make_cmdmode_list m els opts
      else bind_res (load_int m (opt_value opt)) (\<lambda>v.
             make_cmdmode_list m (\<lparr>cm_val = v, cm_valptr = opt_value opt, cm_opt = None\<rparr> # els) opts))"

definition clean_cmdmode_list :: "parser_context \<Rightarrow> parser_context" where
  "clean_cmdmode_list ctx = ctx\<lparr>ctx_cmdmode := []\<rparr>"

text \<open>The value parse_options returns, or the status it leaves the process with.\<close>

datatype parse_end = Returned nat | Exited int

definition exit_status :: "int \<Rightarrow> int" where
  "exit_status code = code mod 256"

text \<open>MOVE_ARRAY of the rest behind the words kept, and the NULL after it.\<close>

definition finish_parse :: "parser_context \<Rightarrow> (parse_end \<times> parser_context) res" where
  "finish_parse ctx0 =
     (let ctx = clean_cmdmode_list ctx0; a = ctx_args ctx; n = ctx_argc ctx; i = ctx_idx ctx
      in if length a < ctx_argv ctx + n \<or> length a \<le> i + n then Halt (Undef ''write outside argv'')
         else Ok (Returned (i + n),
                  ctx\<lparr>ctx_args := (take i a @ take n (drop (ctx_argv ctx) a) @ drop (i + n) a)[i + n := None]\<rparr>))"

definition print_usage ::
    "nat \<Rightarrow> string list \<Rightarrow> opt list \<Rightarrow> bool \<Rightarrow> parser_context \<Rightarrow> (parse_end \<times> parser_context) res" where
  "print_usage indent usages options is_error ctx =
     bind_res (usage_with_options indent usages options is_error) (\<lambda>out.
       Ok (Exited (exit_status (-1)), ctx\<lparr>ctx_log := ctx_log ctx @ [out]\<rparr>))"

definition unknown_option :: "nat \<Rightarrow> string list \<Rightarrow> opt list \<Rightarrow> parser_context \<Rightarrow> (parse_end \<times> parser_context) res" where
  "unknown_option indent usages options ctx =
     bind_res (arg_at ctx (ctx_argv ctx)) (\<lambda>arg.
     bind_res (if first_char (tl arg) = CHR ''-''
               then log_error ctx (''unknown option '' @ squote (drop 2 arg))
               else case ctx_optstr ctx of
                      None \<Rightarrow> Halt (Undef ''NULL optstr'')
                    | Some o' \<Rightarrow>
                        if char_code (first_char o') < 128
                        then log_error ctx (''unknown switch '' @ squote [first_char o'])
                        else log_error ctx (''unknown non-ascii option in string: '' @ squote arg)) (\<lambda>ctx.
       print_usage indent usages options True ctx))"

function parse_loop ::
    "(string \<Rightarrow> bool option) \<Rightarrow> nat \<Rightarrow> opt list \<Rightarrow> string list \<Rightarrow> parser_context \<Rightarrow> (parse_end \<times> parser_context) res" where
  "parse_loop stat indent options usages ctx =
     (if ctx_argc ctx = 0 then finish_parse ctx
      else bind_res (parse_option_next stat options ctx) (\<lambda>(r, ctx').
        if r = PARSING_DONE
        then parse_loop stat indent options usages (ctx'\<lparr>ctx_argc := ctx_argc ctx' - 1, ctx_argv := ctx_argv ctx' + 1\<rparr>)
        else if r = PARSING_COMPLETE then finish_parse ctx'
        else if r = PARSING_NON_OPTION
        then bind_res (arg_at ctx' (ctx_argv ctx')) (\<lambda>arg.
             bind_res (log_error ctx' (''unknown argument '' @ squote arg)) (\<lambda>ctx'.
               Ok (Exited (exit_status (-1)), ctx')))
        else if r = PARSING_HELP then print_usage indent usages options False ctx'
        else if r = PARSING_ERROR then Ok (Exited (exit_status (-1)), ctx')
        else unknown_option indent usages options ctx'))"
  by pat_completeness simp_all

lemma short_loop_steps:
  "short_loop options h ctx parsed = Ok (r, p', ctx') \<Longrightarrow> steps_to (ctx\<lparr>ctx_optstr := ctx_optstr ctx'\<rparr>) ctx'"
proof (induction options h ctx parsed rule: short_loop.induct)
  case (1 options h ctx parsed)
  show ?case
  proof (cases "ctx_optstr ctx")
    case None
    then have "ctx' = ctx" using "1.prems" by (simp add: short_loop.simps)
    then show ?thesis by (simp add: steps_to_def)
  next
    case (Some optstr)
    then obtain rc p1 ctx1 where p: "parse_short_option ctx optstr options = Ok (rc, p1, ctx1)"
      using "1.prems" by (subst (asm) short_loop.simps) (auto simp: bind_res_eq_Ok)
    then have s: "steps_to (ctx\<lparr>ctx_optstr := ctx_optstr ctx1\<rparr>) ctx1"
      using parse_short_option_steps [OF p Some] by (auto simp: steps_to_def)
    show ?thesis
    proof (cases "rc = PARSING_DONE")
      case True
      then have "short_loop options h ctx1 p1 = Ok (r, p', ctx')"
        using "1.prems" p Some by (subst (asm) short_loop.simps) simp
      then have "steps_to (ctx1\<lparr>ctx_optstr := ctx_optstr ctx'\<rparr>) ctx'"
        using "1.IH" [OF Some p refl refl True] by simp
      then show ?thesis using s by (auto simp: steps_to_def)
    next
      case False
      then have "ctx' = ctx1"
        using "1.prems" p Some by (subst (asm) short_loop.simps) (auto split: if_splits)
      then show ?thesis using s by simp
    qed
  qed
qed

lemma validate_steps: "validate_parsed_value stat ctx opt = Ok (r, ctx') \<Longrightarrow> steps_to ctx ctx' \<and> r \<noteq> PARSING_COMPLETE"
  by (auto simp: validate_parsed_value_def bind_res_eq_Ok split: if_splits option.splits dest: log_error_steps)

text \<open>One word: \<open>argc\<close> and \<open>argv\<close> move together, and only a word that is kept is written.\<close>

definition word_step :: "parser_context \<Rightarrow> parser_context \<Rightarrow> bool" where
  "word_step ctx ctx' \<longleftrightarrow>
     ctx_argc ctx' + ctx_argv ctx' = ctx_argc ctx + ctx_argv ctx \<and> ctx_argv ctx \<le> ctx_argv ctx'
     \<and> ctx_argc0 ctx' = ctx_argc0 ctx \<and> ctx_flags ctx' = ctx_flags ctx
     \<and> ((ctx_args ctx' = ctx_args ctx \<and> ctx_idx ctx' = ctx_idx ctx)
        \<or> (ctx_argv ctx' = ctx_argv ctx \<and> ctx_idx ctx' = ctx_idx ctx + 1
           \<and> ctx_args ctx' = (ctx_args ctx)[ctx_idx ctx := ctx_args ctx ! ctx_argv ctx]))"

lemma steps_to_word: "steps_to (ctx\<lparr>ctx_optstr := x\<rparr>) ctx' \<Longrightarrow> word_step ctx ctx'"
  by (auto simp: steps_to_def word_step_def)

lemma steps_to_pos: "steps_to (ctx\<lparr>ctx_optstr := x\<rparr>) ctx' \<Longrightarrow> ctx_argc ctx > 0 \<Longrightarrow> ctx_argc ctx' > 0"
  by (simp add: steps_to_def)

lemma word_step_refl [simp]: "word_step ctx ctx"
  by (simp add: word_step_def)

lemma steps_to_same:
  "steps_to (ctx\<lparr>ctx_optstr := x\<rparr>) ctx' \<Longrightarrow> ctx_args ctx' = ctx_args ctx \<and> ctx_idx ctx' = ctx_idx ctx"
  by (simp add: steps_to_def)

lemma finish_word:
  assumes "steps_to (ctx\<lparr>ctx_optstr := x\<rparr>) c1" "ctx_argc ctx > 0"
    "(case parsed of None \<Rightarrow> Halt h | Some opt \<Rightarrow> validate_parsed_value stat c1 opt) = Ok (r, ctx')"
  shows "word_step ctx ctx' \<and> ctx_argc ctx' > 0 \<and> ctx_args ctx' = ctx_args ctx \<and> ctx_idx ctx' = ctx_idx ctx"
proof -
  have v: "steps_to c1 ctx'"
    using assms(3) validate_steps by (auto split: option.splits)
  have "steps_to (ctx\<lparr>ctx_optstr := x\<rparr>) ctx'" using steps_to_trans [OF assms(1) v] .
  then show ?thesis using steps_to_word steps_to_pos steps_to_same assms(2) by blast
qed

lemma parse_option_next_word:
  assumes "parse_option_next stat options ctx = Ok (r, ctx')" "ctx_argc ctx > 0"
  shows "word_step ctx ctx' \<and> (r = PARSING_DONE \<longrightarrow> ctx_argc ctx' > 0)
    \<and> (r \<noteq> PARSING_DONE \<longrightarrow> ctx_args ctx' = ctx_args ctx \<and> ctx_idx ctx' = ctx_idx ctx)"
proof -
  obtain argstr where a: "arg_at ctx (ctx_argv ctx) = Ok argstr"
    using assms(1) by (auto simp: parse_option_next_def bind_res_eq_Ok)
  consider (stop) "ctx' = ctx" "r \<noteq> PARSING_DONE"
    | (keep) "ctx' = ctx\<lparr>ctx_args := (ctx_args ctx)[ctx_idx ctx := ctx_args ctx ! ctx_argv ctx], ctx_idx := ctx_idx ctx + 1\<rparr>" "r = PARSING_DONE"
    | (marker) "ctx' = ctx\<lparr>ctx_argc := ctx_argc ctx - 1, ctx_argv := ctx_argv ctx + 1\<rparr>" "r \<noteq> PARSING_DONE"
    | (short) r1 p1 c1 where
        "short_loop options (PARSER_NO_SHORT_HELP \<notin> ctx_flags ctx) (ctx\<lparr>ctx_optstr := Some (tl argstr)\<rparr>) None = Ok (r1, p1, c1)"
        "(r1 \<noteq> PARSING_DONE \<and> r = r1 \<and> ctx' = c1) \<or>
         (case p1 of None \<Rightarrow> Halt (Undef ''parsed is uninitialised'') | Some opt \<Rightarrow> validate_parsed_value stat c1 opt) = Ok (r, ctx')"
    | (long) r1 p1 c1 where
        "parse_long_option ctx (drop 2 argstr) options = Ok (r1, p1, c1)"
        "(r1 \<noteq> PARSING_DONE \<and> r = r1 \<and> ctx' = c1) \<or>
         (case p1 of None \<Rightarrow> Halt (Undef ''parsed is uninitialised'') | Some opt \<Rightarrow> validate_parsed_value stat c1 opt) = Ok (r, ctx')"
    using assms(1) a
    unfolding parse_option_next_def
    by (simp add: Let_def split: if_split_asm) (auto simp: bind_res_eq_Ok split: if_split_asm)
  then show ?thesis
  proof cases
    case keep
    then show ?thesis using assms(2) by (simp add: word_step_def)
  next
    case marker
    then show ?thesis using assms(2) by (simp add: word_step_def)
  next
    case short
    have "steps_to (ctx\<lparr>ctx_optstr := ctx_optstr c1\<rparr>) c1"
      using short_loop_steps [OF short(1)] by simp
    then show ?thesis using short(2) finish_word [OF _ assms(2)] steps_to_word steps_to_same by blast
  next
    case long
    have "steps_to (ctx\<lparr>ctx_optstr := ctx_optstr c1\<rparr>) c1"
      using parse_long_loop_steps long(1) by (simp add: parse_long_option_def)
    then show ?thesis using long(2) finish_word [OF _ assms(2)] steps_to_word steps_to_same by blast
  qed simp
qed

termination parse_loop
proof (relation "measure (\<lambda>(stat, indent, options, usages, ctx). ctx_argc ctx)", goal_cases)
  case (2 stat indent options usages ctx x r ctx')
  then have "word_step ctx ctx'" "ctx_argc ctx' > 0"
    using parse_option_next_word [of stat options ctx r ctx'] by auto
  then show ?case by (auto simp: word_step_def)
qed simp

declare parse_loop.simps [simp del]

definition start_context ::
    "nat \<Rightarrow> string option list \<Rightarrow> string \<Rightarrow> command_parser_flag set \<Rightarrow> command_mode list \<Rightarrow> cells \<Rightarrow> parser_context" where
  "start_context argc args prefix flags cmdmode m =
     \<lparr>ctx_argc = argc, ctx_argv = 0, ctx_args = args, ctx_prefix = prefix, ctx_flags = flags,
      ctx_argc0 = argc, ctx_idx = 0, ctx_optstr = None, ctx_cmdmode = cmdmode, ctx_cells = m, ctx_log = []\<rparr>"

definition parse_options ::
    "(string \<Rightarrow> bool option) \<Rightarrow> nat \<Rightarrow> cells \<Rightarrow> nat \<Rightarrow> string option list \<Rightarrow> string \<Rightarrow> opt list \<Rightarrow> string list
       \<Rightarrow> command_parser_flag set \<Rightarrow> (parse_end \<times> parser_context) res" where
  "parse_options stat indent m argc args prefix options usages flags =
     bind_res (make_cmdmode_list m [] options) (\<lambda>cmdmode.
       parse_loop stat indent options usages (start_context argc args prefix flags cmdmode m))"

end
