(* ===== verification/Option_Laws.thy ===== *)
theory Option_Laws
  imports Parse_Option "HOL-Library.Sublist"
begin

text \<open>
  What parse_options promises: the words it returns, the resolution of long names, the
  treatment of numbers, and the inputs on which it has no defined behaviour.
\<close>

section \<open>The argument vector\<close>

text \<open>
  The vector holds the words kept, some cells that are no longer needed, the words still to
  be parsed and NULL.
\<close>

definition view :: "parser_context \<Rightarrow> string list \<Rightarrow> string list \<Rightarrow> bool" where
  "view ctx kept ws \<longleftrightarrow>
     (\<exists>junk. ctx_args ctx = map Some kept @ junk @ map Some ws @ [None]
        \<and> ctx_idx ctx = length kept \<and> ctx_argv ctx = length kept + length junk \<and> ctx_argc ctx = length ws)"

lemma view_start: "view (start_context (length ws) (map Some ws @ [None]) pfx flags els m) [] ws"
  by (simp add: view_def start_context_def)

lemma view_arg_at: "view ctx kept (w # ws) \<Longrightarrow> arg_at ctx (ctx_argv ctx) = Ok w"
  by (auto simp: view_def arg_at_def nth_append)

lemma view_drop:
  assumes "view ctx kept (us @ ws)" "ctx_args ctx' = ctx_args ctx" "ctx_idx ctx' = ctx_idx ctx"
    "ctx_argv ctx' = ctx_argv ctx + length us" "ctx_argc ctx' = length ws"
  shows "view ctx' kept ws"
proof -
  obtain junk where "ctx_args ctx = map Some kept @ junk @ map Some (us @ ws) @ [None]"
      "ctx_idx ctx = length kept" "ctx_argv ctx = length kept + length junk"
    using assms(1) by (auto simp: view_def)
  then show ?thesis
    using assms(2-5) unfolding view_def by (intro exI [of _ "junk @ map Some us"]) simp
qed

lemma view_keep:
  assumes "view ctx kept (w # ws)" "ctx_args ctx' = (ctx_args ctx)[ctx_idx ctx := ctx_args ctx ! ctx_argv ctx]"
    "ctx_idx ctx' = ctx_idx ctx + 1" "ctx_argv ctx' = ctx_argv ctx + 1" "ctx_argc ctx' = length ws"
  shows "view ctx' (kept @ [w]) ws"
proof -
  obtain junk where j: "ctx_args ctx = map Some kept @ junk @ map Some (w # ws) @ [None]"
      "ctx_idx ctx = length kept" "ctx_argv ctx = length kept + length junk"
    using assms(1) by (auto simp: view_def)
  have w: "ctx_args ctx ! ctx_argv ctx = Some w" using j by (simp add: nth_append)
  show ?thesis
  proof (cases junk)
    case Nil
    then have "ctx_args ctx' = map Some (kept @ [w]) @ [] @ map Some ws @ [None]"
      using assms(2) j w by (simp add: list_update_append)
    then show ?thesis using assms(3-5) j Nil unfolding view_def by (intro exI [of _ "[]"]) simp
  next
    case (Cons x js)
    then have "ctx_args ctx' = map Some (kept @ [w]) @ (js @ [Some w]) @ map Some ws @ [None]"
      using assms(2) j w by (simp add: list_update_append)
    then show ?thesis using assms(3-5) j Cons unfolding view_def by (intro exI [of _ "js @ [Some w]"]) simp
  qed
qed

lemma view_finish:
  assumes "view ctx kept ws"
  shows "\<exists>ctx' rest. finish_parse ctx = Ok (Returned (length (kept @ ws)), ctx')
    \<and> ctx_args ctx' = map Some (kept @ ws) @ None # rest \<and> ctx_cells ctx' = ctx_cells ctx \<and> ctx_log ctx' = ctx_log ctx"
proof -
  obtain junk where j: "ctx_args ctx = map Some kept @ junk @ map Some ws @ [None]"
      "ctx_idx ctx = length kept" "ctx_argv ctx = length kept + length junk" "ctx_argc ctx = length ws"
    using assms by (auto simp: view_def)
  let ?rest = "drop (length kept + length ws) (ctx_args ctx)"
  have len: "length ?rest = length junk + 1" using j(1) by simp
  then obtain x r where xr: "?rest = x # r" by (cases ?rest) auto
  have "take (length kept) (ctx_args ctx) @ take (length ws) (drop (ctx_argv ctx) (ctx_args ctx)) @ ?rest
      = map Some (kept @ ws) @ x # r"
    using j xr by simp
  then have "(take (length kept) (ctx_args ctx) @ take (length ws) (drop (ctx_argv ctx) (ctx_args ctx)) @ ?rest)
        [length kept + length ws := None] = map Some (kept @ ws) @ None # r"
    by (simp add: list_update_append)
  then show ?thesis using j by (simp add: finish_parse_def clean_cmdmode_list_def)
qed

lemma view_word_step:
  assumes "view ctx kept ws" "word_step ctx ctx'" "ws \<noteq> []"
  shows "\<exists>us vs. ws = us @ vs \<and>
    (view ctx' kept vs \<or>
     (us = [] \<and> ctx_args ctx' = (ctx_args ctx)[ctx_idx ctx := ctx_args ctx ! ctx_argv ctx]
       \<and> ctx_idx ctx' = ctx_idx ctx + 1 \<and> ctx_argv ctx' = ctx_argv ctx \<and> ctx_argc ctx' = ctx_argc ctx))"
proof (cases "ctx_args ctx' = ctx_args ctx \<and> ctx_idx ctx' = ctx_idx ctx")
  case True
  let ?k = "ctx_argv ctx' - ctx_argv ctx"
  have argc: "ctx_argc ctx = length ws" using assms(1) by (auto simp: view_def)
  then have "length (take ?k ws) = ?k" "ctx_argc ctx' = length (drop ?k ws)"
    "ctx_argv ctx' = ctx_argv ctx + length (take ?k ws)"
    using assms(2) by (auto simp: word_step_def)
  then have "view ctx' kept (drop ?k ws)"
    using view_drop [of ctx kept "take ?k ws" "drop ?k ws" ctx'] assms(1) True by simp
  then show ?thesis by (intro exI [of _ "take ?k ws"] exI [of _ "drop ?k ws"]) simp
next
  case False
  then show ?thesis
    using assms(2) by (intro exI [where P = "\<lambda>us. \<exists>vs. ws = us @ vs \<and> Q us vs" for Q, of "[]"]
      exI [where P = "\<lambda>vs. ws = [] @ vs \<and> Q vs" for Q, of ws]) (auto simp: word_step_def)
qed

lemma parse_loop_words:
  assumes "parse_loop stat indent options usages ctx = Ok (Returned n, ctx')" "view ctx kept ws"
  shows "\<exists>ss rest. ctx_args ctx' = map Some (kept @ ss) @ None # rest \<and> n = length (kept @ ss) \<and> subseq ss ws"
  using assms
proof (induction stat indent options usages ctx arbitrary: kept ws rule: parse_loop.induct)
  case (1 stat indent options usages ctx)
  show ?case
  proof (cases "ctx_argc ctx = 0")
    case True
    then have "ws = []" using "1.prems"(2) by (auto simp: view_def)
    then show ?thesis
      using view_finish [OF "1.prems"(2)] "1.prems"(1) True by (subst (asm) parse_loop.simps) auto
  next
    case False
    then have ws: "ws \<noteq> []" using "1.prems"(2) by (auto simp: view_def)
    obtain r c1 where next_: "parse_option_next stat options ctx = Ok (r, c1)"
      using "1.prems"(1) False by (subst (asm) parse_loop.simps) (auto simp: bind_res_eq_Ok)
    have word: "word_step ctx c1" "r = PARSING_DONE \<Longrightarrow> ctx_argc c1 > 0"
      using parse_option_next_word [OF next_] False by auto
    obtain us vs where uv: "ws = us @ vs" "view c1 kept vs \<or>
       (us = [] \<and> ctx_args c1 = (ctx_args ctx)[ctx_idx ctx := ctx_args ctx ! ctx_argv ctx]
       \<and> ctx_idx c1 = ctx_idx ctx + 1 \<and> ctx_argv c1 = ctx_argv ctx \<and> ctx_argc c1 = ctx_argc ctx)"
      using view_word_step [OF "1.prems"(2) word(1) ws] by blast
    show ?thesis
    proof (cases "r = PARSING_DONE")
      case True
      let ?c = "c1\<lparr>ctx_argc := ctx_argc c1 - 1, ctx_argv := ctx_argv c1 + 1\<rparr>"
      have rec: "parse_loop stat indent options usages ?c = Ok (Returned n, ctx')"
        using "1.prems"(1) False next_ True by (subst (asm) parse_loop.simps) simp
      note IH = "1.IH" [OF False next_ refl True rec]
      show ?thesis
      proof (cases "view c1 kept vs")
        case v: True
        then obtain w vs' where "vs = w # vs'" using word(2) [OF True] by (cases vs) (auto simp: view_def)
        then have "view ?c kept vs'"
          using view_drop [of c1 kept "[w]" vs' ?c] v by (auto simp: view_def)
        then obtain ss rest where "ctx_args ctx' = map Some (kept @ ss) @ None # rest"
            "n = length (kept @ ss)" "subseq ss vs'"
          using IH by blast
        moreover have "subseq ss ws"
          using \<open>subseq ss vs'\<close> uv(1) \<open>vs = w # vs'\<close> by (simp add: list_emb_append2 list_emb_Cons)
        ultimately show ?thesis by blast
      next
        case nv: False
        then obtain w ws' where w: "ws = w # ws'" using ws by (cases ws) auto
        have "view ?c (kept @ [w]) ws'"
          using view_keep [of ctx kept w ws' ?c] "1.prems"(2) uv nv w by (auto simp: view_def)
        then obtain ss rest where s: "ctx_args ctx' = map Some ((kept @ [w]) @ ss) @ None # rest"
            "n = length ((kept @ [w]) @ ss)" "subseq ss ws'"
          using IH by blast
        then have "ctx_args ctx' = map Some (kept @ w # ss) @ None # rest \<and> n = length (kept @ w # ss)
            \<and> subseq (w # ss) ws"
          using w by simp
        then show ?thesis by blast
      qed
    next
      case nd: False
      then have comp: "finish_parse c1 = Ok (Returned n, ctx')"
        using "1.prems"(1) False next_
        by (subst (asm) parse_loop.simps) (auto simp: bind_res_eq_Ok print_usage_def unknown_option_def
            split: if_splits)
      have "view c1 kept vs"
        using uv(2) parse_option_next_word [OF next_] False nd by auto
      then obtain rest where "n = length (kept @ vs)" "ctx_args ctx' = map Some (kept @ vs) @ None # rest"
        using view_finish [of c1 kept vs] comp by auto
      moreover have "subseq vs ws" using uv(1) by (simp add: list_emb_append2)
      ultimately show ?thesis by blast
    qed
  qed
qed

text \<open>
  C11. The words parse_options returns are a subsequence of the words it was given, in order,
  compacted at the front of the vector and followed by NULL; the number returned is theirs.
\<close>

theorem parse_options_words:
  assumes "parse_options stat indent m (length ws) (map Some ws @ [None]) pfx options usages flags
    = Ok (Returned n, ctx)"
  shows "\<exists>ss rest. ctx_args ctx = map Some ss @ None # rest \<and> n = length ss \<and> subseq ss ws"
proof -
  obtain els where "parse_loop stat indent options usages
      (start_context (length ws) (map Some ws @ [None]) pfx flags els m) = Ok (Returned n, ctx)"
    using assms by (auto simp: parse_options_def bind_res_eq_Ok)
  from parse_loop_words [OF this view_start] show ?thesis by simp
qed

theorem parse_options_words_witness:
  "\<exists>ctx ss rest. parse_options (\<lambda>_. None) 23 Map.empty 2 [Some ''a'', Some ''b'', None] ''/'' [mk_OPTION_END] [] {}
      = Ok (Returned 2, ctx)
    \<and> ctx_args ctx = map Some ss @ None # rest \<and> 2 = length ss \<and> subseq ss [''a'', ''b'']"
proof -
  let ?run = "parse_options (\<lambda>_. None) 23 Map.empty (length [''a'', ''b'']) (map Some [''a'', ''b''] @ [None])
      ''/'' [mk_OPTION_END] [] {}"
  have "\<exists>ctx. ?run = Ok (Returned 2, ctx)"
    by (simp add: parse_options_def start_context_def mk_OPTION_END_def option_zero_def parse_loop.simps
        parse_option_next_def arg_at_def finish_parse_def clean_cmdmode_list_def)
  then obtain ctx where r: "?run = Ok (Returned 2, ctx)" ..
  then show ?thesis using parse_options_words [OF r] by (simp add: numeral_eq_Suc)
qed

section \<open>Words that are no options\<close>

lemma keep_loop:
  assumes "view ctx kept (w # ws)" "first_char w \<noteq> CHR ''-''" "ctx_flags ctx = {}"
  shows "\<exists>c. parse_loop stat indent options usages ctx = parse_loop stat indent options usages c
    \<and> view c (kept @ [w]) ws \<and> ctx_flags c = {} \<and> ctx_cells c = ctx_cells ctx \<and> ctx_log c = ctx_log ctx
    \<and> ctx_argc0 c = ctx_argc0 ctx"
proof -
  obtain junk where j: "ctx_args ctx = map Some kept @ junk @ map Some (w # ws) @ [None]"
      "ctx_idx ctx = length kept" "ctx_argc ctx = length (w # ws)"
    using assms(1) by (auto simp: view_def)
  let ?c1 = "ctx\<lparr>ctx_args := (ctx_args ctx)[ctx_idx ctx := ctx_args ctx ! ctx_argv ctx], ctx_idx := ctx_idx ctx + 1\<rparr>"
  let ?c = "?c1\<lparr>ctx_argc := ctx_argc ?c1 - 1, ctx_argv := ctx_argv ?c1 + 1\<rparr>"
  have n: "parse_option_next stat options ctx = Ok (PARSING_DONE, ?c1)"
    using view_arg_at [OF assms(1)] assms(2,3) j by (simp add: parse_option_next_def)
  have "parse_loop stat indent options usages ctx = parse_loop stat indent options usages ?c"
    using n j by (subst parse_loop.simps) simp
  moreover have "view ?c (kept @ [w]) ws"
    using view_keep [OF assms(1), of ?c] j by simp
  ultimately show ?thesis using assms(3) by (intro exI [of _ ?c]) simp
qed

lemma keep_all:
  assumes "view ctx kept (us @ ws)" "\<forall>u\<in>set us. first_char u \<noteq> CHR ''-''" "ctx_flags ctx = {}"
  shows "\<exists>c. parse_loop stat indent options usages ctx = parse_loop stat indent options usages c
    \<and> view c (kept @ us) ws \<and> ctx_flags c = {} \<and> ctx_cells c = ctx_cells ctx \<and> ctx_log c = ctx_log ctx
    \<and> ctx_argc0 c = ctx_argc0 ctx"
  using assms
proof (induction us arbitrary: ctx kept)
  case (Cons u us)
  obtain c1 where c1: "parse_loop stat indent options usages ctx = parse_loop stat indent options usages c1"
      "view c1 (kept @ [u]) (us @ ws)" "ctx_flags c1 = {}" "ctx_cells c1 = ctx_cells ctx" "ctx_log c1 = ctx_log ctx"
      "ctx_argc0 c1 = ctx_argc0 ctx"
    using keep_loop [of ctx kept u "us @ ws" stat indent options usages] Cons.prems by auto
  show ?case using Cons.IH [OF c1(2)] Cons.prems(2) c1 by auto
qed auto

text \<open>
  Without flags, words that do not start with a hyphen are returned as they are, no
  variable is stored to and nothing is printed; a double hyphen is dropped and everything
  behind it is returned unparsed, options included.
\<close>

theorem parse_options_marker:
  assumes "make_cmdmode_list m [] options = Ok els" "\<forall>u\<in>set us. first_char u \<noteq> CHR ''-''"
  shows "\<exists>ctx rest. parse_options stat indent m (length (us @ ''--'' # ws)) (map Some (us @ ''--'' # ws) @ [None])
      pfx options usages {} = Ok (Returned (length (us @ ws)), ctx)
    \<and> ctx_args ctx = map Some (us @ ws) @ None # rest \<and> ctx_cells ctx = m \<and> ctx_log ctx = []"
proof -
  let ?start = "start_context (length (us @ ''--'' # ws)) (map Some (us @ ''--'' # ws) @ [None]) pfx {} els m"
  have v0: "view ?start [] (us @ ''--'' # ws)" by (rule view_start)
  have f0: "ctx_flags ?start = {}" by (simp add: start_context_def)
  obtain c where c: "parse_loop stat indent options usages ?start = parse_loop stat indent options usages c"
      "view c us (''--'' # ws)" "ctx_flags c = {}" "ctx_cells c = m" "ctx_log c = []"
    using keep_all [OF v0 assms(2) f0, of stat indent options usages] by (auto simp: start_context_def)
  have argc: "ctx_argc c = length ws + 1" using c(2) by (auto simp: view_def)
  let ?c = "c\<lparr>ctx_argc := ctx_argc c - 1, ctx_argv := ctx_argv c + 1\<rparr>"
  have "parse_option_next stat options c = Ok (PARSING_COMPLETE, ?c)"
    using view_arg_at [OF c(2)] c(3) by (simp add: parse_option_next_def)
  then have "parse_loop stat indent options usages c = finish_parse ?c"
    using argc by (subst parse_loop.simps) simp
  moreover have "view ?c us ws"
    using view_drop [of c us "[''--'']" ws ?c] c(2) argc by simp
  ultimately show ?thesis
    using view_finish [of ?c us ws] c assms(1) by (auto simp: parse_options_def)
qed

theorem parse_options_marker_witness:
  "\<exists>ctx rest. parse_options (\<lambda>_. None) 23 Map.empty 4 (map Some [''a'', ''--'', ''-x'', ''b''] @ [None])
      ''/'' [mk_OPTION_END] [] {} = Ok (Returned 3, ctx)
    \<and> ctx_args ctx = map Some [''a'', ''-x'', ''b''] @ None # rest \<and> ctx_log ctx = []"
  using parse_options_marker [of Map.empty "[mk_OPTION_END]" "[]" "[''a'']" "\<lambda>_. None" 23 "[''-x'', ''b'']" "''/''" "[]"]
  by (auto simp: mk_OPTION_END_def option_zero_def numeral_eq_Suc)

section \<open>Numbers\<close>

lemma next_arg_optstr: "ctx_optstr ctx = Some s \<Longrightarrow> next_arg ctx = Ok (Some s, ctx\<lparr>ctx_optstr := None\<rparr>)"
  by (simp add: next_arg_def)

lemma log_error_short: "length msg < 4000 \<Longrightarrow> \<exists>c. log_error ctx msg = Ok (ctx\<lparr>ctx_log := ctx_log ctx @ [(To_stderr, c)]\<rparr>)"
  using vreportf_fits [of "''error: ''" msg None]
  by (auto simp: log_error_def error_routine_def detail_text_def REPORT_SIZE_def)

lemma sem_optname_short: "opt_name opt = Some n \<Longrightarrow> \<exists>t. sem_optname opt category = Ok t \<and> length t \<le> 63"
  by (cases category) (simp_all add: sem_optname_def name_of_def)

text \<open>
  An option that takes an unsigned number rejects exactly the arguments that are numbers:
  a valid value is stored and then reported as an error, and an argument that is no number,
  or is out of range, is silently accepted without storing anything.
\<close>

theorem unsigned_option_inverted:
  assumes "opt_type opt = OPTION_INTEGER" "OPTION_UNSIGNED \<in> opt_flags opt" "OPTION_NOARG \<notin> opt_flags opt"
    "opt_name opt = Some n" "ctx_optstr ctx = Some s" "ctx_cells ctx (opt_value opt) = Some (UintCell old)"
  shows "case strtou s of
      Inr v \<Rightarrow> \<exists>msg. get_arg_routine ctx opt LONG_OPTION = Ok (PARSING_ERROR, ctx\<lparr>ctx_optstr := None,
        ctx_cells := (ctx_cells ctx)(opt_value opt \<mapsto> UintCell v), ctx_log := ctx_log ctx @ [(To_stderr, msg)]\<rparr>)
    | Inl e \<Rightarrow> get_arg_routine ctx opt LONG_OPTION = Ok (PARSING_DONE, ctx\<lparr>ctx_optstr := None\<rparr>)"
proof -
  have r: "get_arg_routine ctx opt LONG_OPTION = get_arg_uint ctx opt LONG_OPTION (opt_value opt)"
    using assms by (simp add: get_arg_routine_def get_arg_value_def)
  show ?thesis
  proof (cases "strtou s")
    case (Inl e)
    then show ?thesis using r next_arg_optstr [OF assms(5)] by (simp add: get_arg_uint_def)
  next
    case (Inr v)
    let ?c = "ctx\<lparr>ctx_optstr := None, ctx_cells := (ctx_cells ctx)(opt_value opt \<mapsto> UintCell v)\<rparr>"
    obtain t where t: "sem_optname opt LONG_OPTION = Ok t" "length t \<le> 63"
      using sem_optname_short [OF assms(4)] by blast
    obtain msg where "log_error ?c (t @ '' expects a numerical value'')
        = Ok (?c\<lparr>ctx_log := ctx_log ?c @ [(To_stderr, msg)]\<rparr>)"
      using log_error_short [of "t @ '' expects a numerical value''" ?c] t(2) by auto
    then have "get_arg_uint ctx opt LONG_OPTION (opt_value opt)
        = Ok (PARSING_ERROR, ?c\<lparr>ctx_log := ctx_log ctx @ [(To_stderr, msg)]\<rparr>)"
      using next_arg_optstr [OF assms(5)] Inr t(1) assms(6)
      by (simp add: get_arg_uint_def store_uint_def optname_error_def)
    then show ?thesis using r Inr by auto
  qed
qed

theorem unsigned_option_inverted_witness:
  "let opt = mk_OPTION_UNSIGNED NUL ''page-size'' 1 ''size of a page'';
       ctx = (start_context 1 [Some ''--page-size=8192'', None] ''/'' {} [] [1 \<mapsto> UintCell 4096])\<lparr>ctx_optstr := Some ''8192''\<rparr>
   in \<exists>ctx'. get_arg_routine ctx opt LONG_OPTION = Ok (PARSING_ERROR, ctx')"
proof -
  let ?opt = "mk_OPTION_UNSIGNED NUL ''page-size'' 1 ''size of a page''"
  let ?ctx = "(start_context 1 [Some ''--page-size=8192'', None] ''/'' {} [] [1 \<mapsto> UintCell 4096])\<lparr>ctx_optstr := Some ''8192''\<rparr>"
  have o: "opt_type ?opt = OPTION_INTEGER" "OPTION_UNSIGNED \<in> opt_flags ?opt" "OPTION_NOARG \<notin> opt_flags ?opt"
    "opt_name ?opt = Some ''page-size''" "opt_value ?opt = 1"
    by (simp_all add: mk_OPTION_UNSIGNED_def OPTION_UNSIGNED_F_def option_zero_def)
  have c: "ctx_optstr ?ctx = Some ''8192''" "ctx_cells ?ctx (opt_value ?opt) = Some (UintCell 4096)"
    using o(5) by (simp_all add: start_context_def)
  have "strtou ''8192'' = Inr 8192"
    by (simp add: strtou_def strtoul10_def ctype_simps size_bounds)
  then show ?thesis
    using unsigned_option_inverted [OF o(1-4) c] unfolding Let_def by auto
qed

section \<open>A lone hyphen\<close>

lemma short_option_NUL:
  assumes "\<forall>x\<in>set pre. opt_type x \<noteq> OPTION_END \<and> opt_alias x \<noteq> NUL" "opt_type opt \<noteq> OPTION_END" "opt_alias opt = NUL"
  shows "parse_short_option ctx [] (pre @ opt # post) = Halt (Undef ''read past the end of the argument'')"
  using assms by (induction pre) auto

text \<open>
  A word that is a lone hyphen matches the first entry of the table that has no short
  name, and the parser then reads past the end of the word.
\<close>

theorem lone_hyphen_undefined:
  assumes "view ctx kept (''-'' # ws)" "ctx_flags ctx = {}"
    "\<forall>x\<in>set pre. opt_type x \<noteq> OPTION_END \<and> opt_alias x \<noteq> NUL" "opt_type opt \<noteq> OPTION_END" "opt_alias opt = NUL"
  shows "parse_loop stat indent (pre @ opt # post) usages ctx = Halt (Undef ''read past the end of the argument'')"
proof -
  have argc: "ctx_argc ctx \<noteq> 0" using assms(1) by (auto simp: view_def)
  have "short_loop (pre @ opt # post) True (ctx\<lparr>ctx_optstr := Some []\<rparr>) None
      = Halt (Undef ''read past the end of the argument'')"
    using short_option_NUL [OF assms(3-5)] by (simp add: short_loop.simps)
  then have "parse_option_next stat (pre @ opt # post) ctx = Halt (Undef ''read past the end of the argument'')"
    using view_arg_at [OF assms(1)] assms(2) by (simp add: parse_option_next_def)
  then show ?thesis using argc by (subst parse_loop.simps) simp
qed

theorem lone_hyphen_undefined_witness:
  "parse_loop (\<lambda>_. None) 23 [mk_OPTION_GROUP [], mk_OPTION_END] []
     (start_context 1 (map Some [''-''] @ [None]) ''/'' {} [] Map.empty)
   = Halt (Undef ''read past the end of the argument'')"
  using lone_hyphen_undefined [of "start_context 1 (map Some [''-''] @ [None]) ''/'' {} [] Map.empty" "[]" "[]"
      "[]" "mk_OPTION_GROUP []" "\<lambda>_. None" 23 "[mk_OPTION_END]" "[]"]
    view_start [of "[''-'']" "''/''" "{}" "[]" Map.empty]
  by (simp add: mk_OPTION_GROUP_def option_zero_def start_context_def)

section \<open>Command modes\<close>

lemma make_cmdmode_fresh:
  "make_cmdmode_list m els opts = Ok els' \<Longrightarrow> \<forall>el\<in>set els. cm_opt el = None \<Longrightarrow> \<forall>el\<in>set els'. cm_opt el = None"
  by (induction m els opts rule: make_cmdmode_list.induct) (auto simp: bind_res_eq_Ok split: if_splits)

lemma verify_loop_fresh:
  "\<forall>el\<in>set els. cm_opt el = None \<Longrightarrow> verify_loop m opt category seen els = Ok (iter, els') \<Longrightarrow> cm_opt iter = None"
  by (induction m opt category seen els rule: verify_loop.induct) (auto simp: bind_res_eq_Ok split: if_splits)

text \<open>
  With at least one command mode in the table, checking the modes after an option never
  returns: the list is walked to its last element only, and the option stored in an element
  is read although nothing ever initialised it.
\<close>

theorem cmdmode_undefined:
  assumes "make_cmdmode_list m [] options = Ok (ctx_cmdmode ctx)"
  shows "\<exists>h. verify_cmdmode ctx opt category = Halt h"
proof -
  have "verify_cmdmode ctx opt category \<noteq> Ok y" for y
    using make_cmdmode_fresh [OF assms] verify_loop_fresh [of "ctx_cmdmode ctx"]
    by (auto simp: verify_cmdmode_def bind_res_eq_Ok split: option.splits)
  then show ?thesis by (cases "verify_cmdmode ctx opt category") auto
qed

theorem cmdmode_undefined_witness:
  "let ctx = start_context 1 [Some ''-a'', None] ''/'' {} [\<lparr>cm_val = 0, cm_valptr = 1, cm_opt = None\<rparr>] [1 \<mapsto> IntCell 0]
   in \<exists>h. verify_cmdmode ctx (mk_OPTION_CMDMODE (CHR ''a'') ''all'' 1 ''all'' 1) SHORT_OPTION = Halt h"
  unfolding Let_def
  by (rule cmdmode_undefined [of "[1 \<mapsto> IntCell 0]" "[mk_OPTION_CMDMODE (CHR ''a'') ''all'' 1 ''all'' 1, mk_OPTION_END]"])
     (simp add: mk_OPTION_CMDMODE_def OPTION_CMDMODE_F_def mk_OPTION_END_def option_zero_def load_int_def start_context_def)

section \<open>Long names\<close>

text \<open>
  Reference: the verdicts over all options before the end of the table.  The first exact
  match wins; otherwise a single abbreviation is taken, two or more are ambiguous.
\<close>

datatype resolution = Take opt option_category "string option" | Ambiguous "opt \<times> option_category" "opt \<times> option_category"
  | Unknown

fun resolve :: "(opt \<times> long_match) list \<Rightarrow> (opt \<times> option_category) list \<Rightarrow> resolution" where
  "resolve [] seen =
     (case seen of [] \<Rightarrow> Unknown | [(opt, c)] \<Rightarrow> Take opt c None | b # a # _ \<Rightarrow> Ambiguous a b)"
| "resolve ((opt, v) # vs) seen =
     (case v of No_match \<Rightarrow> resolve vs seen
      | Abbreviated _ c \<Rightarrow> resolve vs ((opt, c) # seen)
      | Exact c rest \<Rightarrow> Take opt c rest)"

fun verdicts :: "string \<Rightarrow> opt list \<Rightarrow> (opt \<times> long_match) list res" where
  "verdicts argstr [] = Halt (Undef ''read past the option table'')"
| "verdicts argstr (opt # opts) =
     (if opt_type opt = OPTION_END then Ok []
      else bind_res (match_long argstr opt) (\<lambda>v. bind_res (verdicts argstr opts) (\<lambda>vs. Ok ((opt, v) # vs))))"

text \<open>What is done with the resolution, for a word without an equals sign.\<close>

definition act ::
    "parser_context \<Rightarrow> string \<Rightarrow> resolution \<Rightarrow> (parse_result \<times> opt option \<times> parser_context) res" where
  "act ctx argstr r =
     (case r of
        Take opt c rest \<Rightarrow> bind_res (get_arg ctx opt c) (\<lambda>(r, ctx). Ok (r, Some opt, ctx))
      | Ambiguous a b \<Rightarrow> bind_res (ambiguous_error ctx argstr a b) (\<lambda>ctx. Ok (PARSING_HELP, None, ctx))
      | Unknown \<Rightarrow> Ok (PARSING_UNKNOWN, None, ctx\<lparr>ctx_optstr := Some argstr\<rparr>))"

lemma chrnul_none: "cstring s \<Longrightarrow> c \<notin> set s \<Longrightarrow> pk_strchrnul s c = []"
  by (induction s) auto

lemma chrnul_append: "cstring n \<Longrightarrow> c \<notin> set n \<Longrightarrow> c \<noteq> NUL \<Longrightarrow> pk_strchrnul (n @ c # v) c = c # v"
  by (induction n) auto

lemma argstr_end_none: "cstring s \<Longrightarrow> CHR ''='' \<notin> set s \<Longrightarrow> argstr_end s = length s"
  by (simp add: argstr_end_def chrnul_none)

lemma accept_rest_plain: "CHR ''='' \<notin> set rest \<Longrightarrow> accept_rest c rest \<in> {No_match, Exact c None}"
  by (cases rest) (auto simp: accept_rest_def)

lemma skip_prefix_set: "skip_prefix s p = Some r \<Longrightarrow> set r \<subseteq> set s"
  by (auto simp: skip_prefix_iff)

lemma match_long_plain:
  assumes "match_long argstr opt = Ok (Exact c rest)" "CHR ''='' \<notin> set argstr"
  shows "rest = None"
proof -
  have "CHR ''='' \<notin> set r" if "skip_prefix argstr p = Some r \<or> skip_prefix (drop 3 argstr) p = Some r" for p r
    using that assms(2) by (auto dest!: skip_prefix_set dest: in_set_dropD)
  then have "accept_rest d r \<noteq> Exact c (Some v)"
    if "skip_prefix argstr p = Some r \<or> skip_prefix (drop 3 argstr) p = Some r" for p r d v
    using that accept_rest_plain [of r d] by auto
  then show ?thesis
    using assms(1) by (cases rest)
      (auto simp: match_long_def bind_res_eq_Ok Let_def split: if_splits option.splits)
qed

definition slots :: "(opt \<times> option_category) list \<Rightarrow> (opt \<times> option_category) option \<times> (opt \<times> option_category) option" where
  "slots seen = (case seen of [] \<Rightarrow> (None, None) | [b] \<Rightarrow> (Some b, None) | b # a # _ \<Rightarrow> (Some b, Some a))"

lemma slots_Cons: "slots (x # seen) = (Some x, if fst (slots seen) \<noteq> None then fst (slots seen) else snd (slots seen))"
  by (auto simp: slots_def split: list.splits)

lemma parse_long_loop_resolves:
  assumes "cstring argstr" "CHR ''='' \<notin> set argstr" "verdicts argstr opts = Ok vs"
  shows "parse_long_loop ctx argstr opts (fst (slots seen)) (snd (slots seen)) = act ctx argstr (resolve vs seen)"
  using assms(3)
proof (induction opts arbitrary: seen vs)
  case (Cons opt opts)
  show ?case
  proof (cases "opt_type opt = OPTION_END")
    case True
    then show ?thesis using Cons.prems
      by (cases seen; cases "tl seen") (auto simp: slots_def act_def split: prod.splits list.splits)
  next
    case False
    then obtain v vs' where v: "match_long argstr opt = Ok v" "verdicts argstr opts = Ok vs'" "vs = (opt, v) # vs'"
      using Cons.prems by (auto simp: bind_res_eq_Ok)
    have e: "\<not> argstr_end argstr < length argstr" using argstr_end_none [OF assms(1,2)] by simp
    show ?thesis
    proof (cases v)
      case No_match
      then show ?thesis using Cons.IH [OF v(2)] False v by simp
    next
      case (Abbreviated d c)
      then show ?thesis
        using Cons.IH [OF v(2), of "(opt, c) # seen"] False v e by (simp add: slots_Cons)
    next
      case (Exact c rest)
      then have "rest = None" using match_long_plain [of argstr opt c rest] v(1) assms(2) by simp
      then show ?thesis using False v Exact by (simp add: act_def)
    qed
  qed
qed simp

lemma match_exact:
  assumes "opt_name opt = Some n" "opt_type opt \<noteq> OPTION_GROUP" "OPTION_NOEMDASH \<notin> opt_flags opt"
  shows "match_long n opt = Ok (Exact LONG_OPTION None)"
    and "match_long (n @ CHR ''='' # v) opt = Ok (Exact LONG_OPTION (Some v))"
proof -
  have neg: "\<not> starts_with (n @ t) ''no-'' \<Longrightarrow> skip_prefix n ''no-'' = None" for t
    using skip_prefix_None [of n "''no-''"] by (auto simp: starts_with_iff)
  show "match_long n opt = Ok (Exact LONG_OPTION None)"
    using assms neg [of "[]"] skip_prefix_append [of n "[]"]
    by (auto simp: match_long_def name_of_def Let_def accept_rest_def category_xor_def split: option.splits)
  show "match_long (n @ CHR ''='' # v) opt = Ok (Exact LONG_OPTION (Some v))"
    using assms neg [of "CHR ''='' # v"]
    by (auto simp: match_long_def name_of_def Let_def accept_rest_def category_xor_def split: option.splits)
qed



lemma parse_long_loop_spelled:
  assumes "match_long argstr opt = Ok (Exact LONG_OPTION (Some v))" "opt_type opt \<noteq> OPTION_END"
    "\<forall>x\<in>set pre. opt_type x \<noteq> OPTION_END \<and> (match_long argstr x = Ok No_match \<or> (\<exists>c d. match_long argstr x = Ok (Abbreviated c d)))"
  shows "parse_long_loop (ctx\<lparr>ctx_optstr := x\<rparr>) argstr (pre @ opt # post) abb amb
    = bind_res (get_arg (ctx\<lparr>ctx_optstr := Some v\<rparr>) opt LONG_OPTION) (\<lambda>(r, ctx). Ok (r, Some opt, ctx))"
  using assms(3)
proof (induction pre arbitrary: x abb amb)
  case Nil
  then show ?case using assms(1,2) by simp
next
  case (Cons y pre)
  then show ?case by auto
qed

text \<open>
  A long option spelled out in full is taken whatever else the table holds before it,
  as long as no earlier entry matches in full, and the text after an equals sign becomes its
  argument.
\<close>

theorem long_option_spelled_out:
  assumes "opt_name opt = Some n" "opt_type opt \<notin> {OPTION_GROUP, OPTION_END}" "OPTION_NOEMDASH \<notin> opt_flags opt"
    "\<forall>x\<in>set pre. opt_type x \<noteq> OPTION_END
      \<and> (match_long (n @ ''='' @ v) x = Ok No_match \<or> (\<exists>c d. match_long (n @ ''='' @ v) x = Ok (Abbreviated c d)))"
  shows "parse_long_option ctx (n @ ''='' @ v) (pre @ opt # post)
    = bind_res (get_arg (ctx\<lparr>ctx_optstr := Some v\<rparr>) opt LONG_OPTION) (\<lambda>(r, ctx). Ok (r, Some opt, ctx))"
proof -
  have "match_long (n @ ''='' @ v) opt = Ok (Exact LONG_OPTION (Some v))"
    using match_exact(2) assms(1-3) by simp
  from parse_long_loop_spelled [OF this _ assms(4), where ctx = ctx and x = "ctx_optstr ctx" and post = post
      and abb = None and amb = None] assms(2)
  show ?thesis by (simp add: parse_long_option_def)
qed

theorem long_option_spelled_out_witness:
  "let opt = mk_OPTION_STRING NUL ''sitename'' 1 ''name'';
       ctx = start_context 1 (map Some [''--sitename=x''] @ [None]) ''/'' {} [] [1 \<mapsto> StrCell NullPtr]
   in parse_long_option ctx ''sitename=x'' [mk_OPTION_GROUP [], opt, mk_OPTION_END]
        = Ok (PARSING_DONE, Some opt, ctx\<lparr>ctx_cells := [1 \<mapsto> StrCell (StrPtr ''x'')]\<rparr>)"
proof -
  let ?o = "mk_OPTION_STRING NUL ''sitename'' 1 ''name''"
  have f: "opt_name ?o = Some ''sitename''" "opt_type ?o = OPTION_STRING" "opt_flags ?o = {}" "opt_value ?o = 1"
    by (simp_all add: mk_OPTION_STRING_def OPTION_STRING_F_def option_zero_def)
  have g: "opt_type (mk_OPTION_GROUP []) = OPTION_GROUP"
    by (simp add: mk_OPTION_GROUP_def option_zero_def)
  show ?thesis
    using long_option_spelled_out [of ?o "''sitename''" "[mk_OPTION_GROUP []]" "''x''"
        "start_context 1 (map Some [''--sitename=x''] @ [None]) ''/'' {} [] [1 \<mapsto> StrCell NullPtr]" "[mk_OPTION_END]"]
      f g by (simp add: match_long_def get_arg_def get_arg_routine_def get_arg_value_def get_arg_str_def next_arg_def
        start_context_def store_str_def)
qed

section \<open>The usage text\<close>

text \<open>A table whose usage text can be printed: it ends, groups have a text, and no name is negative.\<close>

definition printable :: "opt \<Rightarrow> bool" where
  "printable opt \<longleftrightarrow> opt_type opt \<noteq> OPTION_END \<and> negpos_name opt = None
     \<and> (opt_type opt = OPTION_GROUP \<and> OPTION_HIDDEN \<notin> opt_flags opt \<longrightarrow> opt_help opt \<noteq> None)"

definition option_text :: "nat \<Rightarrow> opt \<Rightarrow> string" where
  "option_text indent opt =
     (if opt_type opt = OPTION_GROUP
      then NL # (case opt_help opt of Some (c # h) \<Rightarrow> (c # h) @ [NL] | _ \<Rightarrow> [])
      else option_head opt @ print_help indent (case opt_help opt of None \<Rightarrow> [] | Some h \<Rightarrow> h)
             (length (option_head opt)) @ [NL])"

definition visible :: "opt list \<Rightarrow> opt list" where
  "visible opts = filter (\<lambda>opt. OPTION_HIDDEN \<notin> opt_flags opt) opts"

lemma option_lines_text:
  assumes "\<forall>opt\<in>set opts. printable opt" "opt_type e = OPTION_END"
  shows "option_lines indent all need_newline (opts @ e # post)
    = Ok ((if need_newline \<and> visible opts \<noteq> [] \<and> opt_type (hd (visible opts)) \<noteq> OPTION_GROUP then [NL] else [])
          @ concat (map (option_text indent) (visible opts)))"
  using assms(1)
proof (induction opts arbitrary: need_newline)
  case (Cons opt opts)
  then have p: "opt_type opt \<noteq> OPTION_END" "negpos_name opt = None"
    by (simp_all add: printable_def)
  show ?case
  proof (cases "OPTION_HIDDEN \<in> opt_flags opt")
    case True
    then show ?thesis using Cons p by (simp add: visible_def)
  next
    case False
    then have v: "visible (opt # opts) = opt # visible opts" by (simp add: visible_def)
    show ?thesis
    proof (cases "opt_type opt = OPTION_GROUP")
      case True
      then obtain h where "opt_help opt = Some h" using Cons.prems False by (auto simp: printable_def)
      then show ?thesis using Cons False p v True by (cases h) (simp_all add: option_text_def)
    next
      case g: False
      then show ?thesis using Cons False p v by (simp add: option_text_def Let_def)
    qed
  qed
qed (simp add: visible_def assms(2))

fun usage_text :: "string \<Rightarrow> string list \<Rightarrow> string" where
  "usage_text next_prefix [] = []"
| "usage_text next_prefix (u # us) = number_lines next_prefix 0 (split_on NL u) @ usage_text ''   or: '' us"

lemma usage_lines_text:
  assumes "strlist_rep sl []" "dupstr sl" "\<forall>u\<in>set us. Suc (length u) \<le> SAFE_SIZE"
  shows "usage_lines sl next_prefix us = Ok (usage_text next_prefix us)"
  using assms
proof (induction us arbitrary: sl next_prefix)
  case Nil
  then show ?case using strlist_destroy_rep [OF Nil(1), of False] by auto
next
  case (Cons u us)
  obtain sl1 where s: "strlist_split sl u NL (-1) = Ok (length (split_on NL u), sl1)"
      "strlist_rep sl1 (map plain (split_on NL u))" "dupstr sl1"
    using strlist_split_fields [OF Cons.prems(2,1), of NL u] Cons.prems(3) by auto
  obtain fr sl2 where t: "strlist_trunc sl1 False = Ok (fr, sl2)" "strlist_rep sl2 []" "dupstr sl2"
    using strlist_trunc_rep [OF s(2), of False] s(3) by auto
  show ?case
    using s t live_elems_rep [OF s(2)] Cons.IH [OF t(2,3), of "''   or: ''"] Cons.prems(3)
    by (simp add: comp_def)
qed

text \<open>
  For a table without negative names whose groups have a text, the usage text is always
  printed, to the stream asked for: the usage strings with their continuation lines
  indented, then every entry that is not hidden, in order, after one empty line.
\<close>

theorem usage_printed:
  assumes "\<forall>opt\<in>set opts. printable opt" "opt_type e = OPTION_END" "\<forall>u\<in>set us. Suc (length u) \<le> SAFE_SIZE"
  shows "usage_with_options indent us (opts @ e # post) is_error
    = Ok (if is_error then To_stderr else To_stdout,
          usage_text ''usage: '' us
          @ (if visible opts \<noteq> [] \<and> opt_type (hd (visible opts)) \<noteq> OPTION_GROUP then [NL] else [])
          @ concat (map (option_text indent) (visible opts)) @ [NL])"
  using usage_lines_text [OF strlist_rep_INIT(1) _ assms(3), of "''usage: ''"]
    option_lines_text [OF assms(1,2), of indent "opts @ e # post" True post]
  by (simp add: usage_with_options_def STRLIST_INIT_DUPSTR_def)

theorem usage_printed_witness:
  "usage_with_options 10 [''pk x''] [mk_OPTION_COUNTUP (CHR ''f'') ''all'' 1 ''do it'', mk_OPTION_END] False
     = Ok (To_stdout, ''usage: pk x'' @ [NL, NL] @ ''    -f, --all'' @ [NL] @ ''          do it'' @ [NL, NL])"
proof -
  define q where "q = mk_OPTION_COUNTUP (CHR ''f'') ''all'' 1 ''do it''"
  have o1: "opt_type q = OPTION_COUNTUP" "opt_name q = Some ''all''" "opt_alias q = CHR ''f''"
      "opt_help q = Some ''do it''" "opt_flags q = {OPTION_NOARG}"
    by (simp_all add: q_def mk_OPTION_COUNTUP_def OPTION_COUNTUP_F_def option_zero_def)
  have p: "\<forall>opt\<in>set [q]. printable opt" using o1 by (simp add: printable_def negpos_name_def)
  have e: "opt_type mk_OPTION_END = OPTION_END" by (simp add: mk_OPTION_END_def option_zero_def)
  have u: "\<forall>u\<in>set [''pk x'']. Suc (length u) \<le> SAFE_SIZE" by (simp add: size_bounds)
  have h: "option_head q = ''    -f, --all''" using o1 by (simp add: option_head_def)
  have t: "option_text 10 q = ''    -f, --all'' @ [NL] @ ''          do it'' @ [NL]"
    using o1 by (simp add: option_text_def h print_help.simps pad_usage_def spaces_def numeral_eq_Suc)
  show ?thesis
    using usage_printed [OF p e u, of 10 "[]" False] o1 t unfolding q_def [symmetric] by (simp add: visible_def)
qed

lemma option_lines_negative:
  assumes "\<forall>x\<in>set pre. printable x" "opt_type g \<noteq> OPTION_END" "opt_name g = None"
    "opt_type opt \<notin> {OPTION_END, OPTION_GROUP}" "OPTION_HIDDEN \<notin> opt_flags opt" "negpos_name opt = Some n"
  shows "option_lines indent (g # all) nn (pre @ opt # post) = Halt (Undef ''NULL option name'')"
  using assms(1)
proof (induction pre arbitrary: nn)
  case Nil
  have "seek_name n (g # all) = Halt (Undef ''NULL option name'')"
    using assms(2,3) by (simp add: name_of_def)
  then show ?case using assms(4-6) by (simp add: Let_def)
next
  case (Cons x pre)
  then have "opt_type x \<noteq> OPTION_END" "negpos_name x = None" by (simp_all add: printable_def)
  moreover have "opt_type x = OPTION_GROUP \<Longrightarrow> OPTION_HIDDEN \<notin> opt_flags x \<Longrightarrow> opt_help x \<noteq> None"
    using Cons.prems by (simp add: printable_def)
  ultimately show ?case using Cons by (auto simp: Let_def)
qed

text \<open>
  When an entry with a negative name is printed and the first entry of the table has no
  name, such as a group, the search for the positive name compares with a NULL pointer.
\<close>

theorem usage_negative_undefined:
  assumes "\<forall>opt\<in>set (g # pre). printable opt" "opt_name g = None"
    "opt_type opt \<notin> {OPTION_END, OPTION_GROUP}" "OPTION_HIDDEN \<notin> opt_flags opt" "negpos_name opt = Some n"
    "\<forall>u\<in>set us. Suc (length u) \<le> SAFE_SIZE"
  shows "usage_with_options indent us (g # pre @ opt # post) is_error = Halt (Undef ''NULL option name'')"
proof -
  have "opt_type g \<noteq> OPTION_END" using assms(1) by (simp add: printable_def)
  then have "option_lines indent (g # pre @ opt # post) True ((g # pre) @ opt # post) = Halt (Undef ''NULL option name'')"
    using option_lines_negative [OF assms(1) _ assms(2-5)] by simp
  then show ?thesis
    using usage_lines_text [OF strlist_rep_INIT(1) _ assms(6), of "''usage: ''"]
    by (simp add: usage_with_options_def STRLIST_INIT_DUPSTR_def)
qed

theorem usage_negative_undefined_witness:
  "usage_with_options 10 [] [mk_OPTION_GROUP [], mk_OPTION_SWITCH NUL ''no-echo'' 1 ''quiet'', mk_OPTION_END] False
     = Halt (Undef ''NULL option name'')"
  using usage_negative_undefined [of "mk_OPTION_GROUP []" "[]" "mk_OPTION_SWITCH NUL ''no-echo'' 1 ''quiet''" "''echo''"
      "[]" 10 "[mk_OPTION_END]" False]
  by (simp add: mk_OPTION_GROUP_def mk_OPTION_SWITCH_def OPTION_SWITCH_F_def option_zero_def printable_def negpos_name_def)

end
