(* ===== verification/Option_Types.thy ===== *)
theory Option_Types
  imports Parse_Option
begin

text \<open>
  Type safety of the option parser's stores: whatever the arguments are, parse_options
  leaves every variable with the C type it had and changes only variables that an entry of
  the option table points to.
\<close>

datatype ctype = C_int | C_unsigned | C_bool | C_string

fun ctype_of :: "cell \<Rightarrow> ctype" where
  "ctype_of (IntCell _) = C_int"
| "ctype_of (UintCell _) = C_unsigned"
| "ctype_of (BoolCell _) = C_bool"
| "ctype_of (StrCell _) = C_string"

definition types_of :: "cells \<Rightarrow> addr \<Rightarrow> ctype option" where
  "types_of m a = map_option ctype_of (m a)"

definition changes_only :: "addr set \<Rightarrow> cells \<Rightarrow> cells \<Rightarrow> bool" where
  "changes_only A m m' \<longleftrightarrow> types_of m' = types_of m \<and> (\<forall>a. a \<notin> A \<longrightarrow> m' a = m a)"

lemma changes_refl [simp]: "changes_only A m m"
  by (simp add: changes_only_def)

lemma changes_trans [trans]: "changes_only A m m' \<Longrightarrow> changes_only A m' m'' \<Longrightarrow> changes_only A m m''"
  by (simp add: changes_only_def)

lemma changes_mono: "changes_only A m m' \<Longrightarrow> A \<subseteq> B \<Longrightarrow> changes_only B m m'"
  by (auto simp: changes_only_def)

lemma changes_update: "m a = Some c \<Longrightarrow> ctype_of c' = ctype_of c \<Longrightarrow> changes_only {a} m (m(a \<mapsto> c'))"
  by (auto simp: changes_only_def types_of_def fun_eq_iff)

lemma store_changes:
  "store_int m a i = Ok m' \<Longrightarrow> changes_only {a} m m'"
  "store_uint m a u = Ok m' \<Longrightarrow> changes_only {a} m m'"
  "store_str m a p = Ok m' \<Longrightarrow> changes_only {a} m m'"
  by (auto simp: store_int_def store_uint_def store_str_def intro!: changes_update
      split: option.splits cell.splits)

lemma log_error_cells: "log_error ctx msg = Ok ctx' \<Longrightarrow> ctx_cells ctx' = ctx_cells ctx"
  by (auto simp: log_error_def bind_res_eq_Ok)

lemma optname_error_cells: "optname_error ctx opt c t = Ok (r, ctx') \<Longrightarrow> ctx_cells ctx' = ctx_cells ctx"
  by (auto simp: optname_error_def bind_res_eq_Ok dest: log_error_cells)

lemma next_arg_cells: "next_arg ctx = Ok (s, ctx') \<Longrightarrow> ctx_cells ctx' = ctx_cells ctx"
  by (auto simp: next_arg_def bind_res_eq_Ok split: option.splits if_splits)

lemma get_arg_str_changes:
  assumes "get_arg_str ctx opt c a = Ok (r, ctx')"
  shows "changes_only {a} (ctx_cells ctx) (ctx_cells ctx')"
proof -
  obtain arg ctx1 where 1: "next_arg ctx = Ok (arg, ctx1)"
    using assms by (auto simp: get_arg_str_def bind_res_eq_Ok)
  show ?thesis
    using assms 1 next_arg_cells [OF 1]
    by (cases arg) (auto simp: get_arg_str_def bind_res_eq_Ok dest: optname_error_cells store_changes)
qed

lemma get_arg_uint_changes:
  assumes "get_arg_uint ctx opt c a = Ok (r, ctx')"
  shows "changes_only {a} (ctx_cells ctx) (ctx_cells ctx')"
proof -
  obtain arg ctx1 where 1: "next_arg ctx = Ok (arg, ctx1)"
    using assms by (auto simp: get_arg_uint_def bind_res_eq_Ok)
  show ?thesis
  proof (cases arg)
    case None
    then show ?thesis
      using assms 1 next_arg_cells [OF 1] by (auto simp: get_arg_uint_def dest: optname_error_cells)
  next
    case (Some s)
    then show ?thesis
      using assms 1 next_arg_cells [OF 1]
      by (cases "strtou s") (auto simp: get_arg_uint_def bind_res_eq_Ok dest!: optname_error_cells dest: store_changes)
  qed
qed

lemma get_arg_value_changes:
  assumes "get_arg_value ctx opt c = Ok (r, ctx')"
  shows "changes_only {opt_value opt} (ctx_cells ctx) (ctx_cells ctx')"
proof (cases "opt_type opt")
  case OPTION_FILENAME
  then obtain r1 ctx1 where 1: "get_arg_str ctx opt c (opt_value opt) = Ok (r1, ctx1)"
      and 2: "ctx' = ctx1 \<or> (\<exists>m p. ctx' = ctx1\<lparr>ctx_cells := m\<rparr> \<and> store_str (ctx_cells ctx1) (opt_value opt) p = Ok m)"
    using assms by (auto simp: get_arg_value_def bind_res_eq_Ok split: if_splits)
  have "changes_only {opt_value opt} (ctx_cells ctx1) (ctx_cells ctx')"
    using 2 store_changes(3) by auto
  then show ?thesis using get_arg_str_changes [OF 1] changes_trans by blast
qed (use assms in \<open>auto simp: get_arg_value_def bind_res_eq_Ok split: if_splits
    dest: store_changes get_arg_uint_changes get_arg_str_changes\<close>)

lemma verify_cmdmode_cells: "verify_cmdmode ctx opt c = Ok (r, ctx') \<Longrightarrow> ctx_cells ctx' = ctx_cells ctx"
  by (auto simp: verify_cmdmode_def bind_res_eq_Ok split: option.splits dest!: log_error_cells)

lemma get_arg_changes:
  assumes "get_arg ctx opt c = Ok (r, ctx')"
  shows "changes_only {opt_value opt} (ctx_cells ctx) (ctx_cells ctx')"
proof -
  obtain r1 ctx1 where 1: "get_arg_routine ctx opt c = Ok (r1, ctx1)"
    using assms by (auto simp: get_arg_def bind_res_eq_Ok)
  have "ctx_cells ctx' = ctx_cells ctx1"
    using assms 1 by (auto simp: get_arg_def bind_res_eq_Ok split: if_splits dest: verify_cmdmode_cells)
  then show ?thesis
    using 1 by (auto simp: get_arg_routine_def Let_def split: if_splits
        dest: optname_error_cells get_arg_value_changes)
qed

definition option_vars :: "opt list \<Rightarrow> addr set" where
  "option_vars opts = opt_value ` set opts"

lemma get_arg_changes_table:
  "get_arg ctx opt c = Ok (r, ctx') \<Longrightarrow> opt_value opt \<in> A \<Longrightarrow> changes_only A (ctx_cells ctx) (ctx_cells ctx')"
  using changes_mono [OF get_arg_changes] by blast

lemma parse_short_option_changes:
  "parse_short_option ctx optstr opts = Ok (r, parsed, ctx') \<Longrightarrow> option_vars opts \<subseteq> A
   \<Longrightarrow> changes_only A (ctx_cells ctx) (ctx_cells ctx')"
  by (induction opts) (auto simp: bind_res_eq_Ok option_vars_def split: if_splits dest: get_arg_changes_table)

lemma parse_long_loop_changes:
  "parse_long_loop ctx argstr opts abbrev ambiguous = Ok (r, parsed, ctx')
   \<Longrightarrow> option_vars opts \<subseteq> A \<Longrightarrow> (\<And>o1 c1. abbrev = Some (o1, c1) \<Longrightarrow> opt_value o1 \<in> A)
   \<Longrightarrow> changes_only A (ctx_cells ctx) (ctx_cells ctx')"
proof (induction ctx argstr opts abbrev ambiguous rule: parse_long_loop.induct)
  case (2 ctx argstr opt opts abbrev ambiguous)
  have A: "opt_value opt \<in> A" "option_vars opts \<subseteq> A" using "2.prems"(2) by (auto simp: option_vars_def)
  show ?case
  proof (cases "opt_type opt = OPTION_END")
    case True
    then show ?thesis
      using "2.prems" by (auto simp: bind_res_eq_Ok ambiguous_error_def split: option.splits
          dest!: log_error_cells dest: get_arg_changes_table)
  next
    case False
    then obtain verdict where v: "match_long argstr opt = Ok verdict"
      using "2.prems" by (auto simp: bind_res_eq_Ok)
    show ?thesis
    proof (cases verdict)
      case No_match
      then show ?thesis using 2 False v A by simp
    next
      case (Abbreviated c d)
      then show ?thesis
        using "2.IH"(2) [OF False v Abbreviated] "2.prems" False v A by (auto split: if_splits)
    next
      case (Exact d rest)
      then obtain r' where "get_arg (case rest of None \<Rightarrow> ctx | Some v \<Rightarrow> ctx\<lparr>ctx_optstr := Some v\<rparr>) opt d = Ok (r', ctx')"
        using "2.prems" False v by (auto simp: bind_res_eq_Ok)
      then show ?thesis using get_arg_changes_table A by (cases rest) fastforce+
    qed
  qed
qed simp

lemma short_loop_changes:
  "short_loop options h ctx parsed = Ok (r, p', ctx') \<Longrightarrow> changes_only (option_vars options) (ctx_cells ctx) (ctx_cells ctx')"
proof (induction options h ctx parsed rule: short_loop.induct)
  case (1 options h ctx parsed)
  show ?case
  proof (cases "ctx_optstr ctx")
    case None
    then show ?thesis using "1.prems" by (simp add: short_loop.simps)
  next
    case (Some optstr)
    then obtain rc p1 ctx1 where p: "parse_short_option ctx optstr options = Ok (rc, p1, ctx1)"
      using "1.prems" by (subst (asm) short_loop.simps) (auto simp: bind_res_eq_Ok)
    then have s: "changes_only (option_vars options) (ctx_cells ctx) (ctx_cells ctx1)"
      using parse_short_option_changes by blast
    show ?thesis
    proof (cases "rc = PARSING_DONE")
      case True
      then have "short_loop options h ctx1 p1 = Ok (r, p', ctx')"
        using "1.prems" p Some by (subst (asm) short_loop.simps) simp
      then show ?thesis using "1.IH" [OF Some p refl refl True] s changes_trans by blast
    next
      case False
      then have "ctx' = ctx1"
        using "1.prems" p Some by (subst (asm) short_loop.simps) (auto split: if_splits)
      then show ?thesis using s by simp
    qed
  qed
qed

lemma validate_cells: "validate_parsed_value stat ctx opt = Ok (r, ctx') \<Longrightarrow> ctx_cells ctx' = ctx_cells ctx"
  by (auto simp: validate_parsed_value_def bind_res_eq_Ok split: if_splits option.splits dest: log_error_cells)

lemma parse_option_next_changes:
  assumes "parse_option_next stat options ctx = Ok (r, ctx')"
  shows "changes_only (option_vars options) (ctx_cells ctx) (ctx_cells ctx')"
proof -
  obtain argstr where a: "arg_at ctx (ctx_argv ctx) = Ok argstr"
    using assms by (auto simp: parse_option_next_def bind_res_eq_Ok)
  consider (same) "ctx_cells ctx' = ctx_cells ctx"
    | (short) r1 p1 c1 where
        "short_loop options (PARSER_NO_SHORT_HELP \<notin> ctx_flags ctx) (ctx\<lparr>ctx_optstr := Some (tl argstr)\<rparr>) None = Ok (r1, p1, c1)"
        "ctx' = c1 \<or> (\<exists>opt. validate_parsed_value stat c1 opt = Ok (r, ctx'))"
    | (long) r1 p1 c1 where
        "parse_long_option ctx (drop 2 argstr) options = Ok (r1, p1, c1)"
        "ctx' = c1 \<or> (\<exists>opt. validate_parsed_value stat c1 opt = Ok (r, ctx'))"
    using assms a unfolding parse_option_next_def
    by (simp add: Let_def split: if_split_asm) (auto simp: bind_res_eq_Ok split: if_split_asm option.splits)
  then show ?thesis
  proof cases
    case short
    then have "ctx_cells ctx' = ctx_cells c1" using validate_cells by blast
    then show ?thesis using short_loop_changes [OF short(1)] by simp
  next
    case long
    then have "ctx_cells ctx' = ctx_cells c1" using validate_cells by blast
    then show ?thesis using long(1) parse_long_loop_changes by (fastforce simp: parse_long_option_def)
  qed simp
qed

lemma finish_parse_cells: "finish_parse ctx = Ok (e, ctx') \<Longrightarrow> ctx_cells ctx' = ctx_cells ctx"
  by (auto simp: finish_parse_def clean_cmdmode_list_def Let_def split: if_splits)

lemma unknown_option_cells: "unknown_option indent usages options ctx = Ok (e, ctx') \<Longrightarrow> ctx_cells ctx' = ctx_cells ctx"
  by (auto simp: unknown_option_def print_usage_def bind_res_eq_Ok dest!: log_error_cells split: if_splits option.splits)

lemma parse_loop_changes:
  "parse_loop stat indent options usages ctx = Ok (e, ctx')
   \<Longrightarrow> changes_only (option_vars options) (ctx_cells ctx) (ctx_cells ctx')"
proof (induction stat indent options usages ctx rule: parse_loop.induct)
  case (1 stat indent options usages ctx)
  show ?case
  proof (cases "ctx_argc ctx = 0")
    case True
    then show ?thesis
      using "1.prems" by (subst (asm) parse_loop.simps) (auto dest: finish_parse_cells)
  next
    case False
    then obtain r c1 where n: "parse_option_next stat options ctx = Ok (r, c1)"
      using "1.prems" by (subst (asm) parse_loop.simps) (auto simp: bind_res_eq_Ok)
    have "changes_only (option_vars options) (ctx_cells c1) (ctx_cells ctx')"
    proof (cases "r = PARSING_DONE")
      case True
      then have "parse_loop stat indent options usages (c1\<lparr>ctx_argc := ctx_argc c1 - 1, ctx_argv := ctx_argv c1 + 1\<rparr>) = Ok (e, ctx')"
        using "1.prems" False n by (subst (asm) parse_loop.simps) simp
      then show ?thesis using "1.IH" [OF False n refl True] by simp
    next
      case nd: False
      then have "ctx_cells ctx' = ctx_cells c1"
        using "1.prems" False n
        by (subst (asm) parse_loop.simps) (auto simp: bind_res_eq_Ok print_usage_def split: if_splits
            dest: finish_parse_cells unknown_option_cells log_error_cells)
      then show ?thesis by simp
    qed
    then show ?thesis using parse_option_next_changes [OF n] changes_trans by blast
  qed
qed



section \<open>Unsigned variables\<close>

text \<open>\<open>keeps_uints m m'\<close>: no unsigned variable has changed.\<close>

definition keeps_uints :: "cells \<Rightarrow> cells \<Rightarrow> bool" where
  "keeps_uints m m' \<longleftrightarrow> types_of m' = types_of m \<and> (\<forall>a u. m a = Some (UintCell u) \<longrightarrow> m' a = m a)"

lemma keeps_refl [simp]: "keeps_uints m m"
  by (simp add: keeps_uints_def)

lemma keeps_trans [trans]: "keeps_uints m m' \<Longrightarrow> keeps_uints m' m'' \<Longrightarrow> keeps_uints m m''"
  by (simp add: keeps_uints_def)

lemma keeps_update:
  "m a = Some c \<Longrightarrow> ctype_of c' = ctype_of c \<Longrightarrow> ctype_of c \<noteq> C_unsigned \<Longrightarrow> keeps_uints m (m(a \<mapsto> c'))"
  by (auto simp: keeps_uints_def types_of_def fun_eq_iff)

lemma store_keeps:
  "store_int m a i = Ok m' \<Longrightarrow> keeps_uints m m'"
  "store_str m a p = Ok m' \<Longrightarrow> keeps_uints m m'"
  by (auto simp: store_int_def store_str_def intro!: keeps_update split: option.splits cell.splits)

lemma get_arg_str_keeps:
  assumes "get_arg_str ctx opt c a = Ok (r, ctx')"
  shows "keeps_uints (ctx_cells ctx) (ctx_cells ctx')"
proof -
  obtain arg ctx1 where 1: "next_arg ctx = Ok (arg, ctx1)"
    using assms by (auto simp: get_arg_str_def bind_res_eq_Ok)
  show ?thesis
    using assms 1 next_arg_cells [OF 1]
    by (cases arg) (auto simp: get_arg_str_def bind_res_eq_Ok dest: optname_error_cells store_keeps)
qed

lemma get_arg_uint_keeps:
  assumes "get_arg_uint ctx opt c a = Ok (PARSING_DONE, ctx')"
  shows "ctx_cells ctx' = ctx_cells ctx"
proof -
  obtain arg ctx1 where 1: "next_arg ctx = Ok (arg, ctx1)"
    using assms by (auto simp: get_arg_uint_def bind_res_eq_Ok)
  show ?thesis
  proof (cases arg)
    case None
    then show ?thesis
      using assms 1 by (auto simp: get_arg_uint_def optname_error_def bind_res_eq_Ok)
  next
    case (Some s)
    then show ?thesis
      using assms 1 next_arg_cells [OF 1]
      by (cases "strtou s") (auto simp: get_arg_uint_def optname_error_def bind_res_eq_Ok)
  qed
qed

lemma get_arg_value_keeps:
  assumes "get_arg_value ctx opt c = Ok (PARSING_DONE, ctx')"
  shows "keeps_uints (ctx_cells ctx) (ctx_cells ctx')"
proof (cases "opt_type opt")
  case OPTION_FILENAME
  then obtain r1 ctx1 where 1: "get_arg_str ctx opt c (opt_value opt) = Ok (r1, ctx1)"
      and 2: "ctx' = ctx1 \<or> (\<exists>m p. ctx' = ctx1\<lparr>ctx_cells := m\<rparr> \<and> store_str (ctx_cells ctx1) (opt_value opt) p = Ok m)"
    using assms by (auto simp: get_arg_value_def bind_res_eq_Ok split: if_splits)
  have "keeps_uints (ctx_cells ctx1) (ctx_cells ctx')"
    using 2 store_keeps(2) by auto
  then show ?thesis using get_arg_str_keeps [OF 1] keeps_trans by blast
qed (use assms in \<open>auto simp: get_arg_value_def bind_res_eq_Ok split: if_splits
    dest: store_keeps get_arg_uint_keeps get_arg_str_keeps\<close>)

lemma get_arg_keeps:
  assumes "get_arg ctx opt c = Ok (PARSING_DONE, ctx')"
  shows "keeps_uints (ctx_cells ctx) (ctx_cells ctx')"
proof -
  obtain ctx1 where 1: "get_arg_routine ctx opt c = Ok (PARSING_DONE, ctx1)" "ctx_cells ctx' = ctx_cells ctx1"
    using assms by (auto simp: get_arg_def bind_res_eq_Ok split: if_splits dest: verify_cmdmode_cells)
  then have "get_arg_value ctx opt c = Ok (PARSING_DONE, ctx1)"
    by (auto simp: get_arg_routine_def Let_def optname_error_def bind_res_eq_Ok split: if_splits)
  then show ?thesis using get_arg_value_keeps 1(2) by simp
qed

lemma parse_short_option_keeps:
  "parse_short_option ctx optstr opts = Ok (PARSING_DONE, parsed, ctx') \<Longrightarrow> keeps_uints (ctx_cells ctx) (ctx_cells ctx')"
  by (induction opts) (auto simp: bind_res_eq_Ok split: if_splits dest: get_arg_keeps)

lemma parse_long_loop_keeps:
  "parse_long_loop ctx argstr opts abbrev ambiguous = Ok (PARSING_DONE, parsed, ctx')
   \<Longrightarrow> keeps_uints (ctx_cells ctx) (ctx_cells ctx')"
proof (induction ctx argstr opts abbrev ambiguous rule: parse_long_loop.induct)
  case (2 ctx argstr opt opts abbrev ambiguous)
  show ?case
  proof (cases "opt_type opt = OPTION_END")
    case True
    then show ?thesis
      using "2.prems" by (auto simp: bind_res_eq_Ok split: option.splits dest: get_arg_keeps)
  next
    case False
    then obtain verdict where v: "match_long argstr opt = Ok verdict"
      using "2.prems" by (auto simp: bind_res_eq_Ok)
    show ?thesis
    proof (cases verdict)
      case (Exact d rest)
      then have "get_arg (case rest of None \<Rightarrow> ctx | Some v \<Rightarrow> ctx\<lparr>ctx_optstr := Some v\<rparr>) opt d = Ok (PARSING_DONE, ctx')"
        using "2.prems" False v by (auto simp: bind_res_eq_Ok)
      then show ?thesis using get_arg_keeps by (cases rest) fastforce+
    next
      case (Abbreviated c d)
      then show ?thesis
        using "2.IH"(2) [OF False v Abbreviated] "2.prems" False v by (auto split: if_splits)
    qed (use 2 False v in simp)
  qed
qed simp

lemma short_loop_keeps:
  "short_loop options h ctx parsed = Ok (PARSING_DONE, p', ctx') \<Longrightarrow> keeps_uints (ctx_cells ctx) (ctx_cells ctx')"
proof (induction options h ctx parsed rule: short_loop.induct)
  case (1 options h ctx parsed)
  show ?case
  proof (cases "ctx_optstr ctx")
    case None
    then show ?thesis using "1.prems" by (simp add: short_loop.simps)
  next
    case (Some optstr)
    then obtain p1 ctx1 where p: "parse_short_option ctx optstr options = Ok (PARSING_DONE, p1, ctx1)"
      using "1.prems" by (subst (asm) short_loop.simps) (auto simp: bind_res_eq_Ok split: if_splits)
    then have "short_loop options h ctx1 p1 = Ok (PARSING_DONE, p', ctx')"
      using "1.prems" Some by (subst (asm) short_loop.simps) simp
    then show ?thesis using "1.IH" [OF Some p refl refl refl] parse_short_option_keeps [OF p] keeps_trans by blast
  qed
qed

lemma short_loop_result: "short_loop options h ctx parsed = Ok (r, p', ctx') \<Longrightarrow> r \<noteq> PARSING_COMPLETE"
proof (induction options h ctx parsed rule: short_loop.induct)
  case (1 options h ctx parsed)
  show ?case
  proof (cases "ctx_optstr ctx")
    case (Some optstr)
    then obtain rc p1 ctx1 where p: "parse_short_option ctx optstr options = Ok (rc, p1, ctx1)"
      using "1.prems" by (subst (asm) short_loop.simps) (auto simp: bind_res_eq_Ok)
    show ?thesis
    proof (cases "rc = PARSING_DONE")
      case True
      then have "short_loop options h ctx1 p1 = Ok (r, p', ctx')"
        using "1.prems" p Some by (subst (asm) short_loop.simps) simp
      then show ?thesis using "1.IH" [OF Some p refl refl True] by simp
    qed (use "1.prems" p Some in \<open>subst (asm) short_loop.simps; auto split: if_splits\<close>)
  qed (use "1.prems" in \<open>subst (asm) short_loop.simps; auto\<close>)
qed

lemma parse_option_next_keeps:
  assumes "parse_option_next stat options ctx = Ok (r, ctx')" "r \<in> {PARSING_DONE, PARSING_COMPLETE}"
  shows "keeps_uints (ctx_cells ctx) (ctx_cells ctx')"
proof -
  obtain argstr where a: "arg_at ctx (ctx_argv ctx) = Ok argstr"
    using assms by (auto simp: parse_option_next_def bind_res_eq_Ok)
  consider (same) "ctx_cells ctx' = ctx_cells ctx"
    | (short) r1 p1 c1 where
        "short_loop options (PARSER_NO_SHORT_HELP \<notin> ctx_flags ctx) (ctx\<lparr>ctx_optstr := Some (tl argstr)\<rparr>) None = Ok (r1, p1, c1)"
        "r1 = r \<and> r \<noteq> PARSING_DONE \<or> r1 = PARSING_DONE" "ctx_cells ctx' = ctx_cells c1"
    | (long) r1 p1 c1 where
        "parse_long_option ctx (drop 2 argstr) options = Ok (r1, p1, c1)"
        "r1 = r \<and> r \<noteq> PARSING_DONE \<and> r \<noteq> PARSING_COMPLETE \<or> r1 = PARSING_DONE" "ctx_cells ctx' = ctx_cells c1"
    using assms(1) a unfolding parse_option_next_def
    by (simp add: Let_def split: if_split_asm)
       (auto simp: bind_res_eq_Ok split: if_split_asm option.splits dest: validate_cells)
  then show ?thesis
  proof cases
    case short
    have "r1 \<noteq> PARSING_COMPLETE"
      using short_loop_result short(1) by blast
    then show ?thesis using short assms(2) short_loop_keeps by fastforce
  next
    case long
    then have "parse_long_loop ctx (drop 2 argstr) options None None = Ok (PARSING_DONE, p1, c1)"
      using assms(2) by (auto simp: parse_long_option_def)
    then show ?thesis using long(3) parse_long_loop_keeps by fastforce
  qed simp
qed

lemma parse_loop_keeps:
  "parse_loop stat indent options usages ctx = Ok (Returned n, ctx')
   \<Longrightarrow> keeps_uints (ctx_cells ctx) (ctx_cells ctx')"
proof (induction stat indent options usages ctx rule: parse_loop.induct)
  case (1 stat indent options usages ctx)
  show ?case
  proof (cases "ctx_argc ctx = 0")
    case True
    then show ?thesis
      using "1.prems" by (subst (asm) parse_loop.simps) (auto dest: finish_parse_cells)
  next
    case False
    then obtain r c1 where n: "parse_option_next stat options ctx = Ok (r, c1)"
      using "1.prems" by (subst (asm) parse_loop.simps) (auto simp: bind_res_eq_Ok)
    have ends: "r = PARSING_DONE \<or> r = PARSING_COMPLETE \<and> ctx_cells ctx' = ctx_cells c1"
      using "1.prems" False n
      by (subst (asm) parse_loop.simps) (auto simp: bind_res_eq_Ok print_usage_def unknown_option_def
          split: if_splits option.splits dest: finish_parse_cells)
    then have k: "keeps_uints (ctx_cells ctx) (ctx_cells c1)" using parse_option_next_keeps [OF n] by auto
    show ?thesis
    proof (cases "r = PARSING_DONE")
      case True
      then have "parse_loop stat indent options usages (c1\<lparr>ctx_argc := ctx_argc c1 - 1, ctx_argv := ctx_argv c1 + 1\<rparr>)
          = Ok (Returned n, ctx')"
        using "1.prems" False n by (subst (asm) parse_loop.simps) simp
      then show ?thesis using "1.IH" [OF False n refl True] k keeps_trans by fastforce
    qed (use ends k in simp)
  qed
qed

lemma unsigned_kept:
  assumes "parse_options stat indent m argc args pfx options usages flags = Ok (Returned n, ctx)" "m a = Some (UintCell u)"
  shows "ctx_cells ctx a = Some (UintCell u)"
  using assms parse_loop_keeps
  by (fastforce simp: parse_options_def bind_res_eq_Ok start_context_def keeps_uints_def)

end
