(* ===== verification/Process.thy ===== *)
theory Process
  imports Strlist System_Calls
begin

text \<open>
  \<^verbatim>\<open>src/src/compat/uni/pkproc.c\<close>, the part without messages: what the child does between
  fork and execvp, the status that waitpid delivers, and the protocol between the two
  processes.  The child reports a failure through a pipe whose write end a successful
  execvp closes; the parent reads from it.  The step relation interleaves the two
  freely; its properties say that the parent always gets on and what it then knows.
\<close>

unbundle bit_operations_syntax

section \<open>Answers of the system\<close>

text \<open>
  \<open>po_junk\<close> is what the uninitialised variable \<^verbatim>\<open>status\<close> holds; \<open>po_wait\<close> are the answers of
  waitpid.
\<close>

record proc_os =
  po_nul :: "errnum + int"
  po_pipe :: bool
  po_fork :: "errnum + int"
  po_cloexec :: bool
  po_dup2 :: "int \<Rightarrow> errnum option"
  po_exec :: "string \<Rightarrow> string option list \<Rightarrow> errnum option"
  po_wait :: "(errnum + uint) list"
  po_junk :: uint
  po_strerror :: "errnum \<Rightarrow> string"

section \<open>The status of a process\<close>

definition WIFEXITED :: "uint \<Rightarrow> bool" where "WIFEXITED s \<longleftrightarrow> s AND 0x7F = 0"
definition WEXITSTATUS :: "uint \<Rightarrow> int" where "WEXITSTATUS s = uint (drop_bit 8 s AND 0xFF)"
definition WTERMSIG :: "uint \<Rightarrow> int" where "WTERMSIG s = uint (s AND 0x7F)"
definition WIFSIGNALED :: "uint \<Rightarrow> bool" where "WIFSIGNALED s \<longleftrightarrow> s AND 0x7F \<noteq> 0 \<and> s AND 0x7F \<noteq> 0x7F"

text \<open>The statuses the kernel builds for an exit code and for a signal.\<close>

definition exit_word :: "byte \<Rightarrow> uint" where "exit_word code = push_bit 8 (ucast code)"
definition signal_word :: "nat \<Rightarrow> bool \<Rightarrow> uint" where
  "signal_word sig core = of_nat sig OR (if core then 0x80 else 0)"

section \<open>The child\<close>

datatype child_errnum = ERROR_DUP2 | ERROR_EXEC

text \<open>
  \<open>errext\<close> is a pointer: into the stack of the child for a failed dup2, to the program name,
  which both processes have, for a failed execvp.
\<close>

datatype errext = Child_fds int int | Program_name string

record child_error =
  chlerr :: child_errnum
  syserr :: errnum
  errext :: errext

definition NO_STDIN :: uint where "NO_STDIN = push_bit 0 1"
definition NO_STDOUT :: uint where "NO_STDOUT = push_bit 1 1"
definition NO_STDERR :: uint where "NO_STDERR = push_bit 2 1"

text \<open>\<open>Some\<close> is the error object with which child_die ends the child.\<close>

definition idup2 :: "proc_os \<Rightarrow> int \<Rightarrow> int \<Rightarrow> child_error option" where
  "idup2 po fd1 fd2 =
     map_option (\<lambda>e. \<lparr>chlerr = ERROR_DUP2, syserr = e, errext = Child_fds fd1 fd2\<rparr>) (po_dup2 po fd2)"

fun first_error :: "'e option list \<Rightarrow> 'e option" where
  "first_error [] = None"
| "first_error (None # rs) = first_error rs"
| "first_error (Some e # rs) = Some e"

definition redirect_stdio :: "proc_os \<Rightarrow> uint \<Rightarrow> int \<Rightarrow> child_error option" where
  "redirect_stdio po fildes_flags fd =
     first_error
       [if fildes_flags AND NO_STDIN \<noteq> 0 then idup2 po fd 0 else None,
        if fildes_flags AND NO_STDOUT \<noteq> 0 then idup2 po fd 1 else None,
        if fildes_flags AND NO_STDERR \<noteq> 0 then idup2 po fd 2 else None]"

definition child_argv :: "string list \<Rightarrow> string option list res" where
  "child_argv args =
     bind_res (fold_res push_name STRLIST_INIT_NODUP args) (\<lambda>sl. strlist_to_array_routine sl 0)"

text \<open>
  The child of mkprocl and of mkprocf: \<open>Some\<close> when it ends with child_die, \<open>None\<close> when it
  becomes the program or runs the function.
\<close>

definition child_exec :: "proc_os \<Rightarrow> uint \<Rightarrow> int \<Rightarrow> string \<Rightarrow> string list \<Rightarrow> child_error option res" where
  "child_exec po fildes_flags nulfd arg0 args =
     (case redirect_stdio po fildes_flags nulfd of
        Some e \<Rightarrow> Ok (Some e)
      | None \<Rightarrow>
          bind_res (child_argv args) (\<lambda>argv.
            Ok (map_option (\<lambda>e. \<lparr>chlerr = ERROR_EXEC, syserr = e, errext = Program_name arg0\<rparr>)
                  (po_exec po arg0 argv))))"

definition child_call :: "proc_os \<Rightarrow> uint \<Rightarrow> int \<Rightarrow> child_error option" where
  "child_call po fildes_flags nulfd = redirect_stdio po fildes_flags nulfd"

text \<open>What the parent's read from the pipe yields; descriptor -1 when there is no pipe or no child.\<close>

definition forked :: "proc_os \<Rightarrow> bool" where
  "forked po = (case po_fork po of Inl _ \<Rightarrow> False | Inr _ \<Rightarrow> True)"

definition pipe_message :: "proc_os \<Rightarrow> child_error option \<Rightarrow> child_error option" where
  "pipe_message po outcome = (if forked po \<and> po_pipe po then outcome else None)"

section \<open>The two processes\<close>

datatype parent_pc = P_fork | P_close | P_read | P_wait child_error | P_died child_error | P_started
datatype child_pc = C_unborn | C_setup | C_failed child_error | C_reported | C_program | C_ended

text \<open>
  \<open>f_pipe\<close> is what the pipe holds; the other fields say in which process its write end is open.
\<close>

record fork_state =
  f_parent :: parent_pc
  f_child :: child_pc
  f_pipe :: "child_error option"
  f_parent_end :: bool
  f_child_end :: bool

definition fork_start :: "proc_os \<Rightarrow> fork_state" where
  "fork_start po = \<lparr>f_parent = P_fork, f_child = C_unborn, f_pipe = None, f_parent_end = po_pipe po, f_child_end = False\<rparr>"

text \<open>
  \<open>outcome\<close> is the child's fate by child_exec.  The program it becomes may end (last rule)
  if \<open>ends\<close>; nothing is assumed about when.
\<close>

inductive fork_step :: "proc_os \<Rightarrow> child_error option \<Rightarrow> bool \<Rightarrow> fork_state \<Rightarrow> fork_state \<Rightarrow> bool"
  for po outcome ends where
  fork_child: "f_parent s = P_fork \<Longrightarrow> po_fork po = Inr pid \<Longrightarrow>
    fork_step po outcome ends s (s\<lparr>f_parent := P_close, f_child := C_setup, f_child_end := po_pipe po\<rparr>)"
| fork_fails: "f_parent s = P_fork \<Longrightarrow> po_fork po = Inl e \<Longrightarrow>
    fork_step po outcome ends s (s\<lparr>f_parent := P_close\<rparr>)"
| close_end: "f_parent s = P_close \<Longrightarrow>
    fork_step po outcome ends s (s\<lparr>f_parent := P_read, f_parent_end := False\<rparr>)"
| read_message: "f_parent s = P_read \<Longrightarrow> f_pipe s = Some e \<Longrightarrow>
    fork_step po outcome ends s (s\<lparr>f_parent := P_wait e, f_pipe := None\<rparr>)"
| read_end: "f_parent s = P_read \<Longrightarrow> f_pipe s = None \<Longrightarrow> \<not> f_parent_end s \<Longrightarrow> \<not> f_child_end s \<Longrightarrow>
    fork_step po outcome ends s (s\<lparr>f_parent := P_started\<rparr>)"
| wait_child: "f_parent s = P_wait e \<Longrightarrow> f_child s = C_ended \<Longrightarrow>
    fork_step po outcome ends s (s\<lparr>f_parent := P_died e\<rparr>)"
| child_fails: "f_child s = C_setup \<Longrightarrow> outcome = Some e \<Longrightarrow>
    fork_step po outcome ends s (s\<lparr>f_child := C_failed e\<rparr>)"
| child_execs: "f_child s = C_setup \<Longrightarrow> outcome = None \<Longrightarrow>
    fork_step po outcome ends s (s\<lparr>f_child := C_program, f_child_end := f_child_end s \<and> \<not> po_cloexec po\<rparr>)"
| child_writes: "f_child s = C_failed e \<Longrightarrow>
    fork_step po outcome ends s (s\<lparr>f_child := C_reported, f_pipe := if f_child_end s then Some e else None\<rparr>)"
| child_exits: "f_child s = C_reported \<Longrightarrow>
    fork_step po outcome ends s (s\<lparr>f_child := C_ended, f_child_end := False\<rparr>)"
| program_ends: "f_child s = C_program \<Longrightarrow> ends \<Longrightarrow>
    fork_step po outcome ends s (s\<lparr>f_child := C_ended, f_child_end := False\<rparr>)"

inductive_cases fork_stepE: "fork_step po outcome ends s s'"

abbreviation fork_run :: "proc_os \<Rightarrow> child_error option \<Rightarrow> bool \<Rightarrow> fork_state \<Rightarrow> bool" where
  "fork_run po outcome ends \<equiv> (fork_step po outcome ends)\<^sup>*\<^sup>* (fork_start po)"

section \<open>Invariant\<close>

text \<open>
  Where the parent stands, what it has learnt; and while the child has something to report,
  the report is on its way.
\<close>

definition parent_ok :: "proc_os \<Rightarrow> child_error option \<Rightarrow> fork_state \<Rightarrow> bool" where
  "parent_ok po outcome s \<longleftrightarrow>
     (case f_parent s of
        P_fork \<Rightarrow> f_child s = C_unborn
      | P_wait e \<Rightarrow> pipe_message po outcome = Some e \<and> f_child s \<in> {C_reported, C_ended}
      | P_died e \<Rightarrow> pipe_message po outcome = Some e \<and> f_child s = C_ended
      | P_started \<Rightarrow> pipe_message po outcome = None \<and> \<not> f_child_end s
      | _ \<Rightarrow> True)"

definition child_ok :: "proc_os \<Rightarrow> child_error option \<Rightarrow> fork_state \<Rightarrow> bool" where
  "child_ok po outcome s \<longleftrightarrow>
     (case f_child s of
        C_unborn \<Rightarrow> \<not> f_child_end s
      | C_setup \<Rightarrow> f_child_end s = po_pipe po
      | C_failed e \<Rightarrow> outcome = Some e \<and> f_child_end s = po_pipe po
      | C_reported \<Rightarrow> outcome \<noteq> None \<and> f_child_end s = po_pipe po
      | C_program \<Rightarrow> outcome = None \<and> f_child_end s = (po_pipe po \<and> \<not> po_cloexec po)
      | C_ended \<Rightarrow> \<not> f_child_end s)"

definition pipe_ok :: "proc_os \<Rightarrow> child_error option \<Rightarrow> fork_state \<Rightarrow> bool" where
  "pipe_ok po outcome s \<longleftrightarrow>
     (f_parent s \<noteq> P_fork \<longrightarrow> (f_child s = C_unborn) = (\<not> forked po))
     \<and> (f_child s \<noteq> C_unborn \<longrightarrow> forked po)
     \<and> (f_pipe s \<noteq> None \<longrightarrow> f_child s \<in> {C_reported, C_ended} \<and> f_pipe s = pipe_message po outcome)
     \<and> (f_child s \<in> {C_reported, C_ended} \<and> f_parent s \<in> {P_fork, P_close, P_read, P_started}
         \<longrightarrow> f_pipe s = pipe_message po outcome)
     \<and> (f_parent_end s \<longrightarrow> f_parent s \<in> {P_fork, P_close})"

definition fork_ok :: "proc_os \<Rightarrow> child_error option \<Rightarrow> fork_state \<Rightarrow> bool" where
  "fork_ok po outcome s \<longleftrightarrow> parent_ok po outcome s \<and> child_ok po outcome s \<and> pipe_ok po outcome s"

lemmas fork_ok_defs = fork_ok_def parent_ok_def child_ok_def pipe_ok_def pipe_message_def

lemma forked_simps [simp]: "po_fork po = Inr pid \<Longrightarrow> forked po" "po_fork po = Inl e \<Longrightarrow> \<not> forked po"
  by (simp_all add: forked_def)

lemma fork_ok_start: "fork_ok po outcome (fork_start po)"
  by (simp add: fork_ok_defs fork_start_def)

lemma fork_ok_step:
  assumes step: "fork_step po outcome ends s s'" and ok: "fork_ok po outcome s"
  shows "fork_ok po outcome s'"
  using step
proof (rule fork_stepE, goal_cases)
  case 3
  then show ?thesis using ok by (cases "f_pipe s"; cases "f_child s"; simp add: fork_ok_defs)
next
  case 4
  then show ?thesis using ok by (cases "f_child s"; simp add: fork_ok_defs split: if_splits)
next
  case 5
  then show ?thesis using ok by (cases "f_child s"; simp add: fork_ok_defs split: if_splits)
qed (use ok in \<open>cases "f_pipe s"; cases "f_parent s"; simp add: fork_ok_defs split: if_splits\<close>)+

lemma fork_ok_run: "fork_run po outcome ends s \<Longrightarrow> fork_ok po outcome s"
  by (induction rule: rtranclp_induct) (auto intro: fork_ok_start fork_ok_step)

section \<open>What the parent knows\<close>

definition parent_result :: "proc_os \<Rightarrow> child_error option \<Rightarrow> parent_pc" where
  "parent_result po outcome = (case pipe_message po outcome of None \<Rightarrow> P_started | Some e \<Rightarrow> P_died e)"

definition parent_done :: "fork_state \<Rightarrow> bool" where
  "parent_done s = (case f_parent s of P_started \<Rightarrow> True | P_died _ \<Rightarrow> True | _ \<Rightarrow> False)"

lemma parent_done_result: "fork_ok po outcome s \<Longrightarrow> parent_done s \<Longrightarrow> f_parent s = parent_result po outcome"
  by (cases "f_parent s") (simp_all add: fork_ok_def parent_ok_def parent_done_def parent_result_def)

text \<open>
  C23. When mkprocl returns success and the pipe could be made, the child has become the
  program: it is running or has ended by itself.
\<close>

theorem mkprocl_launched:
  assumes "fork_run po outcome ends s" "f_parent s = P_started" "forked po" "po_pipe po"
  shows "outcome = None \<and> f_child s \<in> {C_program, C_ended}"
  using fork_ok_run [OF assms(1)] assms(2-4)
  by (cases "f_child s") (auto simp: fork_ok_defs)

text \<open>Every step uses up something, and the parent is never stuck.\<close>

fun parent_weight :: "parent_pc \<Rightarrow> nat" where
  "parent_weight P_fork = 4"
| "parent_weight P_close = 3"
| "parent_weight P_read = 2"
| "parent_weight (P_wait e) = 1"
| "parent_weight (P_died e) = 0"
| "parent_weight P_started = 0"

fun child_weight :: "child_pc \<Rightarrow> nat" where
  "child_weight C_unborn = 4"
| "child_weight C_setup = 3"
| "child_weight (C_failed e) = 2"
| "child_weight C_reported = 1"
| "child_weight C_program = 1"
| "child_weight C_ended = 0"

definition fork_weight :: "fork_state \<Rightarrow> nat" where
  "fork_weight s = parent_weight (f_parent s) + child_weight (f_child s)"

lemma fork_step_weight: "fork_step po outcome ends s s' \<Longrightarrow> fork_ok po outcome s \<Longrightarrow> fork_weight s' < fork_weight s"
  by (erule fork_stepE) (auto simp: fork_weight_def fork_ok_def parent_ok_def)

lemma fork_progress:
  assumes ok: "fork_ok po outcome s" and "po_cloexec po \<or> ends" "\<not> parent_done s"
  shows "\<exists>s'. fork_step po outcome ends s s'"
proof (cases "f_parent s = P_read \<and> f_pipe s \<noteq> None")
  case True
  then show ?thesis by (auto intro: read_message)
next
  case unread: False
  show ?thesis
  proof (cases "f_child s")
    case C_setup
    then show ?thesis by (cases outcome) (auto intro: child_fails child_execs)
  next
    case (C_failed e)
    then show ?thesis by (auto intro: child_writes)
  next
    case C_reported
    then show ?thesis by (auto intro: child_exits)
  next
    case C_unborn
    then show ?thesis using ok assms(3)
      by (cases "f_parent s"; cases "po_fork po"; cases "f_pipe s")
         (auto simp: fork_ok_defs parent_done_def intro: fork_child fork_fails close_end read_end)
  next
    case C_program
    show ?thesis
    proof (cases ends)
      case False
      then show ?thesis using ok assms(2,3) C_program
        by (cases "f_parent s"; cases "f_pipe s") (auto simp: fork_ok_defs parent_done_def intro: close_end read_end)
    qed (use C_program in \<open>auto intro: program_ends\<close>)
  next
    case C_ended
    then have "\<not> f_child_end s" "f_parent s = P_read \<Longrightarrow> \<not> f_parent_end s" "f_parent s \<noteq> P_fork"
      using ok by (auto simp: fork_ok_def parent_ok_def child_ok_def pipe_ok_def)
    moreover from this have "f_parent s = P_read \<Longrightarrow> ?thesis" using unread by (metis read_end)
    ultimately show ?thesis using C_ended assms(3)
      by (cases "f_parent s") (auto simp: parent_done_def intro: close_end wait_child)
  qed
qed

lemma fork_reaches_result:
  assumes "po_cloexec po \<or> ends"
  shows "fork_ok po outcome s \<Longrightarrow> \<exists>s'. (fork_step po outcome ends)\<^sup>*\<^sup>* s s' \<and> f_parent s' = parent_result po outcome"
proof (induction s rule: measure_induct_rule [of fork_weight])
  case (less s)
  show ?case
  proof (cases "parent_done s")
    case False
    then obtain s1 where "fork_step po outcome ends s s1" using fork_progress less.prems assms by blast
    then show ?thesis
      using less.IH [of s1] fork_step_weight fork_ok_step less.prems by (meson converse_rtranclp_into_rtranclp)
  qed (use parent_done_result less.prems in blast)
qed

text \<open>
  C10. mkprocl comes back under every scheduling of the two processes: each step of either
  lessens the weight, and from every state they can reach, the parent gets to the result
  that the answers of the system determine.  This holds even if the program that the child
  becomes never ends, provided that the close-on-exec flag could be set.
\<close>

theorem mkprocl_comes_back:
  assumes "fork_run po outcome ends s" "po_cloexec po \<or> ends"
  shows "(\<forall>s'. fork_step po outcome ends s s' \<longrightarrow> fork_weight s' < fork_weight s)
    \<and> (\<exists>s'. (fork_step po outcome ends)\<^sup>*\<^sup>* s s' \<and> f_parent s' = parent_result po outcome)"
  using fork_ok_run [OF assms(1)] fork_reaches_result [OF assms(2)] fork_step_weight by blast

text \<open>A system on which every call succeeds but execvp, whose answer is given.\<close>

definition sample_proc :: "errnum option \<Rightarrow> proc_os" where
  "sample_proc e = \<lparr>po_nul = Inr 3, po_pipe = True, po_fork = Inr 100, po_cloexec = True, po_dup2 = (\<lambda>_. None),
     po_exec = (\<lambda>_ _. e), po_wait = [Inr 0], po_junk = 0x7F, po_strerror = (\<lambda>_. ''e'')\<rparr>"

lemma sample_proc_simps [simp]:
  "po_nul (sample_proc e) = Inr 3" "po_pipe (sample_proc e)" "po_fork (sample_proc e) = Inr 100" "po_cloexec (sample_proc e)"
  "po_dup2 (sample_proc e) fd = None" "po_exec (sample_proc e) prog args = e" "po_wait (sample_proc e) = [Inr 0]"
  "po_junk (sample_proc e) = 0x7F" "po_strerror (sample_proc e) err = ''e''"
  by (simp_all add: sample_proc_def)

lemma sample_result: "parent_result (sample_proc e) outcome = (case outcome of None \<Rightarrow> P_started | Some e \<Rightarrow> P_died e)"
  by (simp add: parent_result_def pipe_message_def)

theorem mkprocl_comes_back_witness:
  "\<exists>s. (fork_step (sample_proc None) None False)\<^sup>*\<^sup>* (fork_start (sample_proc None)) s \<and> f_parent s = P_started"
  using mkprocl_comes_back [of "sample_proc None" None False "fork_start (sample_proc None)"]
  by (simp add: sample_result)

theorem mkprocl_launched_witness:
  "\<exists>s. (fork_step (sample_proc None) None False)\<^sup>*\<^sup>* (fork_start (sample_proc None)) s \<and> f_child s \<in> {C_program, C_ended}"
proof -
  have "po_cloexec (sample_proc None) \<or> False" by simp
  from fork_reaches_result [OF this fork_ok_start, of None]
  obtain s where "fork_run (sample_proc None) None False s" "f_parent s = P_started"
    by (auto simp: sample_result)
  then show ?thesis
    using mkprocl_launched [of "sample_proc None" None False s]
    by auto
qed

text \<open>The status words and what is read from them.\<close>

lemma status_exited: "WIFEXITED (exit_word c) \<and> WEXITSTATUS (exit_word c) = uint c"
proof -
  have m: "(0x7F :: uint) = mask 7" "(0xFF :: uint) = mask 8" by (simp_all add: mask_eq_exp_minus_1)
  have "exit_word c AND 0x7F = 0" "drop_bit 8 (exit_word c) AND 0xFF = ucast c"
    unfolding m by (rule bit_eqI; auto simp: exit_word_def bit_simps dest: bit_imp_le_length)+
  then show ?thesis by (simp add: WIFEXITED_def WEXITSTATUS_def uint_up_ucast is_up)
qed

lemma small_and: "n < 128 \<Longrightarrow> (of_nat n :: uint) AND 0x7F = of_nat n"
proof -
  assume "n < 128"
  then have "take_bit 7 (of_nat n :: uint) = of_nat n"
    by (simp add: take_bit_of_nat take_bit_nat_eq_self)
  moreover have "(0x7F :: uint) = mask 7" by (simp add: mask_eq_exp_minus_1)
  ultimately show ?thesis by (simp add: take_bit_eq_mask)
qed

lemma status_signalled:
  assumes "0 < sig" "sig < 127"
  shows "\<not> WIFEXITED (signal_word sig core) \<and> WIFSIGNALED (signal_word sig core) \<and> WTERMSIG (signal_word sig core) = int sig"
proof -
  have "signal_word sig core AND 0x7F = of_nat sig"
    using small_and [of sig] assms by (simp add: signal_word_def bit.conj_disj_distrib and.commute)
  moreover have "uint (of_nat sig :: uint) = int sig"
    using assms by (simp add: unsigned_of_nat take_bit_nat_eq_self)
  moreover from this have "(of_nat sig :: uint) \<noteq> 0" "(of_nat sig :: uint) \<noteq> 0x7F" using assms by auto
  ultimately show ?thesis by (simp add: WIFEXITED_def WIFSIGNALED_def WTERMSIG_def)
qed

section \<open>The arguments of the program\<close>

lemma child_argv_words:
  assumes "length args < SAFE_SIZE"
  shows "child_argv args = Ok (map Some args @ [None])"
proof -
  obtain sl where sl: "fold_res push_name STRLIST_INIT_NODUP args = Ok sl" "strlist_rep sl (map plain args)"
    using push_names_rep [of STRLIST_INIT_NODUP "[]" args] strlist_rep_INIT assms by auto
  then show ?thesis
    using strlist_to_array_rep [OF sl(2), of 0] assms by (simp add: child_argv_def)
qed

end
