(* ===== verification/Running.thy ===== *)
theory Running
  imports Atexit Messages System_Calls Cipher_Config Handle_Record Parse_Option Process
begin

text \<open>
  The running program, as the commands see it: the files, what was written, the terminal and
  the lines typed, the calls made to sqlite3, the key buffer, and the chain of cleanup
  functions of \<^verbatim>\<open>atexit-chain.c\<close>.  An action of the program yields a value or stops,
  and leaves a state in both cases, because the cleanup functions then run on it.  The
  answers of the operating system, of OpenSSL and of sqlite3 are the parameters
  collected in \<open>os\<close>.
\<close>

named_theorems act_simps \<open>running the actions of a command\<close>

section \<open>State and answers\<close>

datatype cleanup = Destroy_key | Rm_cred_db | Rm_cred_cc | Rm_tmp_rec | Rm_journal_file

text \<open>There are five cleanup functions, so a search over all of them computes.\<close>

instantiation cleanup :: enum
begin

definition enum_cleanup :: "cleanup list" where
  "enum_cleanup = [Destroy_key, Rm_cred_db, Rm_cred_cc, Rm_tmp_rec, Rm_journal_file]"

definition enum_all_cleanup :: "(cleanup \<Rightarrow> bool) \<Rightarrow> bool" where
  "enum_all_cleanup P \<longleftrightarrow> list_all P enum_class.enum"

definition enum_ex_cleanup :: "(cleanup \<Rightarrow> bool) \<Rightarrow> bool" where
  "enum_ex_cleanup P \<longleftrightarrow> list_ex P enum_class.enum"

instance
proof
  have c: "c \<in> set (enum_class.enum :: cleanup list)" for c
    by (cases c) (simp_all add: enum_cleanup_def)
  then show "(UNIV :: cleanup set) = set enum_class.enum" by auto
  show "distinct (enum_class.enum :: cleanup list)" by (simp add: enum_cleanup_def)
  show "enum_class.enum_all P \<longleftrightarrow> Ball UNIV P" "enum_class.enum_ex P \<longleftrightarrow> Bex UNIV P" for P :: "cleanup \<Rightarrow> bool"
    using c by (auto simp: enum_all_cleanup_def enum_ex_cleanup_def list_all_iff list_ex_iff)
qed

end

datatype sql_call = Sql_open string | Sql_key string | Sql_exec string | Sql_prepare string
  | Sql_bind nat sql_value | Sql_step | Sql_finalize | Sql_close

text \<open>
  \<open>w_files\<close> has a name for everything access(F_OK) finds; the content matters for regular
  files only.  \<open>w_key\<close> is the key buffer while it is allocated and \<open>w_ignored\<close> are the signals
  that are ignored.  The last five fields are the variables of \<^verbatim>\<open>src/src/enval.c\<close> behind init_enval.
\<close>

record pk_world =
  w_files :: "string \<rightharpoonup> string"
  w_out :: "(out_stream \<times> string) list"
  w_tty :: terminal
  w_input :: "input_event list"
  w_sql :: "sql_call list"
  w_key :: "string option"
  w_ignored :: "int set"
  w_cred_db :: string
  w_cred_cc :: "string option"
  w_tmp_rec :: string
  w_editor :: "string option"
  w_spinner :: strptr

text \<open>
  \<open>os_sql calls call\<close>: the return code of a call to sqlite3 after the calls made before, and
  the database file it leaves; \<open>os_unlink p\<close>: why an existing
  file \<open>p\<close> cannot be removed; \<open>os_open\<close> and \<open>os_write\<close>: the answers of open and write for a
  file that is written, \<open>os_open_rd\<close> and \<open>os_read\<close> those for a file that is read; \<open>os_edit\<close>: the
  files after an editor has run on a file; \<open>os_getenv\<close>, \<open>os_getcwd\<close>, \<open>os_filestat\<close>: the answers
  of getenv, getcwd and stat; \<open>os_stdout\<close>: the answers of write for standard output;
  \<open>os_build\<close>: the constants that the build puts into \<^verbatim>\<open>project-config.h\<close>.
\<close>

record os =
  os_unlink :: "string \<Rightarrow> errnum option"
  os_mkdir :: "string \<Rightarrow> errnum option"
  os_wx :: "string \<Rightarrow> bool"
  os_open :: "string \<Rightarrow> errnum + int"
  os_write :: "string \<Rightarrow> io_answer list"
  os_errtext :: string
  os_rand :: "size_t \<Rightarrow> byte list option"
  os_sha256 :: "byte list \<Rightarrow> byte list option"
  os_sql :: "sql_call list \<Rightarrow> sql_call \<Rightarrow> int \<times> string option"
  os_sqlmsg :: string
  os_rowid :: int
  os_stat :: "string \<Rightarrow> bool option"
  os_access :: "string \<Rightarrow> access_result"
  os_open_rd :: "string \<Rightarrow> errnum + int"
  os_read :: "string \<Rightarrow> io_answer list"
  os_editor :: proc_os
  os_spinner :: proc_os
  os_edit :: "string \<Rightarrow> string \<Rightarrow> (string \<rightharpoonup> string) \<Rightarrow> (string \<rightharpoonup> string)"
  os_getenv :: "string \<Rightarrow> string option"
  os_stdout :: "io_answer list"
  os_build :: "string \<Rightarrow> string"
  os_getcwd :: "size_t \<Rightarrow> errnum + string"
  os_euid :: nat
  os_egid :: nat
  os_filestat :: "string \<Rightarrow> errnum + file_stat"

type_synonym pk = "(cleanup, pk_world) program"
type_synonym 'a act = "pk \<Rightarrow> 'a res \<times> pk"

section \<open>Actions\<close>

definition ret :: "'a \<Rightarrow> 'a act" where "ret x s = (Ok x, s)"
definition stop :: "halt \<Rightarrow> 'a act" where "stop h s = (Halt h, s)"
definition lift :: "'a res \<Rightarrow> 'a act" where "lift r s = (r, s)"

definition andthen :: "'a act \<Rightarrow> ('a \<Rightarrow> 'b act) \<Rightarrow> 'b act" where
  "andthen m f s = (case m s of (Ok x, s') \<Rightarrow> f x s' | (Halt h, s') \<Rightarrow> (Halt h, s'))"

definition get :: "(pk_world \<Rightarrow> 'a) \<Rightarrow> 'a act" where
  "get f s = (Ok (f (world s)), s)"

definition change :: "(pk_world \<Rightarrow> pk_world) \<Rightarrow> unit act" where
  "change f s = (Ok (), s\<lparr>world := f (world s)\<rparr>)"

definition push_cleanup :: "cleanup \<Rightarrow> unit act" where
  "push_cleanup c s = (Ok (), atexit_chain_push c s)"

definition pop_cleanup :: "unit act" where
  "pop_cleanup s = (Ok (), snd (atexit_chain_pop s))"

definition print_to :: "out_stream \<Rightarrow> string \<Rightarrow> unit act" where
  "print_to st txt = change (\<lambda>w. w\<lparr>w_out := w_out w @ [(st, txt)]\<rparr>)"

text \<open>error, error_errno, warning and note; the value of the first two is -1.\<close>

definition say_error :: "string option \<Rightarrow> string \<Rightarrow> int act" where
  "say_error detail txt =
     andthen (lift (error_routine detail (Some txt))) (\<lambda>(rc, bytes).
     andthen (print_to To_stderr bytes) (\<lambda>_. ret rc))"

definition say_warning :: "string \<Rightarrow> unit act" where
  "say_warning txt = andthen (lift (warning_routine None (Some txt))) (print_to To_stderr)"

definition say_note :: "string \<Rightarrow> unit act" where
  "say_note txt = andthen (lift (note_routine (Some txt))) (print_to To_stderr)"

text \<open>\<^verbatim>\<open>exit(error(...))\<close>, with the value exit hands to the caller's wait.\<close>

definition exit_error :: "string option \<Rightarrow> string \<Rightarrow> 'a act" where
  "exit_error detail txt = andthen (say_error detail txt) (\<lambda>rc. stop (Exit (exit_status rc)))"

section \<open>Files\<close>

definition unlink_file :: "os \<Rightarrow> string \<Rightarrow> pk_world \<Rightarrow> pk_world" where
  "unlink_file os p w = (if os_unlink os p = None then w\<lparr>w_files := (w_files w)(p := None)\<rparr> else w)"

definition set_file :: "string \<Rightarrow> string \<Rightarrow> pk_world \<Rightarrow> pk_world" where
  "set_file p c w = w\<lparr>w_files := (w_files w)(p \<mapsto> c)\<rparr>"

text \<open>
  populate_file: opening truncates the file; a write that is cut short leaves the part
  that was accepted.
\<close>

definition accepted :: "string \<Rightarrow> io_answer list \<Rightarrow> string" where
  "accepted content as =
     (case io_loop as of Some (Count nr, _) \<Rightarrow> take nr content | _ \<Rightarrow> [])"

definition populate :: "os \<Rightarrow> string \<Rightarrow> string \<Rightarrow> unit act" where
  "populate os p content =
     andthen (case os_open os p of Inl _ \<Rightarrow> ret () | Inr _ \<Rightarrow> change (set_file p (accepted content (os_write os p)))) (\<lambda>_.
       case populate_file (os_open os p) (os_write os p) content of
         None \<Rightarrow> stop Waits
       | Some r \<Rightarrow> lift r)"

text \<open>xwrite to a file that is open, and to standard output.\<close>

definition write_file :: "os \<Rightarrow> string \<Rightarrow> string \<Rightarrow> unit act" where
  "write_file os p content =
     andthen (change (set_file p (accepted content (os_write os p)))) (\<lambda>_.
       case xwrite (os_write os p) (length content) of
         None \<Rightarrow> stop Waits
       | Some r \<Rightarrow> andthen (lift r) (\<lambda>_. ret ()))"

definition write_stdout :: "os \<Rightarrow> string \<Rightarrow> unit act" where
  "write_stdout os content =
     andthen (print_to To_stdout (accepted content (os_stdout os))) (\<lambda>_.
       case xwrite (os_stdout os) (length content) of
         None \<Rightarrow> stop Waits
       | Some r \<Rightarrow> andthen (lift r) (\<lambda>_. ret ()))"

definition avail_dir_of :: "os \<Rightarrow> string \<Rightarrow> unit act" where
  "avail_dir_of os p = lift (avail_file_dir_or_die (os_mkdir os) (os_wx os) p)"

section \<open>sqlite3\<close>

definition sql_raw :: "os \<Rightarrow> sql_call \<Rightarrow> int act" where
  "sql_raw os call =
     andthen (get (\<lambda>w. os_sql os (w_sql w) call)) (\<lambda>(rc, db).
     andthen (change (\<lambda>w. w\<lparr>w_sql := w_sql w @ [call], w_files := (w_files w)(w_cred_db w := db)\<rparr>)) (\<lambda>_. ret rc))"

text \<open>
  Reporting and leaving: the report of report_sqlite_error is printed, then require_success
  ends the program.  msqlite3_pathname is the database path in all commands.
\<close>

definition sql_finish :: "(int \<times> string) res \<Rightarrow> int \<Rightarrow> unit act" where
  "sql_finish r succode =
     andthen (lift r) (\<lambda>(rc, out).
     andthen (if out = [] then ret () else print_to To_stderr out) (\<lambda>_. lift (require_success rc succode)))"

definition reporter :: "os \<Rightarrow> string \<Rightarrow> sqlite_fn \<Rightarrow> vararg list \<Rightarrow> (int \<times> string) res" where
  "reporter os path = report_sqlite_error (Some path) (os_sqlmsg os)"

definition xsql :: "os \<Rightarrow> sqlite_fn \<Rightarrow> sql_call \<Rightarrow> unit act" where
  "xsql os fn call =
     andthen (get w_cred_db) (\<lambda>path. andthen (sql_raw os call) (\<lambda>rc.
       sql_finish (run_sqlite3 (reporter os path) fn rc) SQLITE_OK))"

definition xsql_exec :: "os \<Rightarrow> string \<Rightarrow> unit act" where
  "xsql_exec os sql =
     andthen (get w_cred_db) (\<lambda>path. andthen (sql_raw os (Sql_exec sql)) (\<lambda>rc.
     andthen (lift (msqlite3_exec (reporter os path) rc sql (os_sqlmsg os) False)) (\<lambda>(rc, out, _).
       sql_finish (Ok (rc, out)) SQLITE_OK)))"

definition xsql_step :: "os \<Rightarrow> unit act" where
  "xsql_step os =
     andthen (get w_cred_db) (\<lambda>path. andthen (sql_raw os Sql_step) (\<lambda>rc.
       sql_finish (msqlite3_step (reporter os path) rc) SQLITE_DONE))"

text \<open>sqlite3_avail runs a statement that needs the key to be right.\<close>

definition SQLITE_AVAIL_SQLSTR :: string where
  "SQLITE_AVAIL_SQLSTR = ''SELECT count(*) FROM sqlite_master;''"

definition xsql_avail :: "os \<Rightarrow> unit act" where
  "xsql_avail os = xsql os Sqlite_avail (Sql_exec SQLITE_AVAIL_SQLSTR)"

text \<open>The binders, one parameter at a time.\<close>

definition xsql_bind :: "os \<Rightarrow> nat \<times> sql_value \<Rightarrow> unit act" where
  "xsql_bind os iv =
     andthen (get w_cred_db) (\<lambda>path. andthen (sql_raw os (Sql_bind (fst iv) (snd iv))) (\<lambda>rc.
       sql_finish
         (case snd iv of
            SqlNull \<Rightarrow> run_sqlite3 (reporter os path) Sqlite_bind_null rc
          | SqlText t \<Rightarrow> msqlite3_bind_text (reporter os path) rc t (-1)
          | SqlInt i \<Rightarrow> msqlite3_bind_int64 (reporter os path) rc i
          | SqlBlob b \<Rightarrow> msqlite3_bind_blob (reporter os path) rc (bytes_of b) (int (length b))) SQLITE_OK))"

fun all_acts :: "('x \<Rightarrow> unit act) \<Rightarrow> 'x list \<Rightarrow> unit act" where
  "all_acts f [] = ret ()"
| "all_acts f (x # xs) = andthen (f x) (\<lambda>_. all_acts f xs)"

section \<open>Keys from the terminal\<close>

definition EMPTY_KEY_MESSAGE :: string where
  "EMPTY_KEY_MESSAGE = NL # ''Empty keys are not allowed, try again.'' @ [NL]"

fun key_dialogue :: "string \<Rightarrow> input_event list \<Rightarrow> (out_stream \<times> string) list" where
  "key_dialogue msg (InLine line # evs) =
     (if line = [NL] then (To_stdout, msg) # (To_stderr, EMPTY_KEY_MESSAGE) # key_dialogue msg evs
      else [(To_stdout, msg)])"
| "key_dialogue msg _ = [(To_stdout, msg)]"

text \<open>read_cmdkey; the terminal is left without echo when the process stops in it.\<close>

definition ask_key :: "string \<Rightarrow> (size_t \<times> string option) act" where
  "ask_key msg s =
     (let w = world s;
          w1 = w\<lparr>w_out := w_out w @ key_dialogue msg (w_input w), w_tty := snd (termios_disable_echo (w_tty w))\<rparr>
      in case read_cmdkey (w_tty w) (w_input w) of
           Halt h \<Rightarrow> (Halt h, s\<lparr>world := w1\<rparr>)
         | Ok (len, key, tty, evs) \<Rightarrow> (Ok (len, key), s\<lparr>world := w1\<lparr>w_tty := tty, w_input := evs\<rparr>\<rparr>))"

section \<open>Leaving the program\<close>

text \<open>
  The registered functions of the commands.  The name of the journal file cannot fail to be
  built for a name the system has accepted.
\<close>

fun cleanup_effect :: "os \<Rightarrow> cleanup \<Rightarrow> pk_world \<Rightarrow> pk_world" where
  "cleanup_effect os Destroy_key w = w\<lparr>w_key := None\<rparr>"
| "cleanup_effect os Rm_cred_db w = unlink_file os (w_cred_db w) w"
| "cleanup_effect os Rm_cred_cc w = (case w_cred_cc w of None \<Rightarrow> w | Some p \<Rightarrow> unlink_file os p w)"
| "cleanup_effect os Rm_tmp_rec w = unlink_file os (w_tmp_rec w) w"
| "cleanup_effect os Rm_journal_file w =
     (case rm_journal_file (Some (w_cred_db w)) of Ok (Some p) \<Rightarrow> unlink_file os p w | _ \<Rightarrow> w)"

definition run_cleanup :: "os \<Rightarrow> cleanup \<Rightarrow> pk \<Rightarrow> pk" where
  "run_cleanup os c s = s\<lparr>world := cleanup_effect os c (world s)\<rparr>"

text \<open>
  \<open>exit(command->handle(...))\<close>: the status and the world after apply_atexit_chain; no result
  for undefined behaviour and for a process that waits.
\<close>

definition leave :: "os \<Rightarrow> int \<Rightarrow> pk \<Rightarrow> (int \<times> pk_world) option" where
  "leave os status s =
     map_option (\<lambda>s. (exit_status status, world s)) (apply_atexit_chain (run_cleanup os) s)"

fun process_end :: "os \<Rightarrow> int res \<times> pk \<Rightarrow> (int \<times> pk_world) option" where
  "process_end os (Ok status, s) = leave os status s"
| "process_end os (Halt (Exit status), s) = leave os status s"
| "process_end os (Halt (Die _), s) = leave os EXIT_FAILURE s"
| "process_end os (Halt (Bug _), s) = leave os EXIT_FAILURE s"
| "process_end os (Halt (Undef _), s) = None"
| "process_end os (Halt Waits, s) = None"

section \<open>Laws\<close>

lemma andthen_assoc [act_simps]: "andthen (andthen m f) g = andthen m (\<lambda>x. andthen (f x) g)"
  by (auto simp: andthen_def fun_eq_iff split: prod.split res.split)

lemma andthen_ret [act_simps]: "andthen (ret x) f = f x" "andthen m ret = m"
  by (auto simp: andthen_def ret_def fun_eq_iff split: prod.split res.split)

lemma andthen_ret_at [act_simps]: "andthen (\<lambda>s. ret x (h s)) f s = f x (h s)"
  by (simp add: andthen_def ret_def)

lemma andthen_stop [act_simps]: "andthen (stop h) f = stop h"
  by (auto simp: andthen_def stop_def fun_eq_iff)

lemma andthen_lift [act_simps]: "andthen (lift (Ok x)) f = f x" "andthen (lift (Halt h)) f = stop h"
  by (auto simp: andthen_def lift_def stop_def fun_eq_iff)

lemma andthen_change [act_simps]: "andthen (change g) f s = f () (s\<lparr>world := g (world s)\<rparr>)"
  by (simp add: andthen_def change_def)

lemma andthen_get [act_simps]: "andthen (get g) f s = f (g (world s)) s"
  by (simp add: andthen_def get_def)

lemma andthen_push [act_simps]: "andthen (push_cleanup c) f s = f () (atexit_chain_push c s)"
  by (simp add: andthen_def push_cleanup_def)

lemma andthen_pop [act_simps]: "andthen pop_cleanup f s = f () (snd (atexit_chain_pop s))"
  by (simp add: andthen_def pop_cleanup_def)

lemma pop_world [simp]: "world (snd (atexit_chain_pop s)) = world s"
  by (simp add: atexit_chain_pop_def split: list.split)

lemma push_world [simp]: "world (atexit_chain_push c s) = world s"
  by (simp add: atexit_chain_push_def)

lemma cleanup_acts: "acts_on_world (run_cleanup os) (cleanup_effect os) F"
  by (simp add: acts_on_world_def run_cleanup_def)

lemma leave_all:
  "leave os n s = Some (exit_status n, fold (cleanup_effect os) (atexit_func s) (world s))"
  using apply_runs_all [OF cleanup_acts, of os s] by (simp add: leave_def)

text \<open>
  Triples: \<open>Q\<close> holds of the value and the state when the action returns, \<open>E\<close> of the reason
  and the state when it stops.
\<close>

definition triple :: "(pk \<Rightarrow> bool) \<Rightarrow> 'a act \<Rightarrow> ('a \<Rightarrow> pk \<Rightarrow> bool) \<Rightarrow> (halt \<Rightarrow> pk \<Rightarrow> bool) \<Rightarrow> bool" where
  "triple P m Q E \<longleftrightarrow> (\<forall>s. P s \<longrightarrow> (case m s of (Ok x, s') \<Rightarrow> Q x s' | (Halt h, s') \<Rightarrow> E h s'))"

named_theorems triples \<open>rules for the actions\<close>

lemma tripleI: "(\<And>s. P s \<Longrightarrow> case m s of (Ok x, s') \<Rightarrow> Q x s' | (Halt h, s') \<Rightarrow> E h s') \<Longrightarrow> triple P m Q E"
  by (simp add: triple_def)

lemma triple_andthen:
  assumes "triple P m R E" "\<And>x. triple (R x) (f x) Q E"
  shows "triple P (andthen m f) Q E"
proof (rule tripleI)
  fix s assume "P s"
  then have m: "case m s of (Ok x, s') \<Rightarrow> R x s' | (Halt h, s') \<Rightarrow> E h s'"
    using assms(1) by (simp add: triple_def)
  obtain r s1 where rs: "m s = (r, s1)" by fastforce
  show "case andthen m f s of (Ok x, s') \<Rightarrow> Q x s' | (Halt h, s') \<Rightarrow> E h s'"
    using m rs assms(2) by (cases r) (simp_all add: andthen_def triple_def)
qed

lemma triple_ret: "(\<And>s. P s \<Longrightarrow> Q x s) \<Longrightarrow> triple P (ret x) Q E"
  by (simp add: triple_def ret_def)

lemma triple_stop: "(\<And>s. P s \<Longrightarrow> E h s) \<Longrightarrow> triple P (stop h) Q E"
  by (simp add: triple_def stop_def)

lemma triple_lift: "(\<And>s x. P s \<Longrightarrow> r = Ok x \<Longrightarrow> Q x s) \<Longrightarrow> (\<And>s h. P s \<Longrightarrow> r = Halt h \<Longrightarrow> E h s) \<Longrightarrow> triple P (lift r) Q E"
  by (cases r) (simp_all add: triple_def lift_def)

lemma triple_change: "(\<And>s. P s \<Longrightarrow> Q () (s\<lparr>world := f (world s)\<rparr>)) \<Longrightarrow> triple P (change f) Q E"
  by (simp add: triple_def change_def)

lemma triple_get: "(\<And>s. P s \<Longrightarrow> Q (f (world s)) s) \<Longrightarrow> triple P (get f) Q E"
  by (simp add: triple_def get_def)

lemma triple_push: "(\<And>s. P s \<Longrightarrow> Q () (atexit_chain_push c s)) \<Longrightarrow> triple P (push_cleanup c) Q E"
  by (simp add: triple_def push_cleanup_def)

lemma triple_pop: "(\<And>s. P s \<Longrightarrow> Q () (snd (atexit_chain_pop s))) \<Longrightarrow> triple P pop_cleanup Q E"
  by (simp add: triple_def pop_cleanup_def)

lemma triple_pre: "triple P m Q E \<Longrightarrow> (\<And>s. P' s \<Longrightarrow> P s) \<Longrightarrow> triple P' m Q E"
  by (simp add: triple_def)

lemma triple_post:
  assumes "triple P m Q E" "\<And>x s. Q x s \<Longrightarrow> Q' x s" "\<And>h s. E h s \<Longrightarrow> E' h s"
  shows "triple P m Q' E'"
proof (rule tripleI)
  fix s assume "P s"
  then have m: "case m s of (Ok x, s') \<Rightarrow> Q x s' | (Halt h, s') \<Rightarrow> E h s'"
    using assms(1) by (simp add: triple_def)
  obtain r s1 where rs: "m s = (r, s1)" by fastforce
  show "case m s of (Ok x, s') \<Rightarrow> Q' x s' | (Halt h, s') \<Rightarrow> E' h s'"
    using m rs assms(2,3) by (cases r) simp_all
qed

lemma triple_if: "(b \<Longrightarrow> triple P m Q E) \<Longrightarrow> (\<not> b \<Longrightarrow> triple P n Q E) \<Longrightarrow> triple P (if b then m else n) Q E"
  by simp

lemma triple_conj: "triple P m Q E \<Longrightarrow> triple P' m Q' E \<Longrightarrow> triple (\<lambda>s. P s \<and> P' s) m (\<lambda>x s. Q x s \<and> Q' x s) E"
  unfolding triple_def by (auto split: prod.splits res.splits)

lemma triple_apply:
  assumes "triple P m Q E" "P s" "m s = (r, s')"
  shows "case r of Ok x \<Rightarrow> Q x s' | Halt h \<Rightarrow> E h s'"
  using assms by (cases r) (auto simp: triple_def)

section \<open>Actions that only talk\<close>

text \<open>
  \<open>talks w w'\<close>: only what was written, the terminal and the input differ.  An action is
  \<open>quiet\<close> if that is all it does to the program, whether it returns or stops.
\<close>

definition talks :: "pk_world \<Rightarrow> pk_world \<Rightarrow> bool" where
  "talks w w' \<longleftrightarrow> w' = w\<lparr>w_out := w_out w', w_tty := w_tty w', w_input := w_input w'\<rparr>"

definition quiet :: "'a act \<Rightarrow> bool" where
  "quiet m \<longleftrightarrow> (\<forall>s. atexit_func (snd (m s)) = atexit_func s \<and> talks (world s) (world (snd (m s))))"

named_theorems quiet_rules \<open>actions that only talk\<close>

lemma talks_refl [simp]: "talks w w"
  by (simp add: talks_def)

lemma talks_fields:
  assumes "talks w w'"
  shows "w_files w' = w_files w" "w_sql w' = w_sql w" "w_key w' = w_key w" "w_cred_db w' = w_cred_db w"
    "w_cred_cc w' = w_cred_cc w" "w_tmp_rec w' = w_tmp_rec w" "w_ignored w' = w_ignored w"
    "w_editor w' = w_editor w" "w_spinner w' = w_spinner w"
  using arg_cong [OF assms [unfolded talks_def], of w_files] arg_cong [OF assms [unfolded talks_def], of w_sql]
    arg_cong [OF assms [unfolded talks_def], of w_key] arg_cong [OF assms [unfolded talks_def], of w_cred_db]
    arg_cong [OF assms [unfolded talks_def], of w_cred_cc] arg_cong [OF assms [unfolded talks_def], of w_tmp_rec]
    arg_cong [OF assms [unfolded talks_def], of w_ignored] arg_cong [OF assms [unfolded talks_def], of w_editor]
    arg_cong [OF assms [unfolded talks_def], of w_spinner]
  by simp_all

lemma talks_iff:
  "talks w w' \<longleftrightarrow> w_files w' = w_files w \<and> w_sql w' = w_sql w \<and> w_key w' = w_key w \<and> w_cred_db w' = w_cred_db w
    \<and> w_cred_cc w' = w_cred_cc w \<and> w_tmp_rec w' = w_tmp_rec w \<and> w_ignored w' = w_ignored w
    \<and> w_editor w' = w_editor w \<and> w_spinner w' = w_spinner w"
  by (rule iffI) (simp_all add: talks_fields, simp add: talks_def)

lemma talks_trans: "talks w w' \<Longrightarrow> talks w' w'' \<Longrightarrow> talks w w''"
  by (simp add: talks_iff)

lemma quiet_andthen [quiet_rules]:
  assumes "quiet m" "\<And>x. quiet (f x)"
  shows "quiet (andthen m f)"
  unfolding quiet_def
proof
  fix s
  obtain r s1 where m: "m s = (r, s1)" by fastforce
  then have 1: "atexit_func s1 = atexit_func s" "talks (world s) (world s1)"
    using assms(1) unfolding quiet_def by (metis snd_conv)+
  show "atexit_func (snd (andthen m f s)) = atexit_func s \<and> talks (world s) (world (snd (andthen m f s)))"
  proof (cases r)
    case (Ok x)
    have "atexit_func (snd (f x s1)) = atexit_func s1" "talks (world s1) (world (snd (f x s1)))"
      using assms(2) unfolding quiet_def by blast+
    then show ?thesis using m 1 Ok talks_trans by (simp add: andthen_def)
  qed (use m 1 in \<open>simp add: andthen_def\<close>)
qed

lemma quiet_basic [quiet_rules]:
  "quiet (ret x)" "quiet (stop h)" "quiet (lift r)" "quiet (get g)" "quiet (print_to st txt)"
  by (simp_all add: quiet_def ret_def stop_def lift_def get_def print_to_def change_def talks_iff)

lemma quiet_log [quiet_rules]: "quiet (change (\<lambda>w. w\<lparr>w_out := w_out w @ g w\<rparr>))"
  by (simp add: quiet_def change_def talks_iff)

lemma quiet_if [quiet_rules]: "quiet m \<Longrightarrow> quiet n \<Longrightarrow> quiet (if b then m else n)"
  by simp

lemma quiet_say [quiet_rules]:
  "quiet (say_error d t)" "quiet (say_warning t)" "quiet (say_note t)" "quiet (exit_error d t)"
  by (auto simp: say_error_def say_warning_def say_note_def exit_error_def split: prod.split intro!: quiet_rules)

lemma quiet_write_stdout [quiet_rules]: "quiet (write_stdout os content)"
  by (auto simp: write_stdout_def split: option.split intro!: quiet_rules)

lemma quiet_avail_dir [quiet_rules]: "quiet (avail_dir_of os p)"
  by (simp add: avail_dir_of_def quiet_rules)

lemma quiet_sql_finish [quiet_rules]: "quiet (sql_finish r c)"
  by (auto simp: sql_finish_def split: prod.split intro!: quiet_rules)

lemma quiet_ask_key [quiet_rules]: "quiet (ask_key msg)"
  by (auto simp: quiet_def ask_key_def Let_def talks_iff split: res.split prod.split)

text \<open>An assertion that talking does not touch.\<close>

definition calm :: "(pk \<Rightarrow> bool) \<Rightarrow> bool" where
  "calm P \<longleftrightarrow> (\<forall>s s'. P s \<longrightarrow> atexit_func s' = atexit_func s \<longrightarrow> talks (world s) (world s') \<longrightarrow> P s')"

lemma triple_quiet:
  assumes "quiet m" "calm P"
  shows "triple P m (\<lambda>_. P) (\<lambda>_. P)"
proof (rule tripleI)
  fix s assume "P s"
  moreover obtain r s1 where m: "m s = (r, s1)" by fastforce
  moreover have "atexit_func s1 = atexit_func s" "talks (world s) (world s1)"
    using assms(1) m unfolding quiet_def by (metis snd_conv)+
  ultimately show "case m s of (Ok x, s') \<Rightarrow> P s' | (Halt h, s') \<Rightarrow> P s'"
    using assms(2) unfolding calm_def by (cases r) auto
qed

lemma quiet_run: "m s = (r, s') \<Longrightarrow> quiet m \<Longrightarrow> calm P \<Longrightarrow> P s \<Longrightarrow> P s'"
  unfolding quiet_def calm_def by (metis snd_conv)

text \<open>One step of a command: what a quiet action, a call to sqlite3 or a written file does to an assertion.\<close>

lemma triple_quiet_step:
  assumes "quiet m" "calm P" "\<And>h s. P s \<Longrightarrow> E h s" "\<And>x. triple P (f x) Q E"
  shows "triple P (andthen m f) Q E"
  by (rule triple_andthen [OF triple_post [OF triple_quiet [OF assms(1,2)]]], assumption) (rule assms(3,4), assumption?)+

definition after_sql :: "sql_call \<Rightarrow> string option \<Rightarrow> pk_world \<Rightarrow> pk_world" where
  "after_sql call db w = w\<lparr>w_sql := w_sql w @ [call], w_files := (w_files w)(w_cred_db w := db)\<rparr>"

lemma sql_raw_result: "\<exists>rc db. sql_raw os call s = (Ok rc, s\<lparr>world := after_sql call db (world s)\<rparr>)"
  by (cases "os_sql os (w_sql (world s)) call") (auto simp: sql_raw_def act_simps ret_def after_sql_def andthen_def get_def change_def)

lemma triple_sql_raw:
  assumes "\<And>s rc db. P s \<Longrightarrow> Q rc (s\<lparr>world := after_sql call db (world s)\<rparr>)"
  shows "triple P (sql_raw os call) Q E"
proof (rule tripleI)
  fix s assume "P s"
  then show "case sql_raw os call s of (Ok x, s') \<Rightarrow> Q x s' | (Halt h, s') \<Rightarrow> E h s'"
    using sql_raw_result [of os call s] assms by auto
qed

lemma triple_sql:
  assumes "\<And>s db. P s \<Longrightarrow> R (s\<lparr>world := after_sql call db (world s)\<rparr>)" "calm R" "\<And>h s. R s \<Longrightarrow> E h s"
    "\<And>rc. quiet (g rc)"
  shows "triple P (andthen (sql_raw os call) g) (\<lambda>_. R) E"
  by (rule triple_andthen [OF triple_sql_raw [where Q = "\<lambda>_. R"]], erule assms(1))
     (rule triple_post [OF triple_quiet [OF assms(4,2)]], assumption, erule assms(3))

lemma triple_get_eq:
  "(\<And>s. P s \<Longrightarrow> f (world s) = x) \<Longrightarrow> triple P (g x) Q E \<Longrightarrow> triple P (andthen (get f) g) Q E"
  by (simp add: triple_def act_simps)

lemma triple_change_step:
  "(\<And>s. P s \<Longrightarrow> R (s\<lparr>world := g (world s)\<rparr>)) \<Longrightarrow> triple R (f ()) Q E \<Longrightarrow> triple P (andthen (change g) f) Q E"
  by (simp add: triple_def act_simps)

lemma triple_option:
  "(x = None \<Longrightarrow> triple P m Q E) \<Longrightarrow> (\<And>y. x = Some y \<Longrightarrow> triple P (f y) Q E)
   \<Longrightarrow> triple P (case x of None \<Rightarrow> m | Some y \<Rightarrow> f y) Q E"
  by (cases x) simp_all

lemma triple_say_error:
  assumes "calm P" "\<And>h s. P s \<Longrightarrow> E h s"
  shows "triple P (say_error d t) (\<lambda>r s. r = -1 \<and> P s) E"
proof (rule tripleI)
  fix s assume P: "P s"
  obtain r s1 where m: "say_error d t s = (r, s1)" by fastforce
  have "P s1" using quiet_run [of "say_error d t" s r s1 P] m assms(1) P by (simp add: quiet_rules)
  moreover have "r = Ok x \<Longrightarrow> x = -1" for x
    using m by (auto simp: say_error_def error_routine_def andthen_def lift_def print_to_def change_def ret_def bind_res_eq_Ok
        split: res.splits prod.splits)
  ultimately show "case say_error d t s of (Ok x, s') \<Rightarrow> x = -1 \<and> P s' | (Halt h, s') \<Rightarrow> E h s'"
    using m assms(2) by (cases r) auto
qed

lemma triple_get_any: "(\<And>x. triple P (f x) Q E) \<Longrightarrow> triple P (andthen (get g) f) Q E"
  by (simp add: triple_def andthen_get)

lemma triple_xsql:
  assumes "\<And>s db. P s \<Longrightarrow> R (s\<lparr>world := after_sql call db (world s)\<rparr>)" "calm R" "\<And>h s. R s \<Longrightarrow> E h s"
  shows "triple P (xsql os fn call) (\<lambda>_. R) E"
  unfolding xsql_def by (intro triple_get_any triple_sql assms quiet_rules)

lemma triple_xsql_exec:
  assumes "\<And>s db. P s \<Longrightarrow> R (s\<lparr>world := after_sql (Sql_exec sql) db (world s)\<rparr>)" "calm R" "\<And>h s. R s \<Longrightarrow> E h s"
  shows "triple P (xsql_exec os sql) (\<lambda>_. R) E"
  unfolding xsql_exec_def by (intro triple_get_any triple_sql assms) (auto split: prod.split intro!: quiet_rules)

lemma triple_xsql_step:
  assumes "\<And>s db. P s \<Longrightarrow> R (s\<lparr>world := after_sql Sql_step db (world s)\<rparr>)" "calm R" "\<And>h s. R s \<Longrightarrow> E h s"
  shows "triple P (xsql_step os) (\<lambda>_. R) E"
  unfolding xsql_step_def by (intro triple_get_any triple_sql assms quiet_rules)

lemma triple_xsql_bind:
  assumes "\<And>s db call. P s \<Longrightarrow> R (s\<lparr>world := after_sql (Sql_bind (fst iv) (snd iv)) db (world s)\<rparr>)" "calm R"
    "\<And>h s. R s \<Longrightarrow> E h s"
  shows "triple P (xsql_bind os iv) (\<lambda>_. R) E"
  unfolding xsql_bind_def by (intro triple_get_any triple_sql assms quiet_rules)

lemma triple_populate:
  assumes "\<And>s. P s \<Longrightarrow> R s" "\<And>s c. P s \<Longrightarrow> R (s\<lparr>world := set_file p c (world s)\<rparr>)" "\<And>h s. R s \<Longrightarrow> E h s"
  shows "triple P (populate os p content) (\<lambda>_. R) E"
  using assms by (auto intro!: tripleI simp: populate_def andthen_def ret_def change_def stop_def lift_def
      split: sum.splits option.splits res.splits)

section \<open>Files that are covered by a cleanup function\<close>

definition cleanup_path :: "pk_world \<Rightarrow> cleanup \<Rightarrow> string option" where
  "cleanup_path w c =
     (case c of
        Destroy_key \<Rightarrow> None
      | Rm_cred_db \<Rightarrow> Some (w_cred_db w)
      | Rm_cred_cc \<Rightarrow> w_cred_cc w
      | Rm_tmp_rec \<Rightarrow> Some (w_tmp_rec w)
      | Rm_journal_file \<Rightarrow> (case rm_journal_file (Some (w_cred_db w)) of Ok p \<Rightarrow> p | Halt _ \<Rightarrow> None))"

text \<open>
  Every file is as it was (\<open>F\<close>), or is one of \<open>gone\<close> and does not exist, or is one of \<open>free\<close>,
  or will be removed by a function of the chain.
\<close>

definition tidy :: "string set \<Rightarrow> string set \<Rightarrow> (string \<rightharpoonup> string) \<Rightarrow> cleanup list \<Rightarrow> pk_world \<Rightarrow> bool" where
  "tidy gone free F cs w \<longleftrightarrow>
     (\<forall>p. w_files w p = F p \<or> p \<in> gone \<and> w_files w p = None \<or> p \<in> free \<or> (\<exists>c\<in>set cs. cleanup_path w c = Some p))"

lemma cleanup_path_cong:
  "w_cred_db w' = w_cred_db w \<Longrightarrow> w_cred_cc w' = w_cred_cc w \<Longrightarrow> w_tmp_rec w' = w_tmp_rec w
   \<Longrightarrow> cleanup_path w' c = cleanup_path w c"
  by (cases c) (simp_all add: cleanup_path_def)

lemma tidy_change:
  assumes "tidy gone free F cs w"
    "w_cred_db w' = w_cred_db w" "w_cred_cc w' = w_cred_cc w" "w_tmp_rec w' = w_tmp_rec w"
    "\<And>p. w_files w' p = w_files w p \<or> p \<in> gone \<and> w_files w' p = None \<or> p \<in> free
      \<or> (\<exists>c\<in>set cs. cleanup_path w c = Some p)"
  shows "tidy gone free F cs w'"
  unfolding tidy_def cleanup_path_cong [OF assms(2-4)]
proof
  fix p
  show "w_files w' p = F p \<or> p \<in> gone \<and> w_files w' p = None \<or> p \<in> free \<or> (\<exists>c\<in>set cs. cleanup_path w c = Some p)"
    using assms(1) [unfolded tidy_def, THEN spec, of p] assms(5) [of p] by auto
qed

lemma unlink_paths [simp]: "cleanup_path (unlink_file os q w) c = cleanup_path w c"
  by (cases c) (simp_all add: cleanup_path_def unlink_file_def)

lemma cleanup_effect_path:
  "cleanup_effect os c w = (if c = Destroy_key then w\<lparr>w_key := None\<rparr>
     else case cleanup_path w c of None \<Rightarrow> w | Some p \<Rightarrow> unlink_file os p w)"
  by (cases c) (auto simp: cleanup_path_def split: res.splits option.splits)

lemma cleanup_paths [simp]: "cleanup_path (cleanup_effect os c w) d = cleanup_path w d"
  by (cases d) (auto simp: cleanup_effect_path cleanup_path_def unlink_file_def split: option.splits)

lemma tidy_cleanup:
  assumes "tidy gone free F (c # cs) w" "\<And>p. cleanup_path w c = Some p \<Longrightarrow> p \<in> gone \<and> os_unlink os p = None"
  shows "tidy gone free F cs (cleanup_effect os c w)"
  unfolding tidy_def
proof
  fix p
  let ?w = "cleanup_effect os c w"
  have keep: "w_files ?w p = w_files w p \<or> p \<in> gone \<and> w_files ?w p = None"
    using assms(2) by (auto simp: cleanup_effect_path unlink_file_def split: option.splits)
  have "cleanup_path w c = Some p \<Longrightarrow> p \<in> gone \<and> w_files ?w p = None"
    using assms(2) by (cases c) (auto simp: cleanup_effect_path unlink_file_def cleanup_path_def split: option.splits)
  then show "w_files ?w p = F p \<or> p \<in> gone \<and> w_files ?w p = None \<or> p \<in> free \<or> (\<exists>d\<in>set cs. cleanup_path ?w d = Some p)"
    using assms(1) keep unfolding tidy_def by (auto dest: spec [of _ p])
qed

definition removable :: "os \<Rightarrow> string set \<Rightarrow> cleanup list \<Rightarrow> pk_world \<Rightarrow> bool" where
  "removable os gone cs w \<longleftrightarrow> (\<forall>c\<in>set cs. \<forall>p. cleanup_path w c = Some p \<longrightarrow> p \<in> gone \<and> os_unlink os p = None)"

lemma tidy_fold:
  "tidy gone free F cs w \<Longrightarrow> removable os gone cs w \<Longrightarrow> tidy gone free F [] (fold (cleanup_effect os) cs w)"
proof (induction cs arbitrary: w)
  case (Cons c cs)
  have "tidy gone free F cs (cleanup_effect os c w)"
    using tidy_cleanup [OF Cons.prems(1), of os] Cons.prems(2) by (simp add: removable_def)
  moreover have "removable os gone cs (cleanup_effect os c w)"
    using Cons.prems(2) by (simp add: removable_def)
  ultimately show ?case using Cons.IH by simp
qed simp

lemma tidy_leave:
  assumes "tidy gone free F (atexit_func s) (world s)" "leave os n s = Some (st, w)"
    "removable os gone (atexit_func s) (world s)"
  shows "\<forall>p. w_files w p = F p \<or> p \<in> gone \<and> w_files w p = None \<or> p \<in> free"
  using tidy_fold [OF assms(1,3)] assms(2) by (auto simp: leave_all tidy_def)

lemma tidy_talks: "tidy gone free F cs w \<Longrightarrow> talks w w' \<Longrightarrow> tidy gone free F cs w'"
  by (erule tidy_change) (simp_all add: talks_iff)

lemma process_end_cases:
  assumes "process_end os (r, s) = Some (st, w)"
  shows "\<exists>n. leave os n s = Some (st, w) \<and> (\<forall>x. r = Ok x \<longrightarrow> n = x)"
  using assms by (cases "(os, r, s)" rule: process_end.cases) auto

section \<open>Calls that succeed\<close>

lemma andthen_run [act_simps]:
  "m s = (Ok x, s') \<Longrightarrow> andthen m f s = f x s'"
  "m s = (Halt h, s') \<Longrightarrow> andthen m f s = (Halt h, s')"
  by (simp_all add: andthen_def)

text \<open>A report that fits the buffer is printed.\<close>

lemma print_run: "print_to st t s = (Ok (), s\<lparr>world := (world s)\<lparr>w_out := w_out (world s) @ [(st, t)]\<rparr>\<rparr>)"
  by (simp add: print_to_def change_def)

lemma say_error_run:
  assumes "length t + length (detail_text d) < 4000"
  shows "say_error d t s = (Ok (-1), s\<lparr>world := (world s)\<lparr>w_out := w_out (world s)
      @ [(To_stderr, ''error: '' @ t @ detail_text d @ [NL])]\<rparr>\<rparr>)"
  using vreportf_fits [of "''error: ''" t d] assms
  by (simp add: say_error_def error_routine_def act_simps print_run ret_def REPORT_SIZE_def)

text \<open>The state after a call to sqlite3.\<close>

definition sql_next :: "os \<Rightarrow> sql_call \<Rightarrow> pk \<Rightarrow> pk" where
  "sql_next os call s = s\<lparr>world := after_sql call (snd (os_sql os (w_sql (world s)) call)) (world s)\<rparr>"

lemma sql_raw_run: "sql_raw os call s = (Ok (fst (os_sql os (w_sql (world s)) call)), sql_next os call s)"
  by (cases "os_sql os (w_sql (world s)) call")
     (simp add: sql_raw_def act_simps ret_def after_sql_def sql_next_def)

lemma sql_next_fields [simp]:
  "w_sql (world (sql_next os call s)) = w_sql (world s) @ [call]"
  "w_out (world (sql_next os call s)) = w_out (world s)"
  "w_key (world (sql_next os call s)) = w_key (world s)"
  "w_cred_db (world (sql_next os call s)) = w_cred_db (world s)"
  "w_cred_cc (world (sql_next os call s)) = w_cred_cc (world s)"
  "w_tmp_rec (world (sql_next os call s)) = w_tmp_rec (world s)"
  "w_input (world (sql_next os call s)) = w_input (world s)"
  "w_ignored (world (sql_next os call s)) = w_ignored (world s)"
  "w_tty (world (sql_next os call s)) = w_tty (world s)"
  "p \<noteq> w_cred_db (world s) \<Longrightarrow> w_files (world (sql_next os call s)) p = w_files (world s) p"
  "atexit_func (sql_next os call s) = atexit_func s"
  by (simp_all add: sql_next_def after_sql_def)

definition sql_fine :: "os \<Rightarrow> bool" where
  "sql_fine os \<longleftrightarrow> (\<forall>calls call. fst (os_sql os calls call) = (if call = Sql_step then SQLITE_DONE else SQLITE_OK))"

lemma xsql_run:
  "fst (os_sql os (w_sql (world s)) call) = SQLITE_OK \<Longrightarrow> xsql os fn call s = (Ok (), sql_next os call s)"
  by (simp add: xsql_def act_simps sql_raw_run sql_finish_def run_sqlite3_def require_success_def ret_def lift_def)

lemma xsql_exec_run:
  "fst (os_sql os (w_sql (world s)) (Sql_exec sql)) = SQLITE_OK \<Longrightarrow> xsql_exec os sql s = (Ok (), sql_next os (Sql_exec sql) s)"
  by (simp add: xsql_exec_def act_simps sql_raw_run sql_finish_def msqlite3_exec_def require_success_def ret_def lift_def)

lemma xsql_step_run:
  "fst (os_sql os (w_sql (world s)) Sql_step) = SQLITE_DONE \<Longrightarrow> xsql_step os s = (Ok (), sql_next os Sql_step s)"
  by (simp add: xsql_step_def act_simps sql_raw_run sql_finish_def msqlite3_step_def require_success_def ret_def lift_def)

lemma xsql_bind_run:
  "fst (os_sql os (w_sql (world s)) (Sql_bind (fst iv) (snd iv))) = SQLITE_OK
   \<Longrightarrow> xsql_bind os iv s = (Ok (), sql_next os (Sql_bind (fst iv) (snd iv)) s)"
  by (cases "snd iv") (simp_all add: xsql_bind_def act_simps sql_raw_run sql_finish_def run_sqlite3_def
      msqlite3_bind_text_def msqlite3_bind_int64_def msqlite3_bind_blob_def require_success_def ret_def lift_def)

lemma xsql_open_fails:
  assumes "fst (os_sql os (w_sql (world s)) call) \<noteq> SQLITE_OK" "length (w_cred_db (world s)) + length (os_sqlmsg os) < 3000"
    "fn \<in> {Sqlite_open, Sqlite_open_v2}"
  shows "\<exists>out. xsql os fn call s = (Halt (Exit EXIT_FAILURE),
    (sql_next os call s)\<lparr>world := (world (sql_next os call s))\<lparr>w_out := w_out (world s) @ [(To_stderr, out)]\<rparr>\<rparr>)"
proof -
  let ?t = "''unable to open db file '' @ squote (w_cred_db (world s))"
  obtain out where out: "error_sqlerr (os_sqlmsg os) ?t = Ok (-1, out)" "out \<noteq> []"
    using vreportf_fits [of "''error: ''" ?t "Some (os_sqlmsg os)"] assms(2)
    by (simp add: error_sqlerr_def error_routine_def detail_text_def REPORT_SIZE_def squote_def)
  have "run_sqlite3 (reporter os (w_cred_db (world s))) fn (fst (os_sql os (w_sql (world s)) call)) = Ok (-1, out)"
    using assms(1,3) out by (auto simp: run_sqlite3_def reporter_def report_sqlite_error_def)
  then show ?thesis
    using out(2) by (intro exI [of _ out]) (simp add: xsql_def act_simps sql_raw_run sql_finish_def require_success_def
        lift_def print_to_def SQLITE_OK_def)
qed

text \<open>A system on which everything but sqlite3 succeeds, and a program that has just started in it.\<close>

definition sample_os :: "(sql_call list \<Rightarrow> sql_call \<Rightarrow> int \<times> string option) \<Rightarrow> os" where
  "sample_os sql = \<lparr>os_unlink = (\<lambda>_. None), os_mkdir = (\<lambda>_. None), os_wx = (\<lambda>_. True), os_open = (\<lambda>_. Inr 3),
     os_write = (\<lambda>_. [Count 65]), os_errtext = ''e'', os_rand = (\<lambda>n. Some (replicate n 0)),
     os_sha256 = (\<lambda>_. Some (replicate 32 0)), os_sql = sql, os_sqlmsg = ''no'', os_rowid = 1,
     os_stat = (\<lambda>_. None), os_access = (\<lambda>_. AccNoent), os_open_rd = (\<lambda>_. Inr 3), os_read = (\<lambda>_. [Count 65]),
     os_editor = sample_proc None, os_spinner = sample_proc None, os_edit = (\<lambda>_ _ files. files),
     os_getenv = Map.empty, os_stdout = [Count 67], os_build = (\<lambda>name. name), os_getcwd = (\<lambda>_. Inr ''/''), os_euid = 0, os_egid = 0,
     os_filestat = (\<lambda>_. Inl ENOENT)\<rparr>"

lemma sample_os_simps [simp]:
  "os_unlink (sample_os sql) p = None" "os_mkdir (sample_os sql) p = None" "os_wx (sample_os sql) p"
  "os_open (sample_os sql) p = Inr 3" "os_write (sample_os sql) p = [Count 65]" "os_errtext (sample_os sql) = ''e''"
  "os_sql (sample_os sql) = sql" "os_sqlmsg (sample_os sql) = ''no''" "os_rowid (sample_os sql) = 1"
  "os_access (sample_os sql) p = AccNoent" "os_open_rd (sample_os sql) p = Inr 3" "os_read (sample_os sql) p = [Count 65]"
  "os_editor (sample_os sql) = sample_proc None" "os_spinner (sample_os sql) = sample_proc None"
  "os_edit (sample_os sql) ed p files = files" "os_sha256 (sample_os sql) m = Some (replicate 32 0)"
  by (simp_all add: sample_os_def)

definition sample_pk :: pk where
  "sample_pk = \<lparr>atexit_func = [], world = \<lparr>w_files = Map.empty, w_out = [],
     w_tty = \<lparr>echo = True, can_setattr = True\<rparr>, w_input = [], w_sql = [], w_key = None,
     w_ignored = {}, w_cred_db = ''db'', w_cred_cc = Some ''cc'', w_tmp_rec = ''rec'', w_editor = Some ''vi'',
     w_spinner = MarkPtr\<rparr>\<rparr>"

end
