(* ===== verification/Steps.thy ===== *)
theory Steps
  imports Running Option_Types
begin

text \<open>
  What the commands share: running the option parser on their variables, unlocking the
  database, and the contract under which a command is proved to leave no file behind.
\<close>

section \<open>Running the option parser\<close>

definition DEFAULT_OPT_ARGH_INDENT :: nat where "DEFAULT_OPT_ARGH_INDENT = 23"

definition run_parser ::
    "os \<Rightarrow> nat \<Rightarrow> cells \<Rightarrow> nat \<Rightarrow> string option list \<Rightarrow> string \<Rightarrow> opt list \<Rightarrow> string list
       \<Rightarrow> command_parser_flag set \<Rightarrow> (nat \<times> string option list \<times> cells) act" where
  "run_parser os indent m argc args prefix opts usages flags =
     andthen (lift (parse_options (os_stat os) indent m argc args prefix opts usages flags)) (\<lambda>(e, ctx).
     andthen (change (\<lambda>w. w\<lparr>w_out := w_out w @ ctx_log ctx\<rparr>)) (\<lambda>_.
       case e of Returned n \<Rightarrow> ret (n, ctx_args ctx, ctx_cells ctx) | Exited st \<Rightarrow> stop (Exit st)))"

definition int_var :: "cells \<Rightarrow> addr \<Rightarrow> int" where
  "int_var m a = (case m a of Some (IntCell i) \<Rightarrow> i | _ \<Rightarrow> 0)"

definition uint_var :: "cells \<Rightarrow> addr \<Rightarrow> uint" where
  "uint_var m a = (case m a of Some (UintCell u) \<Rightarrow> u | _ \<Rightarrow> 0)"

definition str_var :: "cells \<Rightarrow> addr \<Rightarrow> strptr" where
  "str_var m a = (case m a of Some (StrCell p) \<Rightarrow> p | _ \<Rightarrow> NullPtr)"

text \<open>No option of the commands stores the mark -1.\<close>

definition ptr_text :: "strptr \<Rightarrow> string option" where
  "ptr_text p = (case p of StrPtr s \<Rightarrow> Some s | _ \<Rightarrow> None)"

lemma parser_run:
  assumes "parse_options (os_stat os) indent m argc args pfx opts us fl = Ok (Returned n, ctx)" "ctx_log ctx = []"
  shows "run_parser os indent m argc args pfx opts us fl s = (Ok (n, ctx_args ctx, ctx_cells ctx), s)"
  using assms by (simp add: run_parser_def act_simps ret_def)

text \<open>Running the parser on given words.\<close>

lemmas parse_evals = run_parser_def parse_options_def start_context_def parse_loop.simps parse_option_next_def arg_at_def
  parse_long_option_def match_long_def argstr_end_def accept_rest_def strncmp_eq_def category_xor_def name_of_def
  get_arg_def get_arg_routine_def get_arg_value_def get_arg_str_def next_arg_def store_int_def store_str_def
  validate_parsed_value_def finish_parse_def clean_cmdmode_list_def Let_def
  option_zero_def mk_OPTION_END_def mk_OPTION_GROUP_def OPTION_SWITCH_F_def mk_OPTION_SWITCH_def
  OPTION_STRING_F_def mk_OPTION_STRING_def OPTION_FILENAME_F_def mk_OPTION_FILENAME_def mk_OPTION_PATHNAME_def
  OPTION_OPTARG_F_def OPTION_UNSIGNED_F_def mk_OPTION_UNSIGNED_def OPTION_COUNTUP_F_def mk_OPTION_COUNTUP_def
  mk_OPTION_COMMAND_def mk_OPTION_NANO_def mk_OPTION_CMDKEY_def

lemma quiet_parser [quiet_rules]: "quiet (run_parser os indent m argc args pfx opts us fl)"
  by (auto simp: run_parser_def split: prod.split parse_end.split intro!: quiet_rules)

section \<open>Keying the database\<close>

text \<open>xsqlite3_key, then the PRAGMA text of the settings if there is one.\<close>

definition apply_cipher :: "os \<Rightarrow> string \<Rightarrow> cipher_config \<Rightarrow> unit act" where
  "apply_cipher os keybuf cc =
     andthen (xsql os Sqlite_key (Sql_key keybuf)) (\<lambda>_.
     andthen (lift (format_apply_cc_sqlstr cc)) (\<lambda>sql.
       case sql of None \<Rightarrow> ret () | Some sql \<Rightarrow> xsql_exec os sql))"

section \<open>Commands under a contract\<close>

text \<open>
  \<open>at_chain cs\<close> is what a command guarantees between two of its steps while \<open>cs\<close> is the
  chain; a command may stop at any such point, with a chain of functions of \<open>known\<close>.
\<close>

locale covered_run =
  fixes known :: "cleanup set" and at_chain :: "cleanup list \<Rightarrow> pk \<Rightarrow> bool"
  assumes calm_at: "calm (at_chain cs)"
    and at_push: "at_chain cs s \<Longrightarrow> at_chain (c # cs) (atexit_chain_push c s)"
begin

definition stopped :: "pk \<Rightarrow> bool" where
  "stopped s \<longleftrightarrow> (\<exists>cs. set cs \<subseteq> known \<and> at_chain cs s)"

definition step_ok :: "cleanup list \<Rightarrow> 'a act \<Rightarrow> bool" where
  "step_ok cs m \<longleftrightarrow> triple (at_chain cs) m (\<lambda>_. at_chain cs) (\<lambda>_. stopped)"

lemma stoppedI: "at_chain cs s \<Longrightarrow> set cs \<subseteq> known \<Longrightarrow> stopped s"
  by (auto simp: stopped_def)

lemma step_quiet: "quiet m \<Longrightarrow> set cs \<subseteq> known \<Longrightarrow> step_ok cs m"
  unfolding step_ok_def by (rule triple_post [OF triple_quiet [OF _ calm_at]]) (auto intro: stoppedI)

lemma step_leaf:
  assumes "set cs \<subseteq> known"
  shows "step_ok cs (ret x)" "step_ok cs (stop h)" "step_ok cs (lift r)" "step_ok cs (get g)"
    "step_ok cs (print_to st t)" "step_ok cs (say_error d t)" "step_ok cs (say_warning t)" "step_ok cs (say_note t)"
    "step_ok cs (exit_error d t)" "step_ok cs (ask_key t)"
  using assms by (auto intro!: step_quiet quiet_rules)

lemma step_andthen: "step_ok cs m \<Longrightarrow> (\<And>x. step_ok cs (f x)) \<Longrightarrow> step_ok cs (andthen m f)"
  unfolding step_ok_def by (rule triple_andthen)

lemma step_then:
  assumes "step_ok cs m" "\<And>x. triple (at_chain cs) (f x) Q (\<lambda>_. stopped)"
  shows "triple (at_chain cs) (andthen m f) Q (\<lambda>_. stopped)"
  using triple_andthen [OF assms(1) [unfolded step_ok_def] assms(2)] .

lemma push_then:
  assumes "triple (at_chain (c # cs)) (f ()) Q E"
  shows "triple (at_chain cs) (andthen (push_cleanup c) f) Q E"
  using assms at_push by (auto simp: triple_def act_simps)

lemma step_change: "(\<And>s. at_chain cs s \<Longrightarrow> at_chain cs (s\<lparr>world := f (world s)\<rparr>)) \<Longrightarrow> step_ok cs (change f)"
  unfolding step_ok_def by (rule triple_change)

lemma step_sql:
  assumes "\<And>s db call. at_chain cs s \<Longrightarrow> at_chain cs (s\<lparr>world := after_sql call db (world s)\<rparr>)" "set cs \<subseteq> known"
  shows "step_ok cs (xsql os fn call)" "step_ok cs (xsql_exec os sql)" "step_ok cs (xsql_step os)"
    "step_ok cs (xsql_bind os iv)" "step_ok cs (sql_raw os call)"
  unfolding step_ok_def
  by (rule triple_xsql triple_xsql_exec triple_xsql_step triple_xsql_bind triple_sql_raw;
      use assms calm_at in \<open>auto intro: stoppedI\<close>)+

lemma step_populate:
  assumes "\<And>s c. at_chain cs s \<Longrightarrow> at_chain cs (s\<lparr>world := set_file p c (world s)\<rparr>)" "set cs \<subseteq> known"
  shows "step_ok cs (populate os p content)"
  unfolding step_ok_def by (intro triple_populate) (use assms in \<open>auto intro: stoppedI\<close>)

lemma step_if: "step_ok cs m \<Longrightarrow> step_ok cs n \<Longrightarrow> step_ok cs (if b then m else n)"
  by simp

lemma step_get: "(\<And>x. step_ok cs (f x)) \<Longrightarrow> step_ok cs (andthen (get g) f)"
  unfolding step_ok_def by (rule triple_get_any)

lemma step_option: "step_ok cs m \<Longrightarrow> (\<And>y. step_ok cs (f y)) \<Longrightarrow> step_ok cs (case x of None \<Rightarrow> m | Some y \<Rightarrow> f y)"
  by (cases x) simp_all

lemma step_acts: "(\<And>x. step_ok cs (f x)) \<Longrightarrow> set cs \<subseteq> known \<Longrightarrow> step_ok cs (all_acts f xs)"
  by (induction xs) (auto intro: step_quiet step_andthen quiet_rules)

end

section \<open>The calls that are made\<close>

text \<open>\<open>L\<close> are the calls of sqlite3 so far, \<open>cs\<close> is the chain.\<close>

definition logged :: "string \<Rightarrow> sql_call list \<Rightarrow> cleanup list \<Rightarrow> pk \<Rightarrow> bool" where
  "logged db L cs s \<longleftrightarrow> w_sql (world s) = L \<and> atexit_func s = cs \<and> w_cred_db (world s) = db"

abbreviation always :: "halt \<Rightarrow> pk \<Rightarrow> bool" where "always \<equiv> \<lambda>_ _. True"

lemma calm_logged [simp]: "calm (logged db L cs)"
  by (auto simp: calm_def logged_def talks_fields)

lemma triple_exit_error: "triple P (exit_error d t) Q always"
  by (auto simp: triple_def exit_error_def andthen_def stop_def split: res.split prod.split)

lemma logged_sql: "logged db L cs s \<Longrightarrow> logged db (L @ [call]) cs (s\<lparr>world := after_sql call d (world s)\<rparr>)"
  by (simp add: logged_def after_sql_def)

lemma logged_quiet: "quiet m \<Longrightarrow> triple (logged db L cs) m (\<lambda>_. logged db L cs) always"
  by (rule triple_post [OF triple_quiet]) simp_all

lemma logged_xsql: "triple (logged db L cs) (xsql os fn call) (\<lambda>_. logged db (L @ [call]) cs) always"
  by (rule triple_xsql) (auto intro: logged_sql)

lemma logged_exec: "triple (logged db L cs) (xsql_exec os sql) (\<lambda>_. logged db (L @ [Sql_exec sql]) cs) always"
  by (rule triple_xsql_exec) (auto intro: logged_sql)

lemma logged_step: "triple (logged db L cs) (xsql_step os) (\<lambda>_. logged db (L @ [Sql_step]) cs) always"
  by (rule triple_xsql_step) (auto intro: logged_sql)

lemma logged_bind:
  "triple (logged db L cs) (xsql_bind os iv) (\<lambda>_. logged db (L @ [Sql_bind (fst iv) (snd iv)]) cs) always"
  by (rule triple_xsql_bind) (auto intro: logged_sql)

lemma logged_raw: "triple (logged db L cs) (sql_raw os call) (\<lambda>_. logged db (L @ [call]) cs) always"
  by (rule triple_sql_raw) (auto intro: logged_sql)

end
