(* ===== verification/Cmd_Init.thy ===== *)
theory Cmd_Init
  imports Steps
begin

text \<open>
  \<^verbatim>\<open>src/src/command/init.c\<close>: the command that creates the database.  The local variables that
  options store to are cells of the option parser's store; the key buffer is \<open>w_key\<close>.
\<close>

section \<open>Options and variables\<close>

text \<open>
  The addresses of use_encryption, use_cmdkey, remember_key, force_create and the five members
  of cc, in the order of their declaration.
\<close>

definition init_cells :: cells where
  "init_cells = [1 \<mapsto> IntCell 0, 2 \<mapsto> IntCell 0, 3 \<mapsto> IntCell (-1), 4 \<mapsto> IntCell 0,
     5 \<mapsto> StrCell NullPtr, 6 \<mapsto> StrCell NullPtr, 7 \<mapsto> UintCell CPRDEF_COMPATIBILITY,
     8 \<mapsto> UintCell CPRDEF_PAGE_SIZE, 9 \<mapsto> UintCell CPRDEF_KDF_ITER]"

definition cmd_init_options :: "opt list" where
  "cmd_init_options =
    [mk_OPTION_COUNTUP (CHR ''e'') ''encrypt'' 1 ''encrypt database'',
     mk_OPTION_CMDKEY 2,
     mk_OPTION_SWITCH NUL ''remember'' 3 ''store key'',
     mk_OPTION_COUNTUP (CHR ''f'') ''force'' 4 ''ignore existing files'',
     mk_OPTION_GROUP [],
     mk_OPTION_STRING NUL ''kdf-algorithm'' 5 ''KDF algorithm used to generate encryption key for database'',
     mk_OPTION_STRING NUL ''hmac-algorithm'' 6 ''HMAC algorithm used to detect illegal data tampering'',
     mk_OPTION_UNSIGNED NUL ''cipher-compat'' 7 ''version of api to used'',
     mk_OPTION_UNSIGNED NUL ''page-size'' 8 ''size of a page'',
     mk_OPTION_UNSIGNED NUL ''kdf-iter'' 9 ''key derivation iteration times'',
     mk_OPTION_END]"

definition cmd_init_usages :: "string list" where
  "cmd_init_usages = [''pk init [--encrypt] [--cmdkey] [--[no]-remember] [--force] '' @ [NL] @ ''        [<options>]'']"

record init_settings =
  use_encryption :: int
  use_cmdkey :: int
  remember_key :: int
  force_create :: int
  init_cc :: cipher_config

definition alg_of :: "strptr \<Rightarrow> alg" where
  "alg_of p = (case p of NullPtr \<Rightarrow> AlgNull | StrPtr s \<Rightarrow> AlgBuf (s @ [NUL]) | MarkPtr \<Rightarrow> AlgWild)"

definition init_settings_of :: "cells \<Rightarrow> init_settings" where
  "init_settings_of m = \<lparr>use_encryption = int_var m 1, use_cmdkey = int_var m 2, remember_key = int_var m 3,
     force_create = int_var m 4,
     init_cc = \<lparr>kdf_algorithm = alg_of (str_var m 5), hmac_algorithm = alg_of (str_var m 6),
       compatibility = uint_var m 7, page_size = uint_var m 8, kdf_iter = uint_var m 9\<rparr>\<rparr>"

section \<open>Steps\<close>

definition avail_file_path_or_die :: "os \<Rightarrow> string \<Rightarrow> string \<Rightarrow> bool \<Rightarrow> unit act" where
  "avail_file_path_or_die os ty path force =
     andthen (get w_files) (\<lambda>files.
     andthen (if files path \<noteq> None
              then (if \<not> force then exit_error None (ty @ '' '' @ squote path @ '' already exists'')
                    else if os_unlink os path \<noteq> None
                    then exit_error (Some (os_errtext os)) (''connot remove '' @ ty @ '' '' @ squote path)
                    else change (\<lambda>w. w\<lparr>w_files := (w_files w)(path := None)\<rparr>))
              else ret ()) (\<lambda>_. avail_dir_of os path))"

definition CMDKEY_PROMPT :: string where "CMDKEY_PROMPT = ''[pk] key for encryption: ''"
definition CONFIRM_PROMPT :: string where "CONFIRM_PROMPT = NL # ''[pk] confirm key: ''"
definition MISMATCH_MESSAGE :: string where "MISMATCH_MESSAGE = ''Password does not match previous, try again.'' @ [NL]"

definition no_key_given :: "nat \<Rightarrow> 'a act" where
  "no_key_given retry_count =
     andthen (print_to To_stdout [NL]) (\<lambda>_.
     andthen (say_error None ''No key was provided.'') (\<lambda>_.
     andthen (if retry_count > 0
              then say_note (dec_string retry_count @ '' key entry attempt''
                             @ (if retry_count > 1 then ''s'' else []) @ '' made.'')
              else say_note ''A key is required.'') (\<lambda>_. stop (Exit EXIT_FAILURE))))"

lemma read_key_loop_shorter:
  "read_key_loop evs = Ok (key, evs') \<Longrightarrow> evs = [] \<or> length evs' < length evs"
  by (induction evs rule: read_key_loop.induct) (auto split: if_splits)

lemma ask_key_shorter:
  assumes "ask_key msg s = (Ok (len, key), s')"
  shows "w_input (world s) = [] \<and> key = None \<and> len = 0 \<or> length (w_input (world s')) < length (w_input (world s))"
proof -
  obtain key' evs where r: "read_key_loop (w_input (world s)) = Ok (key', evs)" "key = key'"
      "len = (case key' of None \<Rightarrow> 0 | Some k \<Rightarrow> length k)" "w_input (world s') = evs"
    using assms by (auto simp: ask_key_def read_cmdkey_def Let_def bind_res_eq_Ok split: res.splits prod.splits)
  then show ?thesis using read_key_loop_shorter [OF r(1)] by auto
qed

text \<open>
  The loop behind \<^verbatim>\<open>retry\<close>.  When the second reading ends without a line, the buffer that is
  cleared and freed was never assigned, or was freed in the round before.  The key is in
  \<open>w_key\<close> from the first reading on.
\<close>

function request_cmdkey :: "nat \<Rightarrow> string act" where
  "request_cmdkey retry_count s =
     (case ask_key CMDKEY_PROMPT s of
        (Halt h, s1) \<Rightarrow> (Halt h, s1)
      | (Ok (len1, key1), s1) \<Rightarrow>
          if len1 = 0 then no_key_given retry_count s1
          else let s1 = s1\<lparr>world := (world s1)\<lparr>w_key := key1\<rparr>\<rparr>
          in case andthen (ask_key CONFIRM_PROMPT) (\<lambda>k. andthen (print_to To_stdout [NL]) (\<lambda>_. ret k)) s1 of
               (Halt h, s2) \<Rightarrow> (Halt h, s2)
             | (Ok (len2, key2), s2) \<Rightarrow>
                 if key2 = None then (Halt (Undef ''free of a buffer that was not read''), s2)
                 else if len1 = len2 \<and> cstr_of (the key1) = cstr_of (the key2) then (Ok (the key1), s2)
                 else let w = world s2
                      in request_cmdkey (retry_count + 1)
                           (s2\<lparr>world := w\<lparr>w_key := None, w_out := w_out w @ [(To_stderr, MISMATCH_MESSAGE)]\<rparr>\<rparr>))"
  by pat_completeness auto
termination
proof (relation "measure (\<lambda>(n, s). length (w_input (world s)))", goal_cases)
  case (2 n s r1 s1 k1 len1 key1 s1k r2 s2 k2 len2 key2 w)
  have a: "ask_key CMDKEY_PROMPT s = (Ok (len1, key1), s1)" using 2 by simp
  have "length (w_input (world s1)) < length (w_input (world s))"
    using ask_key_shorter [OF a] 2 by auto
  moreover have "andthen (ask_key CONFIRM_PROMPT) (\<lambda>k. andthen (print_to To_stdout [NL]) (\<lambda>_. ret k)) s1k
      = (Ok (len2, key2), s2)"
    using 2 by simp
  then obtain s3 where "ask_key CONFIRM_PROMPT s1k = (Ok (len2, key2), s3)" "w_input (world s2) = w_input (world s3)"
    by (auto simp: andthen_def print_to_def change_def ret_def split: prod.splits res.splits)
  then have "length (w_input (world s2)) < length (w_input (world s1))"
    using ask_key_shorter 2 by force
  ultimately show ?case using 2 by simp
qed simp

declare request_cmdkey.simps [simp del]

definition random_key :: "os \<Rightarrow> string act" where
  "random_key os =
     andthen (lift (random_bytes_routine (os_rand os) None BINKEY_LEN True)) (\<lambda>(rc, binkey).
     andthen (lift (require_success rc 0)) (\<lambda>_.
     andthen (lift (case binkey of None \<Rightarrow> Halt (Undef ''NULL key'') | Some b \<Rightarrow>
                bind_res (bin2blob b BINKEY_LEN) (\<lambda>(blob, len). mem_read blob 0 len))) (\<lambda>bytes.
     andthen (change (\<lambda>w. w\<lparr>w_key := Some (chars_of bytes)\<rparr>)) (\<lambda>_. ret (chars_of bytes)))))"

definition is_passphrase :: "string \<Rightarrow> bool" where
  "is_passphrase keybuf \<longleftrightarrow> \<not> is_blob_key (bytes_of (keybuf @ [NUL])) (length keybuf)"

text \<open>The settings, in the order of the code; the pair is \<^verbatim>\<open>use_cc\<close> and the configuration.\<close>

definition set_kdf_algorithm :: "bool \<Rightarrow> bool \<times> cipher_config \<Rightarrow> (bool \<times> cipher_config) act" where
  "set_kdf_algorithm use_passphrase = (\<lambda>(use_cc, cc).
     if kdf_algorithm cc = AlgNull then ret (use_cc, cc)
     else if \<not> use_passphrase
     then andthen (say_warning ''Setting the KDF algorithm on a non-passphrase key has no effect.'') (\<lambda>_.
            ret (use_cc, cc\<lparr>kdf_algorithm := AlgNull\<rparr>))
     else andthen (lift (alg_string (kdf_algorithm cc))) (\<lambda>a.
            if \<not> is_cc_kdf_algorithm a then exit_error None (''invalid KDF algorithm '' @ squote a)
            else ret (use_cc \<or> a \<noteq> CPRDEF_KDF_ALGORITHM, cc)))"

definition set_hmac_algorithm :: "bool \<times> cipher_config \<Rightarrow> (bool \<times> cipher_config) act" where
  "set_hmac_algorithm = (\<lambda>(use_cc, cc).
     if hmac_algorithm cc = AlgNull then ret (use_cc, cc)
     else andthen (lift (alg_string (hmac_algorithm cc))) (\<lambda>a.
            if \<not> is_cc_hmac_algorithm a then exit_error None (''invalid HMAC algorithm '' @ squote a)
            else ret (use_cc \<or> a \<noteq> CPRDEF_HMAC_ALGORITHM, cc)))"

definition set_kdf_iter :: "bool \<Rightarrow> bool \<times> cipher_config \<Rightarrow> (bool \<times> cipher_config) act" where
  "set_kdf_iter use_passphrase = (\<lambda>(use_cc, cc).
     if kdf_iter cc = CPRDEF_KDF_ITER then ret (use_cc, cc)
     else if \<not> use_passphrase
     then andthen (say_warning ''Setting the KDF iteration times on a non-passphrase key has no effect.'') (\<lambda>_.
            ret (use_cc, cc\<lparr>kdf_iter := CPRDEF_KDF_ITER\<rparr>))
     else ret (True, cc))"

definition set_page_size :: "bool \<times> cipher_config \<Rightarrow> (bool \<times> cipher_config) act" where
  "set_page_size = (\<lambda>(use_cc, cc).
     if \<not> is_cc_page_size (page_size cc)
     then exit_error None (''invalid page size '' @ squote (dec_string (unat (page_size cc))))
     else ret (use_cc \<or> page_size cc \<noteq> CPRDEF_PAGE_SIZE, cc))"

definition set_compatibility :: "bool \<times> cipher_config \<Rightarrow> (bool \<times> cipher_config) act" where
  "set_compatibility = (\<lambda>(use_cc, cc).
     if \<not> is_cc_compatibility (compatibility cc)
     then exit_error None (''invalid cipher compatibility '' @ squote (dec_string (unat (compatibility cc))))
     else ret (use_cc \<or> compatibility cc \<noteq> CPRDEF_COMPATIBILITY, cc))"

definition choose_settings :: "bool \<Rightarrow> int \<Rightarrow> cipher_config \<Rightarrow> (bool \<times> cipher_config) act" where
  "choose_settings use_passphrase remember cc =
     andthen (set_kdf_algorithm use_passphrase (False, cc)) (\<lambda>st.
     andthen (set_hmac_algorithm st) (\<lambda>st.
     andthen (set_kdf_iter use_passphrase st) (\<lambda>st.
     andthen (set_page_size st) (\<lambda>st.
     andthen (set_compatibility st) (\<lambda>(use_cc, cc).
       ret (use_cc \<or> (\<not> use_passphrase \<and> remember \<noteq> 0) \<or> remember = 1, cc))))))"

definition persist_cipher_config :: "os \<Rightarrow> string \<Rightarrow> cipher_config \<Rightarrow> cipher_key \<Rightarrow> unit act" where
  "persist_cipher_config os path cc ck =
     andthen (lift (bind_res (serialize_cipher_config cc ck) (\<lambda>(buf, len).
       case buf of
         None \<Rightarrow> Halt (Undef ''NULL buffer'')
       | Some b \<Rightarrow>
           bind_res (mem_read b 0 len) (\<lambda>message.
           bind_res (digest_message_sha256 (os_sha256 os) message) (\<lambda>digest.
           bind_res (mem_write b len (take CIPHER_DIGEST_LENGTH digest)) (\<lambda>b.
             mem_read b 0 (len + CIPHER_DIGEST_LENGTH))))))) (\<lambda>bytes.
     populate os path (chars_of bytes))"

text \<open>\<^verbatim>\<open>ck\<close> as it is stored: nothing (the key is printed), the passphrase, or the bytes of a blob key.\<close>

definition key_to_store :: "bool \<Rightarrow> init_settings \<Rightarrow> string \<Rightarrow> cipher_key act" where
  "key_to_store use_passphrase cfg keybuf =
     (if remember_key cfg = 0 \<and> use_cmdkey cfg = 0
      then andthen (print_to To_stdout (keybuf @ [NL])) (\<lambda>_. ret CK_INIT)
      else if use_passphrase
      then ret \<lparr>ck_buf = KeyBuf (bytes_of (keybuf @ [NUL])), ck_len = length keybuf, ck_is_binary = False\<rparr>
      else andthen (lift (bind_res (blob2bin (map Some (bytes_of (keybuf @ [NUL]))) (length keybuf)) (\<lambda>(b, len).
             bind_res (mem_read b 0 (length b)) (\<lambda>bytes. Ok (bytes, len))))) (\<lambda>(bytes, len).
             ret \<lparr>ck_buf = KeyBuf bytes, ck_len = len, ck_is_binary = True\<rparr>))"

definition store_cipher_config :: "os \<Rightarrow> bool \<Rightarrow> init_settings \<Rightarrow> string \<Rightarrow> cipher_config \<Rightarrow> unit act" where
  "store_cipher_config os use_passphrase cfg keybuf cc =
     andthen (get w_cred_cc) (\<lambda>p. case p of None \<Rightarrow> stop (Undef ''NULL path'') | Some path \<Rightarrow>
     andthen (avail_file_path_or_die os ''cipher config'' path (force_create cfg \<noteq> 0)) (\<lambda>_.
     andthen (key_to_store use_passphrase cfg keybuf) (\<lambda>ck.
     andthen (push_cleanup Rm_cred_cc) (\<lambda>_. persist_cipher_config os path cc ck))))"

definition INIT_TABLE_SQLSTR :: string where
  "INIT_TABLE_SQLSTR =
     ''CREATE TABLE account (id       INTEGER PRIMARY KEY AUTOINCREMENT,sitename TEXT NOT NULL,alias    TEXT,''
     @ ''siteurl  TEXT,username TEXT,password TEXT NOT NULL,sqltime  DATETIME DEFAULT (datetime('' @ squote ''now''
     @ '', '' @ squote ''utc'' @ '')),modtime  DATETIME);CREATE INDEX idx_sitename ON account(sitename);''
     @ ''CREATE TABLE account_security (account_id INTEGER PRIMARY KEY,guard      TEXT,recovery   TEXT,memo       BLOB,''
     @ ''FOREIGN KEY (account_id) REFERENCES account(id) ON DELETE CASCADE);CREATE TABLE account_misc (''
     @ ''account_id INTEGER PRIMARY KEY,comment    TEXT,FOREIGN KEY (account_id) REFERENCES account(id) ON DELETE CASCADE);''"

definition setup_database :: "os \<Rightarrow> string option \<Rightarrow> cipher_config \<Rightarrow> int act" where
  "setup_database os key cc =
     andthen (push_cleanup Rm_cred_db) (\<lambda>_.
     andthen (get w_cred_db) (\<lambda>db.
     andthen (xsql os Sqlite_open (Sql_open db)) (\<lambda>_.
     andthen (case key of None \<Rightarrow> ret ()
              | Some keybuf \<Rightarrow> andthen (apply_cipher os keybuf cc) (\<lambda>_. change (\<lambda>w. w\<lparr>w_key := None\<rparr>))) (\<lambda>_.
     andthen (xsql_exec os INIT_TABLE_SQLSTR) (\<lambda>_.
     andthen (sql_raw os Sql_close) (\<lambda>_.
     andthen pop_cleanup (\<lambda>_.
     andthen pop_cleanup (\<lambda>_. ret 0))))))))"

definition init_encrypted :: "os \<Rightarrow> init_settings \<Rightarrow> int act" where
  "init_encrypted os cfg =
     andthen (if use_cmdkey cfg \<noteq> 0 then request_cmdkey 0 else random_key os) (\<lambda>keybuf.
     andthen (push_cleanup Destroy_key) (\<lambda>_.
     andthen (choose_settings (is_passphrase keybuf) (remember_key cfg) (init_cc cfg)) (\<lambda>(use_cc, cc).
     andthen pop_cleanup (\<lambda>_.
     andthen (if \<not> use_cc then ret () else store_cipher_config os (is_passphrase keybuf) cfg keybuf cc) (\<lambda>_.
       setup_database os (Some keybuf) cc)))))"

text \<open>The body of the command behind parse_options.\<close>

definition init_body :: "os \<Rightarrow> init_settings \<Rightarrow> int act" where
  "init_body os cfg =
     andthen (get w_cred_db) (\<lambda>db.
     andthen (avail_file_path_or_die os ''database'' db (force_create cfg \<noteq> 0)) (\<lambda>_.
       if use_encryption cfg = 0 \<and> use_cmdkey cfg = 0 then setup_database os None (init_cc cfg)
       else init_encrypted os cfg))"

definition cmd_init :: "os \<Rightarrow> nat \<Rightarrow> string option list \<Rightarrow> string \<Rightarrow> int act" where
  "cmd_init os argc args prefix =
     andthen (run_parser os DEFAULT_OPT_ARGH_INDENT init_cells argc args prefix cmd_init_options cmd_init_usages
                {PARSER_ABORT_NON_OPTION}) (\<lambda>(_, _, m). init_body os (init_settings_of m))"

section \<open>Steps that only talk\<close>

lemma quiet_steps [quiet_rules]:
  "quiet (no_key_given n)" "quiet (set_kdf_algorithm b st)" "quiet (set_hmac_algorithm st)"
  "quiet (set_kdf_iter b st)" "quiet (set_page_size st)" "quiet (set_compatibility st)"
  by (auto simp: no_key_given_def set_kdf_algorithm_def set_hmac_algorithm_def set_kdf_iter_def
      set_page_size_def set_compatibility_def split: prod.split intro!: quiet_rules)

lemma quiet_choose [quiet_rules]: "quiet (choose_settings b n cc)"
  by (auto simp: choose_settings_def split: prod.split intro!: quiet_rules)

lemma quiet_key_to_store [quiet_rules]: "quiet (key_to_store b cfg k)"
  by (auto simp: key_to_store_def split: prod.split intro!: quiet_rules)

section \<open>What is left behind\<close>

text \<open>The assertion between two steps: \<open>cs\<close> is the chain and every file is accounted for.\<close>

definition init_at :: "string \<Rightarrow> string \<Rightarrow> (string \<rightharpoonup> string) \<Rightarrow> cleanup list \<Rightarrow> pk \<Rightarrow> bool" where
  "init_at db cc F cs s \<longleftrightarrow> atexit_func s = cs \<and> w_cred_db (world s) = db \<and> w_cred_cc (world s) = Some cc
     \<and> tidy {db, cc} {} F cs (world s)"

lemma calm_init_at [simp]: "calm (init_at db cc F cs)"
  by (auto simp: calm_def init_at_def talks_fields intro: tidy_talks)

abbreviation known :: "cleanup list \<Rightarrow> bool" where
  "known cs \<equiv> set cs \<subseteq> {Destroy_key, Rm_cred_db, Rm_cred_cc}"

lemma init_at_push: "init_at db cc F cs s \<Longrightarrow> init_at db cc F (c # cs) (atexit_chain_push c s)"
  by (auto simp: init_at_def tidy_def atexit_chain_push_def)

interpretation init: covered_run "{Destroy_key, Rm_cred_db, Rm_cred_cc}" "init_at db cc F" for db cc F
  by unfold_locales (auto intro: init_at_push)

named_theorems init_steps \<open>steps that leave every file accounted for\<close>

lemmas init_run_steps [init_steps] = init.step_quiet init.step_andthen

lemma init_at_remove:
  "init_at db cc F cs s \<Longrightarrow> p \<in> {db, cc} \<Longrightarrow> init_at db cc F cs (s\<lparr>world := (world s)\<lparr>w_files := (w_files (world s))(p := None)\<rparr>\<rparr>)"
  by (auto simp: init_at_def elim!: tidy_change)

lemma init_at_key: "init_at db cc F cs s \<Longrightarrow> init_at db cc F cs (s\<lparr>world := (world s)\<lparr>w_key := k\<rparr>\<rparr>)"
  by (auto simp: init_at_def elim!: tidy_change)

lemma step_key [init_steps]: "init.step_ok db cc F cs (change (\<lambda>w. w\<lparr>w_key := k\<rparr>))"
  unfolding init.step_ok_def by (rule triple_change) (rule init_at_key)

lemma step_remove [init_steps]: "p \<in> {db, cc} \<Longrightarrow> init.step_ok db cc F cs (change (\<lambda>w. w\<lparr>w_files := (w_files w)(p := None)\<rparr>))"
  unfolding init.step_ok_def by (rule triple_change) (rule init_at_remove)

lemma step_avail [init_steps]: "p \<in> {db, cc} \<Longrightarrow> known cs \<Longrightarrow> init.step_ok db cc F cs (avail_file_path_or_die os ty p force)"
  unfolding avail_file_path_or_die_def
  by (intro init.step_andthen) (auto intro!: init.step_quiet quiet_rules step_remove)

lemma init_at_sql:
  "init_at db cc F cs s \<Longrightarrow> Rm_cred_db \<in> set cs \<Longrightarrow> init_at db cc F cs (s\<lparr>world := after_sql call d (world s)\<rparr>)"
  by (auto simp: init_at_def after_sql_def cleanup_path_def elim!: tidy_change intro!: bexI [of _ Rm_cred_db])

lemma known_sql [init_steps]:
  assumes "Rm_cred_db \<in> set cs" "known cs"
  shows "init.step_ok db cc F cs (xsql os fn call)" "init.step_ok db cc F cs (xsql_exec os sql)" "init.step_ok db cc F cs (sql_raw os call)"
  unfolding init.step_ok_def
  by (rule triple_xsql triple_xsql_exec triple_sql_raw; use assms in \<open>auto intro: init_at_sql init.stoppedI\<close>)+

lemma known_populate [init_steps]:
  assumes "Rm_cred_cc \<in> set cs" "known cs"
  shows "init.step_ok db cc F cs (populate os cc content)"
proof -
  have "init_at db cc F cs s \<Longrightarrow> init_at db cc F cs (s\<lparr>world := set_file cc c (world s)\<rparr>)" for s c
    using assms(1)
    by (auto simp: init_at_def set_file_def cleanup_path_def elim!: tidy_change intro!: bexI [of _ Rm_cred_cc])
  then show ?thesis
    unfolding init.step_ok_def by (intro triple_populate) (use assms in \<open>auto intro: init.stoppedI\<close>)
qed

text \<open>What does not depend on the key buffer and on talking survives the dialogue.\<close>

lemma request_cmdkey_keeps:
  assumes calm: "calm P" and key: "\<And>s k. P s \<Longrightarrow> P (s\<lparr>world := (world s)\<lparr>w_key := k\<rparr>\<rparr>)"
  shows "triple P (request_cmdkey n) (\<lambda>_. P) (\<lambda>_. P)"
proof -
  have talk: "P s \<Longrightarrow> P (s\<lparr>world := (world s)\<lparr>w_out := x\<rparr>\<rparr>)" for s x
    using calm unfolding calm_def by (auto simp: talks_iff elim!: allE)
  have "P s \<Longrightarrow> P (snd (request_cmdkey n s))" for s
  proof (induction n s rule: request_cmdkey.induct)
    case (1 n s)
    obtain r1 s1 where a: "ask_key CMDKEY_PROMPT s = (r1, s1)" by fastforce
    have i1: "P s1" using quiet_run [of "ask_key CMDKEY_PROMPT" s r1 s1 P] a "1.prems" calm by (simp add: quiet_rules)
    show ?case
    proof (cases r1)
      case (Halt h)
      then show ?thesis using a i1 by (simp add: request_cmdkey.simps [of n])
    next
      case (Ok p)
      obtain len1 key1 where p: "p = (len1, key1)" by fastforce
      let ?s1 = "s1\<lparr>world := (world s1)\<lparr>w_key := key1\<rparr>\<rparr>"
      let ?m = "andthen (ask_key CONFIRM_PROMPT) (\<lambda>k. andthen (print_to To_stdout [NL]) (\<lambda>_. ret k))"
      obtain r2 s2 where b: "?m ?s1 = (r2, s2)" by fastforce
      have i2: "P s2" using quiet_run [of ?m ?s1 r2 s2 P] b key [OF i1] calm by (simp add: quiet_rules)
      show ?thesis
      proof (cases "len1 = 0")
        case True
        obtain r3 s3 where c: "(no_key_given n :: string act) s1 = (r3, s3)" by fastforce
        have "P s3" using quiet_run [of "no_key_given n :: string act" s1 r3 s3 P] c i1 calm by (simp add: quiet_rules)
        then show ?thesis using a Ok p True c by (simp add: request_cmdkey.simps [of n])
      next
        case False
        show ?thesis
        proof (cases r2)
          case (Halt h)
          then show ?thesis using a Ok p False b i2 by (simp add: request_cmdkey.simps [of n])
        next
          case Ok2: (Ok q)
          obtain len2 key2 where q: "q = (len2, key2)" by fastforce
          let ?s2 = "s2\<lparr>world := (world s2)\<lparr>w_key := None, w_out := w_out (world s2) @ [(To_stderr, MISMATCH_MESSAGE)]\<rparr>\<rparr>"
          have "P ?s2" using talk [OF key [OF i2, of None]] by simp
          then show ?thesis
            using 1(1) [OF a [symmetric] Ok p [symmetric] False refl b [symmetric] Ok2 q [symmetric]] a Ok p False b Ok2 q i2
            by (subst request_cmdkey.simps) (auto simp: Let_def)
        qed
      qed
    qed
  qed
  then show ?thesis by (auto intro!: tripleI split: prod.split res.split) (metis snd_conv)+
qed

lemma step_request_key [init_steps]: "known cs \<Longrightarrow> init.step_ok db cc F cs (request_cmdkey n)"
  unfolding init.step_ok_def
  by (rule triple_post [OF request_cmdkey_keeps]) (auto intro: init_at_key init.stoppedI)

lemma init_at_pop: "init_at db cc F (Destroy_key # cs) s \<Longrightarrow> init_at db cc F cs (snd (atexit_chain_pop s))"
  by (auto simp: init_at_def tidy_def atexit_chain_pop_def cleanup_path_def)

lemma pop_then:
  assumes "triple (init_at db cc F cs) (f ()) Q E"
  shows "triple (init_at db cc F (Destroy_key # cs)) (andthen pop_cleanup f) Q E"
  using assms init_at_pop by (auto simp: triple_def act_simps)

lemma step_apply_cipher [init_steps]:
  "Rm_cred_db \<in> set cs \<Longrightarrow> known cs \<Longrightarrow> init.step_ok db cc F cs (apply_cipher os k c)"
  unfolding apply_cipher_def
  by (intro init.step_andthen known_sql) (auto intro!: init.step_quiet quiet_rules known_sql split: option.split)

lemma setup_database_tidy:
  assumes "known cs"
  shows "triple (init_at db cc F cs) (setup_database os key c) (\<lambda>r _. r = 0) (\<lambda>_. init.stopped db cc F)"
proof -
  have k: "known (Rm_cred_db # cs)" "Rm_cred_db \<in> set (Rm_cred_db # cs)" using assms by auto
  have end_: "triple (init_at db cc F (Rm_cred_db # cs)) (andthen pop_cleanup (\<lambda>_. andthen pop_cleanup (\<lambda>_. ret 0)))
      (\<lambda>r _. r = 0) (\<lambda>_. init.stopped db cc F)"
    by (simp add: triple_def act_simps ret_def)
  have key: "init.step_ok db cc F (Rm_cred_db # cs) (case key of None \<Rightarrow> ret ()
      | Some k \<Rightarrow> andthen (apply_cipher os k c) (\<lambda>_. change (\<lambda>w. w\<lparr>w_key := None\<rparr>)))"
    using k by (cases key) (auto intro!: init_steps quiet_rules)
  show ?thesis
    unfolding setup_database_def
    by (intro init.push_then init.step_then init.step_quiet known_sql key end_ quiet_rules k)
qed

lemma store_cipher_config_tidy:
  "triple (init_at db cc F []) (store_cipher_config os b cfg k c)
     (\<lambda>_. init_at db cc F [Rm_cred_cc]) (\<lambda>_. init.stopped db cc F)"
proof -
  have persist: "triple (init_at db cc F [Rm_cred_cc]) (persist_cipher_config os cc c ck)
      (\<lambda>_. init_at db cc F [Rm_cred_cc]) (\<lambda>_. init.stopped db cc F)" for ck
    unfolding persist_cipher_config_def init.step_ok_def [symmetric]
    by (intro init.step_andthen init.step_quiet known_populate quiet_rules) simp_all
  show ?thesis
    unfolding store_cipher_config_def
    by (rule triple_get_eq [where x = "Some cc"], simp add: init_at_def, simp)
       (intro init.step_then [OF step_avail] init.step_then [OF init.step_quiet] init.push_then persist quiet_rules; simp)
qed

lemma init_encrypted_tidy:
  "triple (init_at db cc F []) (init_encrypted os cfg) (\<lambda>r _. r = 0) (\<lambda>_. init.stopped db cc F)"
proof -
  have key: "init.step_ok db cc F [] (if use_cmdkey cfg \<noteq> 0 then request_cmdkey 0 else random_key os)"
    by (auto simp: random_key_def split: prod.split intro!: init_steps quiet_rules)
  have made: "triple (init_at db cc F []) (andthen (if \<not> use_cc then ret () else store_cipher_config os b cfg k c)
      (\<lambda>_. setup_database os (Some k) c)) (\<lambda>r _. r = 0) (\<lambda>_. init.stopped db cc F)" for use_cc b k c
  proof (cases use_cc)
    case True
    then show ?thesis
      by (simp, intro triple_andthen [OF store_cipher_config_tidy] setup_database_tidy) simp
  qed (simp add: act_simps setup_database_tidy)
  show ?thesis
    unfolding init_encrypted_def
    by (intro init.step_then [OF key] init.push_then init.step_then) (auto intro!: init.step_quiet quiet_rules pop_then made [of False, simplified]
      made [of True, simplified] split: prod.split)
qed

lemma init_body_tidy:
  "triple (init_at db cc F []) (init_body os cfg) (\<lambda>r _. r = 0) (\<lambda>_. init.stopped db cc F)"
proof -
  have step: "triple (init_at db cc F []) (andthen (avail_file_path_or_die os ''database'' db (force_create cfg \<noteq> 0))
     (\<lambda>_. if use_encryption cfg = 0 \<and> use_cmdkey cfg = 0 then setup_database os None (init_cc cfg) else init_encrypted os cfg))
     (\<lambda>r _. r = 0) (\<lambda>_. init.stopped db cc F)"
    by (intro init.step_then step_avail) (auto intro!: setup_database_tidy init_encrypted_tidy)
  show ?thesis
    unfolding init_body_def by (rule triple_get_eq [where x = db]) (simp add: init_at_def, rule step)
qed

lemma cmd_init_tidy:
  "triple (init_at db cc F []) (cmd_init os argc args pfx) (\<lambda>r _. r = 0) (\<lambda>_. init.stopped db cc F)"
  unfolding cmd_init_def by (intro init.step_then init.step_quiet quiet_rules) (auto intro: init_body_tidy)

text \<open>
  C2. All or nothing: whatever the options, the answers of the system and of sqlite3 and the
  lines typed are, if pk init leaves with a status other than 0 and the files can be
  unlinked, then after the cleanup functions no half-made file is left: every file is as it
  was before, except that database and cipher configuration may be gone.
\<close>

theorem init_all_or_nothing:
  assumes "process_end os (cmd_init os argc args pfx s) = Some (status, w)" "status \<noteq> 0"
    "atexit_func s = []" "w_cred_db (world s) = db" "w_cred_cc (world s) = Some cc"
    "os_unlink os db = None" "os_unlink os cc = None"
  shows "w_files w p = w_files (world s) p \<or> p \<in> {db, cc} \<and> w_files w p = None"
proof -
  let ?F = "w_files (world s)"
  obtain r s1 where m: "cmd_init os argc args pfx s = (r, s1)" by fastforce
  have "init_at db cc ?F [] s" using assms(3-5) by (simp add: init_at_def tidy_def)
  then have end_: "case r of Ok x \<Rightarrow> x = 0 | Halt h \<Rightarrow> init.stopped db cc ?F s1"
    using triple_apply [OF cmd_init_tidy _ m] by blast
  obtain n where n: "leave os n s1 = Some (status, w)" "\<forall>x. r = Ok x \<longrightarrow> n = x"
    using process_end_cases [of os r s1 status w] assms(1) m by auto
  have "\<exists>h. r = Halt h"
    using n end_ assms(2) by (cases r) (auto simp: leave_all exit_status_def)
  then obtain cs where cs: "known cs" "init_at db cc ?F cs s1" using end_ by (auto simp: init.stopped_def)
  then have "removable os {db, cc} (atexit_func s1) (world s1)"
    using assms(6,7) by (auto simp: removable_def init_at_def cleanup_path_def)
  then show ?thesis
    using tidy_leave [of "{db, cc}" "{}" ?F s1 os n status w] n(1) cs(2) by (auto simp: init_at_def)
qed

lemma parse_init_empty:
  "\<exists>ctx. parse_options stat DEFAULT_OPT_ARGH_INDENT init_cells 0 [None] pfx cmd_init_options cmd_init_usages fl
     = Ok (Returned 0, ctx) \<and> ctx_log ctx = [] \<and> ctx_cells ctx = init_cells"
  by (simp add: cmd_init_options_def parse_evals)

lemma avail_run:
  assumes "w_files (world s) p = None" "avail_file_dir (os_mkdir os) (os_wx os) p = 0"
  shows "avail_file_path_or_die os ty p force s = (Ok (), s)"
  using assms by (simp add: avail_file_path_or_die_def avail_dir_of_def avail_file_dir_or_die_def require_success_def
      act_simps lift_def)

theorem init_all_or_nothing_witness:
  "let os = sample_os (\<lambda>calls call. (1, Some ''half''))
   in \<exists>w. process_end os (cmd_init os 0 [None] ''/'' sample_pk) = Some (1, w) \<and> w_files w ''db'' = None"
proof -
  let ?os = "sample_os (\<lambda>calls call. (1, Some ''half''))"
  obtain ctx where ctx: "parse_options (os_stat ?os) DEFAULT_OPT_ARGH_INDENT init_cells 0 [None] ''/''
      cmd_init_options cmd_init_usages {PARSER_ABORT_NON_OPTION} = Ok (Returned 0, ctx)"
      "ctx_log ctx = []" "ctx_cells ctx = init_cells"
    using parse_init_empty by blast
  have cfg: "use_encryption (init_settings_of init_cells) = 0" "use_cmdkey (init_settings_of init_cells) = 0"
    by (simp_all add: init_settings_of_def init_cells_def int_var_def)
  have dir: "avail_file_dir (os_mkdir ?os) (os_wx ?os) ''db'' = 0"
    by (simp add: sample_os_def avail_file_dir_def avail_dir_def)
  obtain out where "xsql ?os Sqlite_open (Sql_open ''db'') (atexit_chain_push Rm_cred_db sample_pk) = (Halt (Exit EXIT_FAILURE),
      (sql_next ?os (Sql_open ''db'') (atexit_chain_push Rm_cred_db sample_pk))\<lparr>world :=
        (world (sql_next ?os (Sql_open ''db'') (atexit_chain_push Rm_cred_db sample_pk)))\<lparr>w_out := [(To_stderr, out)]\<rparr>\<rparr>)"
    using xsql_open_fails [of ?os "atexit_chain_push Rm_cred_db sample_pk" "Sql_open ''db''" Sqlite_open]
    by (auto simp: sample_os_def sample_pk_def SQLITE_OK_def atexit_chain_push_def)
  then have "\<exists>s'. cmd_init ?os 0 [None] ''/'' sample_pk = (Halt (Exit EXIT_FAILURE), s')"
    using ctx cfg avail_run [of sample_pk "''db''" ?os, OF _ dir]
    by (simp add: cmd_init_def run_parser_def init_body_def setup_database_def act_simps sample_pk_def atexit_chain_push_def)
  then obtain s' where "cmd_init ?os 0 [None] ''/'' sample_pk = (Halt (Exit EXIT_FAILURE), s')" ..
  then obtain w where w: "process_end ?os (cmd_init ?os 0 [None] ''/'' sample_pk) = Some (1, w)"
    by (auto simp: leave_all EXIT_FAILURE_def exit_status_def)
  show ?thesis
    using init_all_or_nothing [OF w, of "''db''" "''cc''" "''db''"] w by (simp add: sample_pk_def sample_os_def)
qed

text \<open>
  The numerical settings of pk init have no effect: when the parser returns, compatibility,
  page size and number of iterations are the defaults, because a valid number ends the
  program and an invalid one is ignored.
\<close>

theorem init_numbers_ignored:
  assumes "run_parser os indent init_cells argc args pfx cmd_init_options usages flags s = (Ok (n, args', m), s')"
  shows "compatibility (init_cc (init_settings_of m)) = CPRDEF_COMPATIBILITY
    \<and> page_size (init_cc (init_settings_of m)) = CPRDEF_PAGE_SIZE
    \<and> kdf_iter (init_cc (init_settings_of m)) = CPRDEF_KDF_ITER"
proof -
  obtain ctx where ctx: "parse_options (os_stat os) indent init_cells argc args pfx cmd_init_options usages flags
      = Ok (Returned n, ctx)" "m = ctx_cells ctx"
    using assms by (auto simp: run_parser_def andthen_def lift_def change_def ret_def stop_def
        split: res.splits prod.splits parse_end.splits)
  have "uint_var m a = u" if "init_cells a = Some (UintCell u)" for a u
    using unsigned_kept [OF ctx(1) that] ctx(2) by (simp add: uint_var_def)
  then show ?thesis by (simp add: init_settings_of_def init_cells_def)
qed

theorem init_numbers_ignored_witness:
  "\<exists>args' m s'. run_parser (sample_os (\<lambda>_ _. (0, None))) DEFAULT_OPT_ARGH_INDENT init_cells 0 [None] ''/'' cmd_init_options
      cmd_init_usages {PARSER_ABORT_NON_OPTION} sample_pk = (Ok (0, args', m), s')
    \<and> page_size (init_cc (init_settings_of m)) = 4096"
proof -
  let ?run = "run_parser (sample_os (\<lambda>_ _. (0, None))) DEFAULT_OPT_ARGH_INDENT init_cells 0 [None] ''/'' cmd_init_options
      cmd_init_usages {PARSER_ABORT_NON_OPTION} sample_pk"
  obtain args' m s' where r: "?run = (Ok (0, args', m), s')"
    using parse_init_empty [of "os_stat (sample_os (\<lambda>_ _. (0, None)))" "''/''" "{PARSER_ABORT_NON_OPTION}"]
    by (auto simp: run_parser_def act_simps ret_def)
  then show ?thesis using init_numbers_ignored [OF r] by (simp add: CPRDEF_PAGE_SIZE_def)
qed

section \<open>What a successful run does\<close>

text \<open>The calls to sqlite3: the key and the text of the settings, if the database is encrypted.\<close>

fun init_calls :: "string \<Rightarrow> (string \<times> string option) option \<Rightarrow> sql_call list" where
  "init_calls db None = [Sql_open db, Sql_exec INIT_TABLE_SQLSTR, Sql_close]"
| "init_calls db (Some (k, pragma)) =
     [Sql_open db, Sql_key k] @ (case pragma of None \<Rightarrow> [] | Some p \<Rightarrow> [Sql_exec p]) @ [Sql_exec INIT_TABLE_SQLSTR, Sql_close]"

lemma logged_key: "logged db L cs s \<Longrightarrow> logged db L cs (s\<lparr>world := (world s)\<lparr>w_key := k\<rparr>\<rparr>)"
  by (simp add: logged_def)

lemma logged_set_key: "triple (logged db L cs) (change (\<lambda>w. w\<lparr>w_key := k\<rparr>)) (\<lambda>_. logged db L cs) always"
  by (rule triple_change) (rule logged_key)

lemma logged_avail: "triple (logged db L cs) (avail_file_path_or_die os ty p force) (\<lambda>_. logged db L cs) always"
proof -
  have "triple (logged db L cs) (change (\<lambda>w. w\<lparr>w_files := (w_files w)(p := None)\<rparr>)) (\<lambda>_. logged db L cs) always"
    by (rule triple_change) (simp add: logged_def)
  then show ?thesis
    unfolding avail_file_path_or_die_def
    by (intro triple_get_any triple_andthen triple_if) (auto intro!: logged_quiet quiet_rules)
qed

lemma logged_apply:
  "triple (logged db L cs) (apply_cipher os k c)
     (\<lambda>_ s. \<exists>pragma. logged db (L @ [Sql_key k] @ (case pragma of None \<Rightarrow> [] | Some p \<Rightarrow> [Sql_exec p])) cs s) always"
  unfolding apply_cipher_def
proof (intro triple_andthen [OF logged_xsql] triple_andthen [OF logged_quiet] quiet_rules)
  fix x
  show "triple (logged db (L @ [Sql_key k]) cs) (case x of None \<Rightarrow> ret () | Some sql \<Rightarrow> xsql_exec os sql)
     (\<lambda>_ s. \<exists>pragma. logged db (L @ [Sql_key k] @ (case pragma of None \<Rightarrow> [] | Some p \<Rightarrow> [Sql_exec p])) cs s) always"
  proof (cases x)
    case None
    then show ?thesis by (auto intro!: triple_ret exI [of _ None])
  next
    case (Some sql)
    then show ?thesis
      by (auto intro!: triple_post [OF logged_exec] exI [of _ "Some sql"])
  qed
qed

lemma logged_end:
  "triple (logged db L (Rm_cred_db # cs))
     (andthen (xsql_exec os sql) (\<lambda>_. andthen (sql_raw os Sql_close) (\<lambda>_. andthen pop_cleanup (\<lambda>_. andthen pop_cleanup (\<lambda>_. ret (0::int))))))
     (\<lambda>r s. r = 0 \<and> logged db (L @ [Sql_exec sql, Sql_close]) (tl cs) s) always"
proof -
  have close: "triple (logged db M (Rm_cred_db # cs)) (sql_raw os Sql_close) (\<lambda>_. logged db (M @ [Sql_close]) (Rm_cred_db # cs)) always" for M
    by (rule triple_sql_raw) (rule logged_sql)
  have pops: "triple (logged db M (Rm_cred_db # cs)) (andthen pop_cleanup (\<lambda>_. andthen pop_cleanup (\<lambda>_. ret (0::int))))
      (\<lambda>r s. r = 0 \<and> logged db M (tl cs) s) always" for M
    by (cases cs) (auto simp: triple_def act_simps ret_def logged_def atexit_chain_pop_def)
  show ?thesis
    using triple_andthen [OF logged_exec triple_andthen [OF close pops]] by simp
qed

lemma setup_database_logged:
  "triple (logged db L cs) (setup_database os key c)
     (\<lambda>r s. r = 0 \<and> (\<exists>p. logged db (L @ init_calls db (map_option (\<lambda>k. (k, p)) key)) (tl cs) s)) always"
proof -
  let ?key = "case key of None \<Rightarrow> ret ()
      | Some k \<Rightarrow> andthen (apply_cipher os k c) (\<lambda>_. change (\<lambda>w. w\<lparr>w_key := None\<rparr>))"
  let ?Q = "\<lambda>s. \<exists>p. logged db (L @ [Sql_open db] @ (case key of None \<Rightarrow> []
      | Some k \<Rightarrow> Sql_key k # (case p of None \<Rightarrow> [] | Some p \<Rightarrow> [Sql_exec p]))) (Rm_cred_db # cs) s"
  have key: "triple (logged db (L @ [Sql_open db]) (Rm_cred_db # cs)) ?key (\<lambda>_. ?Q) always"
  proof (cases key)
    case (Some k)
    then show ?thesis
      by (auto intro!: triple_andthen [OF logged_apply] triple_change simp: logged_def)
  qed (auto intro!: triple_ret)
  have rest: "triple ?Q (andthen (xsql_exec os INIT_TABLE_SQLSTR) (\<lambda>_. andthen (sql_raw os Sql_close)
      (\<lambda>_. andthen pop_cleanup (\<lambda>_. andthen pop_cleanup (\<lambda>_. ret (0::int))))))
     (\<lambda>r s. r = 0 \<and> (\<exists>p. logged db (L @ init_calls db (map_option (\<lambda>k. (k, p)) key)) (tl cs) s)) always"
    unfolding triple_def
  proof (intro allI impI, elim exE)
    fix s p
    let ?m = "andthen (xsql_exec os INIT_TABLE_SQLSTR) (\<lambda>_. andthen (sql_raw os Sql_close)
      (\<lambda>_. andthen pop_cleanup (\<lambda>_. andthen pop_cleanup (\<lambda>_. ret (0::int)))))"
    assume l: "logged db (L @ [Sql_open db] @ (case key of None \<Rightarrow> []
      | Some k \<Rightarrow> Sql_key k # (case p of None \<Rightarrow> [] | Some p \<Rightarrow> [Sql_exec p]))) (Rm_cred_db # cs) s"
    obtain r s' where m: "?m s = (r, s')" by fastforce
    show "case ?m s of (Ok r, s') \<Rightarrow> r = 0 \<and> (\<exists>p. logged db (L @ init_calls db (map_option (\<lambda>k. (k, p)) key)) (tl cs) s')
        | (Halt h, s') \<Rightarrow> True"
      using triple_apply [OF logged_end l m] m
      by (cases key; cases r) (auto intro!: exI [of _ p])
  qed
  have "triple (logged db L cs) (push_cleanup Rm_cred_db) (\<lambda>_. logged db L (Rm_cred_db # cs)) always"
    by (rule triple_push) (simp add: logged_def atexit_chain_push_def)
  moreover have "triple (logged db L (Rm_cred_db # cs)) (andthen (get w_cred_db) (\<lambda>db. andthen (xsql os Sqlite_open (Sql_open db))
      (\<lambda>_. andthen ?key (\<lambda>_. andthen (xsql_exec os INIT_TABLE_SQLSTR) (\<lambda>_. andthen (sql_raw os Sql_close)
      (\<lambda>_. andthen pop_cleanup (\<lambda>_. andthen pop_cleanup (\<lambda>_. ret (0::int)))))))))
     (\<lambda>r s. r = 0 \<and> (\<exists>p. logged db (L @ init_calls db (map_option (\<lambda>k. (k, p)) key)) (tl cs) s)) always"
    by (rule triple_get_eq [where x = db], simp add: logged_def)
       (rule triple_andthen [OF logged_xsql triple_andthen [OF key rest]])
  ultimately show ?thesis unfolding setup_database_def by (rule triple_andthen)
qed

lemma logged_store:
  "triple (logged db L []) (store_cipher_config os b cfg k c) (\<lambda>_. logged db L [Rm_cred_cc]) always"
proof -
  have persist: "triple (logged db L [Rm_cred_cc]) (persist_cipher_config os path c ck) (\<lambda>_. logged db L [Rm_cred_cc]) always" for path ck
    unfolding persist_cipher_config_def
    by (intro triple_andthen [OF logged_quiet] quiet_rules triple_populate) (simp_all add: logged_def set_file_def)
  have push: "triple (logged db L []) (push_cleanup Rm_cred_cc) (\<lambda>_. logged db L [Rm_cred_cc]) always"
    by (rule triple_push) (simp add: logged_def atexit_chain_push_def)
  have path: "triple (logged db L []) (case p of None \<Rightarrow> stop (Undef ''NULL path'') | Some path \<Rightarrow>
     andthen (avail_file_path_or_die os ''cipher config'' path (force_create cfg \<noteq> 0)) (\<lambda>_.
     andthen (key_to_store b cfg k) (\<lambda>ck. andthen (push_cleanup Rm_cred_cc) (\<lambda>_. persist_cipher_config os path c ck))))
     (\<lambda>_. logged db L [Rm_cred_cc]) always" for p
    by (cases p) (auto intro!: triple_stop triple_andthen [OF logged_avail] triple_andthen [OF logged_quiet]
        triple_andthen [OF push] persist quiet_rules)
  show ?thesis unfolding store_cipher_config_def by (intro triple_get_any path)
qed

text \<open>What follows on the key.\<close>

lemma logged_keyed:
  "triple (logged db L []) (andthen (push_cleanup Destroy_key) (\<lambda>_.
     andthen (choose_settings (is_passphrase k) (remember_key cfg) (init_cc cfg)) (\<lambda>(use_cc, cc).
     andthen pop_cleanup (\<lambda>_.
     andthen (if \<not> use_cc then ret () else store_cipher_config os (is_passphrase k) cfg k cc) (\<lambda>_.
       setup_database os (Some k) cc)))))
     (\<lambda>r s. r = 0 \<and> (\<exists>p. logged db (L @ init_calls db (Some (k, p))) [] s)) always" (is "triple _ _ ?Q _")
proof -
  have push: "triple (logged db L []) (push_cleanup Destroy_key) (\<lambda>_. logged db L [Destroy_key]) always"
    and pop: "triple (logged db L [Destroy_key]) pop_cleanup (\<lambda>_. logged db L []) always"
    by (rule triple_push triple_pop; simp add: logged_def atexit_chain_push_def atexit_chain_pop_def)+
  have set: "triple (logged db L cs) (setup_database os (Some k) c) ?Q always" if "tl cs = []" for cs c
    by (rule triple_post [OF setup_database_logged]) (use that in \<open>auto simp del: init_calls.simps\<close>)
  have plain: "triple (logged db L []) (andthen (ret ()) (\<lambda>_. setup_database os (Some k) c)) ?Q always" for c
    unfolding andthen_ret by (rule set) simp
  have stored: "triple (logged db L []) (andthen (store_cipher_config os b cfg k c) (\<lambda>_. setup_database os (Some k) c)) ?Q always"
    for b c
    by (rule triple_andthen [OF logged_store set]) simp
  show ?thesis
    by (intro triple_andthen [OF push] triple_andthen [OF logged_quiet] quiet_rules)
       (auto intro!: triple_andthen [OF pop] plain stored simp del: init_calls.simps split: prod.split)
qed

lemma logged_key_source:
  "triple (logged db L []) (if use_cmdkey cfg \<noteq> 0 then request_cmdkey 0 else random_key os) (\<lambda>_. logged db L []) always"
proof (rule triple_if)
  show "triple (logged db L []) (request_cmdkey 0) (\<lambda>_. logged db L []) always"
    by (rule triple_post [OF request_cmdkey_keeps]) (simp_all add: logged_key)
  show "triple (logged db L []) (random_key os) (\<lambda>_. logged db L []) always"
    unfolding random_key_def
    by (auto intro!: triple_andthen [OF logged_quiet [OF quiet_basic(3)]] triple_andthen [OF logged_set_key] triple_ret
        split: prod.split)
qed

lemma logged_encrypted:
  "triple (logged db L []) (init_encrypted os cfg)
     (\<lambda>r s. r = 0 \<and> (\<exists>k p. logged db (L @ init_calls db (Some (k, p))) [] s)) always"
  unfolding init_encrypted_def
  by (rule triple_andthen [OF logged_key_source triple_post [OF logged_keyed]]) (auto simp del: init_calls.simps)

lemma logged_body:
  "triple (logged db L []) (init_body os cfg)
     (\<lambda>r s. r = 0 \<and> (\<exists>k. logged db (L @ init_calls db k) [] s \<and> (k = None \<longleftrightarrow> use_encryption cfg = 0 \<and> use_cmdkey cfg = 0)))
     always"
proof -
  let ?plain = "use_encryption cfg = 0 \<and> use_cmdkey cfg = 0"
  have "triple (logged db L []) (if ?plain then setup_database os None (init_cc cfg) else init_encrypted os cfg)
     (\<lambda>r s. r = 0 \<and> (\<exists>k. logged db (L @ init_calls db k) [] s \<and> (k = None \<longleftrightarrow> ?plain))) always"
  proof (rule triple_if)
    assume ?plain
    then show "triple (logged db L []) (setup_database os None (init_cc cfg))
       (\<lambda>r s. r = 0 \<and> (\<exists>k. logged db (L @ init_calls db k) [] s \<and> (k = None \<longleftrightarrow> ?plain))) always"
      by (intro triple_post [OF setup_database_logged]) auto
  next
    assume "\<not> ?plain"
    then show "triple (logged db L []) (init_encrypted os cfg)
       (\<lambda>r s. r = 0 \<and> (\<exists>k. logged db (L @ init_calls db k) [] s \<and> (k = None \<longleftrightarrow> ?plain))) always"
      by (intro triple_post [OF logged_encrypted]) (fastforce simp del: init_calls.simps)+
  qed
  from triple_andthen [OF logged_avail this] show ?thesis
    unfolding init_body_def by (intro triple_get_any) 
qed

text \<open>The key buffer is cleared before the tables are made.\<close>

definition wiped :: "pk \<Rightarrow> bool" where
  "wiped s \<longleftrightarrow> w_key (world s) = None"

lemma calm_wiped [simp]: "calm wiped" "calm (\<lambda>_. True)"
  by (auto simp: calm_def wiped_def talks_fields)

lemma wiped_quiet: "quiet m \<Longrightarrow> triple wiped m (\<lambda>_. wiped) always"
  by (rule triple_post [OF triple_quiet]) simp_all

lemma wiped_setup:
  "triple (\<lambda>s. key = None \<longrightarrow> wiped s) (setup_database os key c) (\<lambda>_. wiped) always"
proof -
  let ?P = "\<lambda>s. key = None \<longrightarrow> wiped s"
  have calmP: "calm ?P" by (auto simp: calm_def wiped_def talks_fields)
  have open_: "triple ?P (xsql os Sqlite_open (Sql_open p)) (\<lambda>_. ?P) always" for p
    by (rule triple_xsql) (use calmP in \<open>auto simp: wiped_def after_sql_def\<close>)
  have key: "triple ?P (case key of None \<Rightarrow> ret ()
      | Some k \<Rightarrow> andthen (apply_cipher os k c) (\<lambda>_. change (\<lambda>w. w\<lparr>w_key := None\<rparr>))) (\<lambda>_. wiped) always"
    by (cases key) (auto simp: wiped_def triple_def ret_def andthen_def change_def split: prod.split res.split)
  have rest: "triple wiped (andthen (xsql_exec os INIT_TABLE_SQLSTR) (\<lambda>_. andthen (sql_raw os Sql_close)
      (\<lambda>_. andthen pop_cleanup (\<lambda>_. andthen pop_cleanup (\<lambda>_. ret (0::int)))))) (\<lambda>_. wiped) always"
    by (intro triple_andthen [of wiped _ "\<lambda>_. wiped"] triple_xsql_exec triple_sql_raw triple_pop triple_ret)
       (auto simp: wiped_def after_sql_def atexit_chain_pop_def split: list.split)
  show ?thesis
    unfolding setup_database_def
    by (intro triple_andthen [of ?P "push_cleanup Rm_cred_db" "\<lambda>_. ?P"] triple_push triple_get_any
        triple_andthen [OF open_] triple_andthen [OF key] rest)
       (simp add: wiped_def atexit_chain_push_def)
qed

lemma wiped_end: "triple (\<lambda>_. True) (init_encrypted os cfg) (\<lambda>_. wiped) always"
proof -
  have any: "triple (\<lambda>_. True) m (\<lambda>_ _. True) always" for m :: "'a act"
    by (auto simp: triple_def split: prod.split res.split)
  have "triple (\<lambda>_. True) (setup_database os (Some k) c) (\<lambda>_. wiped) always" for k c
    using wiped_setup [of "Some k"] by simp
  then show ?thesis
    unfolding init_encrypted_def
    by (intro triple_andthen [OF any]) (auto intro!: triple_andthen [OF any] split: prod.split)
qed

lemma wiped_body: "triple wiped (init_body os cfg) (\<lambda>_. wiped) always"
proof -
  have avail: "triple wiped (avail_file_path_or_die os ty p force) (\<lambda>_. wiped) always" for ty p force
  proof -
    have "triple wiped (change (\<lambda>w. w\<lparr>w_files := (w_files w)(p := None)\<rparr>)) (\<lambda>_. wiped) always"
      by (rule triple_change) (simp add: wiped_def)
    then show ?thesis
      unfolding avail_file_path_or_die_def
      by (intro triple_get_any triple_andthen triple_if) (auto intro!: wiped_quiet quiet_rules)
  qed
  have "triple wiped (setup_database os None c) (\<lambda>_. wiped) always" for c
    using wiped_setup [of None] by simp
  moreover have "triple wiped (init_encrypted os cfg) (\<lambda>_. wiped) always"
    using triple_pre [OF wiped_end] by simp
  ultimately show ?thesis
    unfolding init_body_def by (intro triple_get_any triple_andthen [OF avail]) auto
qed

text \<open>
  C7. A run of pk init that returns has created the database by exactly these calls of
  sqlite3: open, then, if encryption was asked for, the key and the text of the settings,
  then the tables and close.  No cleanup function is left and the key buffer is cleared.
\<close>

theorem init_success:
  assumes "init_body os cfg s = (Ok r, s')" "atexit_func s = []" "w_key (world s) = None"
  shows "r = 0 \<and> atexit_func s' = [] \<and> w_key (world s') = None
    \<and> (\<exists>k. w_sql (world s') = w_sql (world s) @ init_calls (w_cred_db (world s)) k
           \<and> (k = None \<longleftrightarrow> use_encryption cfg = 0 \<and> use_cmdkey cfg = 0))"
proof -
  have "logged (w_cred_db (world s)) (w_sql (world s)) [] s" "wiped s"
    using assms(2,3) by (simp_all add: logged_def wiped_def)
  then show ?thesis
    using triple_apply [OF logged_body _ assms(1)] triple_apply [OF wiped_body _ assms(1)]
    by (auto simp: logged_def wiped_def)
qed

theorem init_success_witness:
  "\<exists>s'. init_body (sample_os (\<lambda>_ _. (0, None))) (init_settings_of init_cells) sample_pk = (Ok 0, s')
    \<and> w_sql (world s') = [Sql_open ''db'', Sql_exec INIT_TABLE_SQLSTR, Sql_close] \<and> atexit_func s' = []"
proof -
  let ?os = "sample_os (\<lambda>_ _. (0, None))" and ?cfg = "init_settings_of init_cells"
  have cfg: "use_encryption ?cfg = 0" "use_cmdkey ?cfg = 0"
    by (simp_all add: init_settings_of_def init_cells_def int_var_def)
  have dir: "avail_file_dir (os_mkdir ?os) (os_wx ?os) ''db'' = 0"
    by (simp add: sample_os_def avail_file_dir_def avail_dir_def)
  have fine: "fst (os_sql ?os calls call) = SQLITE_OK" for calls call
    by (simp add: sample_os_def SQLITE_OK_def)
  have "\<exists>s'. init_body ?os ?cfg sample_pk = (Ok 0, s')"
    using avail_run [of sample_pk "''db''" ?os, OF _ dir] cfg
    by (simp add: init_body_def setup_database_def SQLITE_OK_def act_simps xsql_run xsql_exec_run sql_raw_run fine sample_pk_def
        atexit_chain_push_def ret_def)
  then obtain s' where s': "init_body ?os ?cfg sample_pk = (Ok 0, s')" ..
  then show ?thesis
    using init_success [OF s'] cfg by (auto simp: sample_pk_def)
qed

section \<open>Random keys\<close>

definition random_key_text :: "byte list \<Rightarrow> string" where
  "random_key_text bytes = chars_of (blob_text (hex_encode bytes))"

lemma random_key_run:
  assumes "os_rand os BINKEY_LEN = Some bytes" "length bytes = BINKEY_LEN"
  shows "random_key os s = (Ok (random_key_text bytes), s\<lparr>world := (world s)\<lparr>w_key := Some (random_key_text bytes)\<rparr>\<rparr>)"
proof -
  have m: "mem_write (replicate 32 None) 0 bytes = Ok (map Some bytes)"
    using assms(2) by (simp add: mem_write_def BINKEY_LEN_def)
  have r: "random_bytes_routine (os_rand os) None BINKEY_LEN True = Ok (0, Some (map Some bytes))"
    using assms m by (simp add: random_bytes_routine_def xmalloc_def BINKEY_LEN_def size_bounds)
  have b: "bin2blob (map Some bytes) BINKEY_LEN = Ok (map Some (blob_text (hex_encode bytes) @ [0]), 67)"
    using bin2blob_text [of bytes] assms(2) by (simp add: BINKEY_LEN_def size_bounds)
  have l: "length (blob_text (hex_encode bytes)) = 67" using assms(2) by (simp add: blob_text_def BINKEY_LEN_def)
  then have "mem_read (map Some (blob_text (hex_encode bytes) @ [0])) 0 67 = Ok (blob_text (hex_encode bytes))"
    by (intro mem_read_prefix) simp_all
  then show ?thesis
    using r b by (simp add: random_key_def act_simps require_success_def ret_def random_key_text_def)
qed

lemma random_key_no_passphrase:
  assumes "length bytes = BINKEY_LEN"
  shows "\<not> is_passphrase (random_key_text bytes)"
proof -
  have "length (hex_encode bytes) = 64" using assms by (simp add: BINKEY_LEN_def)
  then have "is_blob_key (blob_text (hex_encode bytes) @ [0]) 67"
    by (simp add: is_blob_key_def blob_text_def BLOBKEY_LEN_def KEYSALT_LEN_def HEXKEY_LEN_def is_hexstr_iff
        nth_append hex_encode_digits)
  moreover have "bytes_of (random_key_text bytes @ [NUL]) = blob_text (hex_encode bytes) @ [0]"
    using bytes_chars [of "blob_text (hex_encode bytes)"] by (simp add: random_key_text_def bytes_of_def)
  moreover have "length (random_key_text bytes) = 67"
    using assms by (simp add: random_key_text_def chars_of_def blob_text_def BINKEY_LEN_def)
  ultimately show ?thesis by (simp add: is_passphrase_def)
qed

lemma pop_push_key [simp]:
  "snd (atexit_chain_pop ((atexit_chain_push c s)\<lparr>world := w\<rparr>)) = s\<lparr>world := w\<rparr>"
  by (simp add: atexit_chain_push_def atexit_chain_pop_def)

lemma choose_default: "choose_settings False 0 CC_INIT s = (Ok (False, CC_INIT), s)"
  by (simp add: choose_settings_def set_kdf_algorithm_def set_hmac_algorithm_def set_kdf_iter_def set_page_size_def
      set_compatibility_def act_simps ret_def CC_INIT_def is_cc_page_size_def is_cc_compatibility_def in_range_e_def
      in_range_i_def cprdef_defs is_pow2_def)

lemma apply_default: "format_apply_cc_sqlstr CC_INIT = Ok None"
  by (simp add: format_apply_cc_sqlstr_def pragma_alg_def pragma_uint_def CC_INIT_def STRBUF_INIT_def)

text \<open>
  C26. pk init --encrypt --no-remember loses the key: with default settings the database is
  encrypted with the random key, but the key is neither printed nor stored in any file, its
  buffer is cleared, and the command succeeds.
\<close>

theorem init_random_key_lost:
  assumes "use_encryption cfg \<noteq> 0" "use_cmdkey cfg = 0" "remember_key cfg = 0" "init_cc cfg = CC_INIT"
    "sql_fine os" "os_rand os BINKEY_LEN = Some bytes" "length bytes = BINKEY_LEN"
    "w_files (world s) (w_cred_db (world s)) = None"
    "avail_file_dir (os_mkdir os) (os_wx os) (w_cred_db (world s)) = 0"
  shows "\<exists>s'. init_body os cfg s = (Ok 0, s')
    \<and> Sql_key (random_key_text bytes) \<in> set (w_sql (world s')) \<and> w_out (world s') = w_out (world s)
    \<and> (\<forall>p. p \<noteq> w_cred_db (world s) \<longrightarrow> w_files (world s') p = w_files (world s) p) \<and> w_key (world s') = None"
proof -
  have fine: "call \<noteq> Sql_step \<Longrightarrow> fst (os_sql os calls call) = SQLITE_OK" for calls call
    using assms(5) by (simp add: sql_fine_def)
  show ?thesis
    using assms(1-4) random_key_no_passphrase [OF assms(7)]
    by (simp add: init_body_def init_encrypted_def setup_database_def apply_cipher_def act_simps ret_def
        avail_run [OF assms(8,9)] random_key_run [OF assms(6,7)] choose_default apply_default fine xsql_run xsql_exec_run
        sql_raw_run)
qed

theorem init_random_key_lost_witness:
  "let os = sample_os (\<lambda>_ call. (if call = Sql_step then SQLITE_DONE else SQLITE_OK, None));
       cfg = \<lparr>use_encryption = 1, use_cmdkey = 0, remember_key = 0, force_create = 0, init_cc = CC_INIT\<rparr>
   in \<exists>s'. init_body os cfg sample_pk = (Ok 0, s') \<and> w_out (world s') = []
    \<and> Sql_key (random_key_text (replicate BINKEY_LEN 0)) \<in> set (w_sql (world s'))"
proof -
  let ?os = "sample_os (\<lambda>_ call. (if call = Sql_step then SQLITE_DONE else SQLITE_OK, None))"
  let ?cfg = "\<lparr>use_encryption = 1, use_cmdkey = 0, remember_key = 0, force_create = 0, init_cc = CC_INIT\<rparr>"
  have "sql_fine ?os" by (simp add: sql_fine_def sample_os_def)
  moreover have "os_rand ?os BINKEY_LEN = Some (replicate BINKEY_LEN 0)"
    "avail_file_dir (os_mkdir ?os) (os_wx ?os) (w_cred_db (world sample_pk)) = 0"
    by (simp_all add: sample_os_def avail_file_dir_def avail_dir_def)
  ultimately show ?thesis
    using init_random_key_lost [of ?cfg ?os "replicate BINKEY_LEN 0" sample_pk]
    by (auto simp: Let_def sample_pk_def)
qed

section \<open>The file written\<close>

lemma populate_returns:
  assumes "populate os p content s = (Ok (), s')"
  shows "s' = s\<lparr>world := set_file p content (world s)\<rparr>"
proof -
  obtain fd where o: "os_open os p = Inr fd"
    using assms by (cases "os_open os p") (auto simp: populate_def populate_file_def xopen_def act_simps lift_def)
  obtain as where l: "io_loop (os_write os p) = Some (Count (length content), as)"
    using assms o by (auto simp: populate_def populate_file_def xopen_def xwrite_def pk_write_def act_simps andthen_def
        change_def stop_def lift_def split: option.splits io_answer.splits prod.splits if_splits)
  show ?thesis
    using assms o l by (auto simp: populate_def populate_file_def xopen_def xwrite_def pk_write_def act_simps andthen_def
        change_def stop_def lift_def accepted_def)
qed

lemma persist_writes:
  assumes "persist_cipher_config os path cc ck s = (Ok (), s')" "config_ok cc ck"
    "os_sha256 os (file_bytes cc ck) = Some digest" "length digest = 32"
  shows "s' = s\<lparr>world := set_file path (chars_of (file_bytes cc ck @ digest)) (world s)\<rparr>"
proof -
  let ?fb = "file_bytes cc ck"
  obtain b where b: "serialize_cipher_config cc ck = Ok (Some b, length ?fb)"
      "take (length ?fb) b = map Some ?fb" "length ?fb + CIPHER_DIGEST_LENGTH \<le> length b"
    using serialize_bytes [of cc ck] assms(2) by (auto simp: config_ok_def)
  have r: "mem_read b 0 (length ?fb) = Ok ?fb" using b(2,3) by (intro mem_read_prefix) simp_all
  have w: "mem_write b (length ?fb) (take CIPHER_DIGEST_LENGTH digest)
      = Ok (map Some (?fb @ digest) @ drop (length ?fb + length digest) b)"
    using mem_write_prefix [of ?fb b digest] b(2,3) assms(4) by (simp add: CIPHER_DIGEST_LENGTH_def)
  have "mem_read (map Some (?fb @ digest) @ drop (length ?fb + length digest) b) 0 (length ?fb + CIPHER_DIGEST_LENGTH)
      = Ok (?fb @ digest)"
    using assms(4) by (intro mem_read_prefix) (simp_all add: CIPHER_DIGEST_LENGTH_def)
  then have "persist_cipher_config os path cc ck s = populate os path (chars_of (?fb @ digest)) s"
    using b(1) r w assms(3) by (simp add: persist_cipher_config_def digest_message_sha256_def act_simps)
  then show ?thesis using populate_returns assms(1) by simp
qed



end
