(* ===== verification/Editor.thy ===== *)
theory Editor
  imports Running
begin

text \<open>
  Starting programs and waiting for them (\<^verbatim>\<open>src/src/compat/uni/pkproc.c\<close>, the parent's part),
  the spinner (\<^verbatim>\<open>src/src/spinner.c\<close>) and the editor (\<^verbatim>\<open>src/src/exteditor.c\<close>).  The reading end
  of the pipe yields \<open>pipe_message\<close>, as the step relation of theory Process shows.
\<close>

section \<open>Waiting\<close>

definition SIGINT :: int where "SIGINT = 2"
definition SIGQUIT :: int where "SIGQUIT = 3"
definition SIGPIPE :: int where "SIGPIPE = 13"

definition say_warning_errno :: "string \<Rightarrow> string \<Rightarrow> unit act" where
  "say_warning_errno detail txt =
     andthen (lift (warning_routine (Some detail) (Some txt))) (print_to To_stderr)"

text \<open>
  The loop of finish_process.  After an answer that is no status, \<^verbatim>\<open>status\<close> is still what it
  was, and the condition of the loop reads it.  The result is \<^verbatim>\<open>rescode\<close> and \<^verbatim>\<open>errnum\<close>.
\<close>

fun wait_loop ::
    "proc_os \<Rightarrow> string \<Rightarrow> bool \<Rightarrow> uint \<Rightarrow> int \<Rightarrow> errnum option \<Rightarrow> (errnum + uint) list \<Rightarrow> (int \<times> errnum option) act" where
  "wait_loop po program raised status rescode errnum [] = stop Waits"
| "wait_loop po program raised status rescode errnum (a # as) =
     andthen
       (case a of
          Inl e \<Rightarrow>
            if e = EINTR then ret (status, rescode, errnum)
            else andthen (say_warning_errno (po_strerror po e) (''unable to wait for '' @ program @ '' to terminate'')) (\<lambda>_.
                   ret (status, rescode, Some e))
        | Inr st \<Rightarrow>
            if WIFEXITED st then ret (st, WEXITSTATUS st, errnum)
            else if WIFSIGNALED st
            then (if \<not> raised \<and> WTERMSIG st \<noteq> SIGINT \<and> WTERMSIG st \<noteq> SIGQUIT \<and> WTERMSIG st \<noteq> SIGPIPE
                  then andthen (say_warning (program @ '' died (signal '' @ dec_string (nat (WTERMSIG st)) @ '')'')) (\<lambda>_.
                         ret (st, WTERMSIG st + 128, errnum))
                  else ret (st, WTERMSIG st, errnum))
            else stop (Bug ''unexpected status''))
       (\<lambda>(status, rescode, errnum).
          if \<not> WIFEXITED status \<and> \<not> WIFSIGNALED status
          then wait_loop po program raised status rescode errnum as
          else ret (rescode, errnum))"

definition finish_process :: "proc_os \<Rightarrow> string \<Rightarrow> bool \<Rightarrow> (int \<times> errnum option) act" where
  "finish_process po program raised = wait_loop po program raised (po_junk po) (-1) None (po_wait po)"

section \<open>Starting\<close>

text \<open>The pointer of a failed dup2 leads into the stack of the process that has ended.\<close>

definition error_chlerr :: "proc_os \<Rightarrow> child_error \<Rightarrow> unit act" where
  "error_chlerr po errobj =
     (case errext errobj of
        Child_fds fd1 fd2 \<Rightarrow> stop (Undef ''the descriptors are in the stack of the child'')
      | Program_name program \<Rightarrow>
          say_warning_errno (po_strerror po (syserr errobj)) (''failed to execute command '' @ squote program))"

definition check_child_died :: "proc_os \<Rightarrow> string \<Rightarrow> child_error option \<Rightarrow> bool act" where
  "check_child_died po program outcome =
     (case pipe_message po outcome of
        None \<Rightarrow> ret False
      | Some errobj \<Rightarrow>
          andthen (finish_process po program False) (\<lambda>_.
          andthen (error_chlerr po errobj) (\<lambda>_. ret True)))"

definition after_fork :: "proc_os \<Rightarrow> string \<Rightarrow> child_error option \<Rightarrow> bool act" where
  "after_fork po program outcome =
     andthen (case po_fork po of
                Inl e \<Rightarrow> say_warning_errno (po_strerror po e) (''cannot fork() for '' @ program)
              | Inr _ \<Rightarrow> ret ()) (\<lambda>_.
       check_child_died po program outcome)"

text \<open>
  \<open>make_process_fildes\<close> opens \<^verbatim>\<open>/dev/null\<close> or dies.  The child never returns here.  The result
  is -1 when fork failed or the child has reported an error (\<^verbatim>\<open>ctx->pid < 0\<close>).
\<close>

definition make_process_fildes :: "proc_os \<Rightarrow> int act" where
  "make_process_fildes po = lift (xopen (po_nul po))"

definition mkprocl :: "proc_os \<Rightarrow> string \<Rightarrow> uint \<Rightarrow> string \<Rightarrow> string list \<Rightarrow> int act" where
  "mkprocl po program fildes_flags arg0 args =
     andthen (make_process_fildes po) (\<lambda>nulfd.
     andthen (if forked po then lift (child_exec po fildes_flags nulfd arg0 args) else ret None) (\<lambda>outcome.
     andthen (after_fork po program outcome) (\<lambda>died.
       ret (if died \<or> \<not> forked po then -1 else 0))))"

definition mkprocf :: "proc_os \<Rightarrow> string \<Rightarrow> uint \<Rightarrow> int act" where
  "mkprocf po program fildes_flags =
     andthen (make_process_fildes po) (\<lambda>nulfd.
     andthen (after_fork po program (if forked po then child_call po fildes_flags nulfd else None)) (\<lambda>died.
       ret (if died \<or> \<not> forked po then -1 else 0)))"

text \<open>The style is compared with strcmp.\<close>

definition run_spinner :: "proc_os \<Rightarrow> strptr \<Rightarrow> int act" where
  "run_spinner po style =
     (case style of
        StrPtr s \<Rightarrow>
          andthen (if s = ''kawaii'' then ret ()
                   else if s \<noteq> ''default''
                   then say_note (''Unknown spinner style '' @ squote s @ '', fallback to default style.'')
                   else ret ()) (\<lambda>_.
            mkprocf po ''spinner'' 0)
      | _ \<Rightarrow> stop (Undef ''strcmp of a pointer that is no string''))"

section \<open>The editor\<close>

definition graphical_editor_list :: "string list" where
  "graphical_editor_list =
     [''gedit'', ''gnome-text-editor'', ''kate'', ''code'', ''notepad'', ''notepad++'', ''subl'']"

definition show_spinner :: "string \<Rightarrow> strptr \<Rightarrow> bool" where
  "show_spinner ext_editor style \<longleftrightarrow>
     style \<noteq> NullPtr \<and> (findstr ext_editor graphical_editor_list \<or> style \<noteq> MarkPtr)"

definition edit_file :: "os \<Rightarrow> string \<Rightarrow> int act" where
  "edit_file os pathname =
     andthen (get w_editor) (\<lambda>ed. case ed of
       None \<Rightarrow> say_error None ''unable to find an editor; make sure VISUAL, EDITOR or PK_EDITOR is set in env''
     | Some ext_editor \<Rightarrow>
         andthen (change (\<lambda>w. w\<lparr>w_ignored := insert SIGINT (insert SIGQUIT (w_ignored w))\<rparr>)) (\<lambda>_.
         andthen (mkprocl (os_editor os) ext_editor 0 ext_editor [ext_editor, pathname]) (\<lambda>r.
         if r \<noteq> 0
         then say_error None (''unable to launch editor '' @ squote (if ext_editor = [] then ''(empty)'' else ext_editor))
         else
           andthen (get w_spinner) (\<lambda>style.
           andthen (if show_spinner ext_editor style
                    then andthen (run_spinner (os_spinner os) style) (\<lambda>r.
                           if r \<noteq> 0
                           then andthen (say_note (''something terrible happened, but it''
                                  @ [CHR 0x27] @ ''s harmless, and the program will continue'')) (\<lambda>_. ret False)
                           else ret True)
                    else ret False) (\<lambda>spinning.
           andthen (change (\<lambda>w. w\<lparr>w_files := os_edit os ext_editor pathname (w_files w)\<rparr>)) (\<lambda>_.
           andthen (finish_process (os_editor os) ext_editor False) (\<lambda>_.
           andthen (if spinning then andthen (finish_process (os_spinner os) ''spinner'' True) (\<lambda>_. ret ())
                    else ret ()) (\<lambda>_.
           andthen (change (\<lambda>w. w\<lparr>w_ignored := w_ignored w - {SIGINT, SIGQUIT}\<rparr>)) (\<lambda>_. ret 0)))))))))"

section \<open>What they do to the program\<close>

lemma quiet_wait_loop [quiet_rules]: "quiet (wait_loop po prog raised st rc e as)"
  by (induction as arbitrary: st rc e)
     (auto simp: say_warning_errno_def split: sum.split intro!: quiet_rules)

lemma say_warning_errno_run:
  assumes "length t + length (detail_text (Some d)) < 4000"
  shows "say_warning_errno d t s = (Ok (), s\<lparr>world := (world s)\<lparr>w_out := w_out (world s)
      @ [(To_stderr, ''warning: '' @ t @ detail_text (Some d) @ [NL])]\<rparr>\<rparr>)"
  using vreportf_fits [of "''warning: ''" t "Some d"] assms
  by (simp add: say_warning_errno_def warning_routine_def act_simps print_run REPORT_SIZE_def)

lemma quiet_say_errno [quiet_rules]: "quiet (say_warning_errno d t)"
  by (auto simp: say_warning_errno_def intro!: quiet_rules)

lemma quiet_finish [quiet_rules]: "quiet (finish_process po prog raised)"
  by (simp add: finish_process_def quiet_rules)

lemma quiet_chlerr [quiet_rules]: "quiet (error_chlerr po eo)"
  by (auto simp: error_chlerr_def split: errext.split intro!: quiet_rules)

lemma quiet_check_child [quiet_rules]: "quiet (check_child_died po prog out)"
  by (auto simp: check_child_died_def split: option.split intro!: quiet_rules)

lemma quiet_after_fork [quiet_rules]: "quiet (after_fork po prog out)"
  by (auto simp: after_fork_def split: sum.split intro!: quiet_rules)

lemma quiet_mkproc [quiet_rules]: "quiet (mkprocl po prog fl arg0 args)" "quiet (mkprocf po prog fl)"
  by (auto simp: mkprocl_def mkprocf_def make_process_fildes_def intro!: quiet_rules)

lemma quiet_run_spinner [quiet_rules]: "quiet (run_spinner po style)"
  by (auto simp: run_spinner_def split: strptr.split intro!: quiet_rules)

text \<open>What survives the signals and the editor survives edit_file.\<close>

lemma edit_file_keeps:
  assumes "calm P" "\<And>s i. P s \<Longrightarrow> P (s\<lparr>world := (world s)\<lparr>w_ignored := i\<rparr>\<rparr>)"
    "\<And>s ed. P s \<Longrightarrow> P (s\<lparr>world := (world s)\<lparr>w_files := os_edit os ed path (w_files (world s))\<rparr>\<rparr>)"
  shows "triple P (edit_file os path) (\<lambda>_. P) (\<lambda>_. P)"
  unfolding edit_file_def
  by (intro triple_get_any triple_option triple_change_step [where R = P] triple_if
      triple_quiet_step [OF _ assms(1)] triple_quiet [OF _ assms(1)] triple_ret assms(2,3) quiet_rules)
     simp_all

section \<open>Properties\<close>

text \<open>
  With one of the graphical editors and without --spinner, edit_file has undefined
  behaviour as soon as the editor is running: the default of spinner_style is the pointer
  -1, and run_spinner compares it as a string.
\<close>

theorem graphical_editor_undefined:
  assumes "w_editor (world s) = Some ed" "ed \<in> set graphical_editor_list" "w_spinner (world s) = MarkPtr"
    "po_nul (os_editor os) = Inr fd" "forked (os_editor os)"
    "po_exec (os_editor os) ed [Some ed, Some path, None] = None"
  shows "\<exists>why s'. edit_file os path s = (Halt (Undef why), s')"
proof -
  have "child_exec (os_editor os) 0 fd ed [ed, path] = Ok None"
    using assms(6) child_argv_words [of "[ed, path]"] by (simp add: child_exec_def redirect_stdio_def SAFE_SIZE_def)
  moreover obtain pid where "po_fork (os_editor os) = Inr pid" using assms(5) by (auto simp: forked_def split: sum.splits)
  ultimately show ?thesis
    using assms(1-5)
    by (simp add: edit_file_def act_simps mkprocl_def make_process_fildes_def xopen_def after_fork_def check_child_died_def
        pipe_message_def show_spinner_def findstr_iff run_spinner_def) (simp add: stop_def)
qed

theorem graphical_editor_undefined_witness:
  "\<exists>why s'. edit_file (sample_os (\<lambda>_ _. (0, None))) ''rec'' (sample_pk\<lparr>world := (world sample_pk)\<lparr>w_editor := Some ''code''\<rparr>\<rparr>)
     = (Halt (Undef why), s')"
  by (rule graphical_editor_undefined [where ed = "''code''"])
     (simp_all add: sample_pk_def sample_os_def graphical_editor_list_def)

text \<open>
  While the editor runs, pk ignores SIGINT and SIGQUIT.  When edit_file succeeds, both
  have their default action again; when the editor could not be launched, they stay ignored.
\<close>

theorem edit_file_signals:
  assumes "edit_file os path s = (Ok r, s')"
  shows "w_ignored (world s') =
    (if w_editor (world s) = None then w_ignored (world s)
     else if r = 0 then w_ignored (world s) - {SIGINT, SIGQUIT}
     else insert SIGINT (insert SIGQUIT (w_ignored (world s))))"
proof -
  let ?ign = "\<lambda>I s. w_ignored (world s) = I"
  let ?I = "w_ignored (world s)" and ?J = "insert SIGINT (insert SIGQUIT (w_ignored (world s)))"
  let ?P = "\<lambda>t. ?ign ?I t \<and> w_editor (world t) = w_editor (world s)"
  let ?Q = "\<lambda>r t. if w_editor (world s) = None then ?ign ?I t
    else if r = 0 then ?ign (?I - {SIGINT, SIGQUIT}) t else ?ign ?J t"
  have calm: "calm (?ign I)" for I by (simp add: calm_def talks_fields)
  have talk: "triple (?ign I) (say_error d t) (\<lambda>r u. r = -1 \<and> ?ign I u) (\<lambda>_ _. True)" for I d t
    by (rule triple_say_error [OF calm]) simp
  have "triple ?P (edit_file os path) ?Q (\<lambda>_ _. True)"
    unfolding edit_file_def
  proof (rule triple_get_eq [where x = "w_editor (world s)"], simp, rule triple_option, goal_cases)
    case 1
    then show ?case by (intro triple_pre [OF triple_post [OF talk [of ?I]]]) simp_all
  next
    case (2 ed)
    have end_: "triple (?ign ?J) (andthen (change (\<lambda>w. w\<lparr>w_ignored := w_ignored w - {SIGINT, SIGQUIT}\<rparr>)) (\<lambda>_. ret 0))
        ?Q (\<lambda>_ _. True)"
      using 2 by (intro triple_change_step [where R = "?ign (?I - {SIGINT, SIGQUIT})"] triple_ret) auto
    show ?case
      by (intro triple_change_step [where R = "?ign ?J"] triple_if triple_get_any end_ triple_post [OF talk [of ?J]]
          triple_quiet_step [OF _ calm] quiet_rules) (simp_all add: 2)
  qed
  from triple_apply [OF this, of s "Ok r" s'] assms show ?thesis by simp
qed

theorem edit_file_signals_witness:
  "let os = (sample_os (\<lambda>_ _. (0, None)))\<lparr>os_editor := sample_proc (Some ENOENT)\<rparr>
   in \<exists>s'. edit_file os ''rec'' sample_pk = (Ok (-1), s') \<and> w_ignored (world s') = {SIGINT, SIGQUIT}"
proof -
  let ?os = "(sample_os (\<lambda>_ _. (0, None)))\<lparr>os_editor := sample_proc (Some ENOENT)\<rparr>"
  have "child_exec (sample_proc (Some ENOENT)) 0 3 ''vi'' [''vi'', ''rec'']
      = Ok (Some \<lparr>chlerr = ERROR_EXEC, syserr = ENOENT, errext = Program_name ''vi''\<rparr>)"
    using child_argv_words [of "[''vi'', ''rec'']"]
    by (simp add: child_exec_def redirect_stdio_def SAFE_SIZE_def)
  moreover have "finish_process (sample_proc e) prog raised s = (Ok (0, None), s)" for e prog raised s
    by (simp add: finish_process_def act_simps WIFEXITED_def WEXITSTATUS_def ret_def)
  ultimately have "\<exists>s'. edit_file ?os ''rec'' sample_pk = (Ok (-1), s')"
    by (simp add: edit_file_def sample_pk_def act_simps mkprocl_def make_process_fildes_def xopen_def after_fork_def
        check_child_died_def error_chlerr_def say_warning_errno_run say_error_run pipe_message_def squote_def detail_text_def)
  then obtain s' where "edit_file ?os ''rec'' sample_pk = (Ok (-1), s')" ..
  then show ?thesis using edit_file_signals [of ?os "''rec''" sample_pk "-1" s'] by (auto simp: sample_pk_def)
qed

section \<open>The value of finish_process\<close>

definition wait_value :: "bool \<Rightarrow> uint \<Rightarrow> int" where
  "wait_value raised st =
     (if WIFEXITED st then WEXITSTATUS st
      else if raised \<or> WTERMSIG st \<in> {SIGINT, SIGQUIT, SIGPIPE} then WTERMSIG st else WTERMSIG st + 128)"

lemma dec_small: "n < 128 \<Longrightarrow> length (dec_string n) \<le> 3"
proof -
  have "\<forall>n\<in>set [0 ..< 128]. length (dec_string n) \<le> 3" by code_simp
  then show "n < 128 \<Longrightarrow> length (dec_string n) \<le> 3" by simp
qed

lemma wait_loop_value:
  assumes "WIFEXITED st \<or> WIFSIGNALED st" "\<not> WIFEXITED junk" "\<not> WIFSIGNALED junk" "\<forall>e\<in>set es. e = EINTR"
    "length prog < 3000"
  shows "\<exists>out. wait_loop po prog raised junk rc None (map Inl es @ Inr st # as) s
    = (Ok (wait_value raised st, None), s\<lparr>world := (world s)\<lparr>w_out := w_out (world s) @ out\<rparr>\<rparr>)"
  using assms(4)
proof (induction es)
  case Nil
  have "WTERMSIG st \<ge> 0" "WTERMSIG st \<le> 127" by (simp_all add: WTERMSIG_def unsigned_and_eq AND_upper2)
  then have l: "length (dec_string (nat (WTERMSIG st))) \<le> 3" using dec_small by simp
  have q: "say_warning t s = (Ok (), s\<lparr>world := (world s)\<lparr>w_out := w_out (world s) @ [(To_stderr, ''warning: '' @ t @ [NL])]\<rparr>\<rparr>)"
    if "length t < 4000" for t
    using vreportf_fits [of "''warning: ''" t None] that
    by (simp add: say_warning_def warning_routine_def act_simps print_run REPORT_SIZE_def detail_text_def)
  show ?case
    using assms(1,5) l by (auto simp: act_simps wait_value_def q ret_def intro: exI [of _ "[]"])
next
  case (Cons e es)
  then show ?case using assms(2,3) by (simp add: act_simps)
qed

text \<open>
  The value of finish_process, when what \<^verbatim>\<open>status\<close> holds at the start is not the status
  of a process that ended: interrupted calls of waitpid are repeated; then the exit code of
  the process is returned, or the signal it died from, with 128 added unless pk raised it
  or it is one of SIGINT, SIGQUIT and SIGPIPE.
\<close>

theorem finish_process_value:
  assumes "po_wait po = map Inl es @ Inr st # as" "\<forall>e\<in>set es. e = EINTR" "WIFEXITED st \<or> WIFSIGNALED st"
    "\<not> WIFEXITED (po_junk po)" "\<not> WIFSIGNALED (po_junk po)" "length prog < 3000"
  shows "fst (finish_process po prog raised s) = Ok (wait_value raised st, None)"
  using wait_loop_value [OF assms(3-5,2,6), of po raised "-1" as s] unfolding finish_process_def assms(1) by auto

theorem finish_process_value_witness:
  "let po = (sample_proc None)\<lparr>po_wait := [Inl EINTR, Inr (signal_word 9 True)]\<rparr>
   in fst (finish_process po ''vi'' False sample_pk) = Ok (137, None)"
proof -
  have "wait_value False (signal_word 9 True) = 137"
    using status_signalled [of 9 True] by (simp add: wait_value_def SIGINT_def SIGQUIT_def SIGPIPE_def)
  then show ?thesis
    using finish_process_value [of "(sample_proc None)\<lparr>po_wait := [Inl EINTR, Inr (signal_word 9 True)]\<rparr>" "[EINTR]"
        "signal_word 9 True" "[]" "''vi''" False sample_pk] status_signalled [of 9 True]
    by (simp add: sample_proc_def) (simp add: WIFEXITED_def WIFSIGNALED_def)
qed

text \<open>
  An interrupted waitpid makes finish_process return before the process has ended, if the
  uninitialised \<^verbatim>\<open>status\<close> happens to hold the status of a process that ended, such as zero:
  \<^verbatim>\<open>continue\<close> goes to the condition of the loop, not to its start.
\<close>

theorem finish_process_interrupted:
  assumes "po_wait po = Inl EINTR # as" "WIFEXITED (po_junk po) \<or> WIFSIGNALED (po_junk po)"
  shows "finish_process po prog raised s = (Ok (-1, None), s)"
  using assms by (auto simp: finish_process_def act_simps ret_def)

theorem finish_process_interrupted_witness:
  "finish_process ((sample_proc None)\<lparr>po_wait := [Inl EINTR, Inr 0], po_junk := 0\<rparr>) ''vi'' False sample_pk
   = (Ok (-1, None), sample_pk)"
  by (rule finish_process_interrupted) (simp_all add: WIFEXITED_def)

end
