(* ===== verification/Cmd_Create.thy ===== *)
theory Cmd_Create
  imports Steps Editor
begin

text \<open>
  \<^verbatim>\<open>src/src/command/create.c\<close>: the command that adds a record.  The record comes from the
  options or from a file that the user edits; the database is unlocked with a key typed in
  or with the one in the cipher configuration; the record is inserted into one to three
  tables.
\<close>

section \<open>Texts, options, variables\<close>

definition INSERT_COMMON_GROUP_SQLSTR :: string where
  "INSERT_COMMON_GROUP_SQLSTR = ''INSERT INTO account (sitename,siteurl,username,password) VALUES (:sitename,:siteurl,:username,:password);''"

definition INSERT_SECURITY_GROUP_SQLSTR :: string where
  "INSERT_SECURITY_GROUP_SQLSTR = ''INSERT INTO account_security (account_id,guard,recovery,memo) VALUES (:account_id,:guard,:recovery,:memo);''"

definition INSERT_MISC_GROUP_SQLSTR :: string where
  "INSERT_MISC_GROUP_SQLSTR = ''INSERT INTO account_misc (account_id,comment) VALUES (:account_id,:comment);''"

text \<open>The addresses of use_editor, use_cmdkey and the members of rec.\<close>

definition create_cells :: cells where
  "create_cells = [1 \<mapsto> IntCell (-1), 2 \<mapsto> IntCell 0, 3 \<mapsto> StrCell NullPtr, 4 \<mapsto> StrCell NullPtr,
     5 \<mapsto> StrCell NullPtr, 6 \<mapsto> StrCell NullPtr, 7 \<mapsto> StrCell NullPtr, 8 \<mapsto> StrCell NullPtr,
     9 \<mapsto> StrCell NullPtr, 10 \<mapsto> StrCell NullPtr]"

definition cmd_create_options :: "opt list" where
  "cmd_create_options =
    [mk_OPTION_NANO 1,
     mk_OPTION_CMDKEY 2,
     mk_OPTION_GROUP [],
     mk_OPTION_STRING NUL ''sitename'' 3 ''human readable name of a website'',
     mk_OPTION_STRING NUL ''siteurl'' 4 ''url that used for disambiguation'',
     mk_OPTION_STRING NUL ''username'' 5 ''identification that can be used to login'',
     mk_OPTION_STRING NUL ''password'' 6 ''secret phrase that can be used to login'',
     mk_OPTION_GROUP [],
     mk_OPTION_STRING NUL ''guard'' 7 ''text to help verify this account is yours'',
     mk_OPTION_STRING NUL ''recovery'' 8 ''code for account recovery'',
     mk_OPTION_PATHNAME NUL ''memo'' 9 ''screenshot of the recovery code'',
     mk_OPTION_GROUP [],
     mk_OPTION_STRING NUL ''comment'' 10 ''you just write what the fuck you want to'',
     mk_OPTION_END]"

definition cmd_create_usages :: "string list" where
  "cmd_create_usages = [''pk create [--nano] [--cmdkey] [<field>...]'']"

definition record_of :: "cells \<Rightarrow> cred_record" where
  "record_of m = \<lparr>sitename = ptr_text (str_var m 3), siteurl = ptr_text (str_var m 4),
     username = ptr_text (str_var m 5), password = ptr_text (str_var m 6), guard = ptr_text (str_var m 7),
     recovery = ptr_text (str_var m 8), memo = ptr_text (str_var m 9), rec_comment = ptr_text (str_var m 10)\<rparr>"

section \<open>The record\<close>

text \<open>\<open>None\<close> is the return with the message about missing fields.\<close>

definition setup_editor :: "int \<Rightarrow> cred_record \<Rightarrow> bool option" where
  "setup_editor use_editor rec =
     (if use_editor = -1 \<and> is_incomplete_record rec then Some True
      else if use_editor = 1 then Some True
      else if is_incomplete_record rec then None
      else Some False)"

text \<open>
  A file read in one go, as read_record_file and bind_record_security_column do; what a
  short read leaves of the buffer is uninitialised.
\<close>

definition read_whole :: "os \<Rightarrow> string \<Rightarrow> string act" where
  "read_whole os path =
     andthen (lift (xopen (os_open_rd os path))) (\<lambda>_.
     andthen (get (\<lambda>w. w_files w path)) (\<lambda>file. case file of
       None \<Rightarrow> stop (Die ''Failed to open file'')
     | Some [] \<Rightarrow> ret []
     | Some content \<Rightarrow>
         (case xread (os_read os path) (length content) of
            None \<Rightarrow> stop Waits
          | Some r \<Rightarrow>
              andthen (lift r) (\<lambda>n.
                if n = length content then ret content else stop (Undef ''the buffer is read past what was read'')))))"

definition CANCELLED_MESSAGE :: string where
  "CANCELLED_MESSAGE = ''creation is aborted due to empty record.'' @ [NL]"

definition read_edited :: "os \<Rightarrow> string \<Rightarrow> cred_record act" where
  "read_edited os path =
     andthen (read_whole os path) (\<lambda>content.
     andthen (lift (read_record_file content)) (\<lambda>outcome. case outcome of
       RecordRead rec \<Rightarrow> ret rec
     | Cancelled \<Rightarrow> andthen (print_to To_stdout CANCELLED_MESSAGE) (\<lambda>_. stop (Exit EXIT_FAILURE))
     | MissingField s \<Rightarrow>
         andthen (say_error None (s @ '' missing in the required fields'')) (\<lambda>_. stop (Exit EXIT_FAILURE))))"

definition populate_record_file :: "os \<Rightarrow> string \<Rightarrow> cred_record \<Rightarrow> unit act" where
  "populate_record_file os rec_path rec =
     andthen (lift (format_recfile_content rec)) (\<lambda>(message, length). populate os rec_path (take length message))"

definition edit_record :: "os \<Rightarrow> cred_record \<Rightarrow> cred_record act" where
  "edit_record os rec =
     andthen (push_cleanup Rm_tmp_rec) (\<lambda>_.
     andthen (get w_tmp_rec) (\<lambda>path.
     andthen (populate_record_file os path rec) (\<lambda>_.
     andthen (edit_file os path) (\<lambda>r.
     andthen (lift (require_success r 0)) (\<lambda>_.
       read_edited os path)))))"

section \<open>Unlocking\<close>

definition DECRYPT_PROMPT :: string where "DECRYPT_PROMPT = ''[pk] key for decryption: ''"

definition locate_cipher_config :: "os \<Rightarrow> string option act" where
  "locate_cipher_config os =
     andthen (get w_cred_cc) (\<lambda>p.
       case p of
         None \<Rightarrow> stop (Undef ''NULL path'')
       | Some path \<Rightarrow>
           (case find_cipher_config (os_access os path) p of
              (rc, p') \<Rightarrow>
                andthen (change (\<lambda>w. w\<lparr>w_cred_cc := p'\<rparr>)) (\<lambda>_.
                  if rc \<noteq> 0 then exit_error (Some (os_errtext os)) (''failed to find cipher config '' @ squote path)
                  else ret p')))"

text \<open>The settings and the key of the file; the key typed in is already in \<open>ck\<close>.\<close>

definition load_cipher_config :: "os \<Rightarrow> string \<Rightarrow> cipher_key \<Rightarrow> (cipher_config \<times> cipher_key) act" where
  "load_cipher_config os path ck =
     andthen (read_whole os path) (\<lambda>content.
     andthen (lift (resolve_cipher_config (os_sha256 os) (bytes_of content))) (\<lambda>(rc, found).
       case found of
         None \<Rightarrow> exit_error (Some (os_errtext os)) (''cannot resolve cipher config '' @ squote path)
       | Some (buf, len) \<Rightarrow>
           andthen (lift (deserialize_cipher_config (CC_INIT, ck) buf len)) (\<lambda>(rc, st).
             if rc \<noteq> 0 then exit_error (Some (os_errtext os)) (''cannot deserialize cipher config '' @ squote path)
             else ret st)))"

text \<open>
  \<^verbatim>\<open>keystr\<close> and \<^verbatim>\<open>keylen\<close> from the file: the text itself, or the blob literal of the bytes, which
  then takes the place of the key.
\<close>

definition stored_key_text :: "cipher_key \<Rightarrow> (string \<times> cipher_key) res" where
  "stored_key_text ck =
     (case ck_buf ck of
        KeyBuf bs \<Rightarrow>
          (if \<not> ck_is_binary ck
           then bind_res (mem_read (map Some bs) 0 (ck_len ck)) (\<lambda>key. Ok (chars_of key, ck))
           else bind_res (bin2blob (map Some bs) (ck_len ck)) (\<lambda>(blob, keylen).
                bind_res (mem_read blob 0 keylen) (\<lambda>key. Ok (chars_of key, ck\<lparr>ck_buf := KeyBuf key\<rparr>))))
      | _ \<Rightarrow> Halt (Undef ''the key pointer is no buffer''))"

text \<open>The code behind \<^verbatim>\<open>apply_key\<close>; \<open>Some rc\<close> when the command returns from here.\<close>

definition apply_key :: "os \<Rightarrow> string \<Rightarrow> cipher_config \<times> cipher_key \<Rightarrow> int option act" where
  "apply_key os keystr = (\<lambda>(cc, ck).
     andthen (apply_cipher os keystr cc) (\<lambda>_. andthen (lift (free_cipher_config (cc, ck))) (\<lambda>_. ret None)))"

definition unlock_database :: "os \<Rightarrow> int \<Rightarrow> int option act" where
  "unlock_database os use_cmdkey =
     andthen (locate_cipher_config os) (\<lambda>cc_path.
     if cc_path = None \<and> use_cmdkey = 0 then ret None
     else
       andthen (if use_cmdkey \<noteq> 0 then ask_key DECRYPT_PROMPT else ret (0, None)) (\<lambda>(len, key).
       if use_cmdkey \<noteq> 0 \<and> len = 0
       then andthen (say_error None ''Empty keys are illegal.'') (\<lambda>rc. ret (Some rc))
       else
         let ck = (case key of None \<Rightarrow> CK_INIT | Some k \<Rightarrow> CK_INIT\<lparr>ck_buf := KeyBuf (bytes_of (k @ [NUL])), ck_len := len\<rparr>)
         in case cc_path of
              None \<Rightarrow> apply_key os (the key) (CC_INIT, ck)
            | Some path \<Rightarrow>
                andthen (load_cipher_config os path ck) (\<lambda>(cc, ck).
                  case key of
                    Some k \<Rightarrow> apply_key os k (cc, ck)
                  | None \<Rightarrow>
                      if ck_buf ck = KeyNull
                      then andthen (say_warning (''cipher config file at '' @ squote path @ '' affects nothing without a key.'')) (\<lambda>_.
                           andthen (lift (free_cipher_config (cc, ck))) (\<lambda>_. ret None))
                      else andthen (lift (stored_key_text ck)) (\<lambda>(k, ck). apply_key os k (cc, ck)))))"

section \<open>Inserting\<close>

definition prepare_statement :: "os \<Rightarrow> string \<Rightarrow> unit act" where
  "prepare_statement os sql = xsql os Sqlite_prepare_v2 (Sql_prepare sql)"

definition end_statement :: "os \<Rightarrow> unit act" where
  "end_statement os = andthen (xsql_step os) (\<lambda>_. andthen (sql_raw os Sql_finalize) (\<lambda>_. ret ()))"

text \<open>The first three columns are bound before the memo file is read.\<close>

definition bind_security :: "os \<Rightarrow> int \<Rightarrow> cred_record \<Rightarrow> unit act" where
  "bind_security os account_id rec =
     andthen (all_acts (xsql_bind os) (take 3 (bind_record_security_column (\<lambda>_. []) account_id rec))) (\<lambda>_.
     andthen (case memo rec of
                None \<Rightarrow> ret []
              | Some path \<Rightarrow>
                  andthen (read_whole os path) (\<lambda>content.
                  andthen (if content \<noteq> [] then ret ()
                           else andthen (say_warning (''Memo file '' @ squote path @ '' is empty.'')) (\<lambda>_.
                                  say_note (''Skip column '' @ squote ''memo'' @ ''.''))) (\<lambda>_. ret content))) (\<lambda>content.
       all_acts (xsql_bind os) (drop 3 (bind_record_security_column (\<lambda>_. content) account_id rec))))"

definition id_text :: "int \<Rightarrow> string" where
  "id_text i = (if i < 0 then CHR ''-'' # dec_string (nat (- i)) else dec_string (nat i))"

definition insert_record :: "os \<Rightarrow> cred_record \<Rightarrow> int act" where
  "insert_record os rec =
     andthen (xsql_avail os) (\<lambda>_.
     andthen (push_cleanup Rm_journal_file) (\<lambda>_.
     andthen (if is_need_transaction rec then xsql_exec os ''BEGIN TRANSACTION;'' else ret ()) (\<lambda>_.
     andthen (prepare_statement os INSERT_COMMON_GROUP_SQLSTR) (\<lambda>_.
     andthen (all_acts (xsql_bind os) (bind_record_basic_column rec)) (\<lambda>_.
     andthen (end_statement os) (\<lambda>_.
     andthen (if have_security_group rec
              then andthen (prepare_statement os INSERT_SECURITY_GROUP_SQLSTR) (\<lambda>_.
                   andthen (bind_security os (os_rowid os) rec) (\<lambda>_. end_statement os))
              else ret ()) (\<lambda>_.
     andthen (if have_misc_group rec
              then andthen (prepare_statement os INSERT_MISC_GROUP_SQLSTR) (\<lambda>_.
                   andthen (all_acts (xsql_bind os) (bind_record_misc_column (os_rowid os) rec)) (\<lambda>_. end_statement os))
              else ret ()) (\<lambda>_.
     andthen (if is_need_transaction rec then xsql_exec os ''END TRANSACTION;'' else ret ()) (\<lambda>_.
     andthen (sql_raw os Sql_close) (\<lambda>_.
     andthen pop_cleanup (\<lambda>_.
     andthen (print_to To_stdout (''A new record with rowid '' @ id_text (os_rowid os) @ '' was created.'' @ [NL])) (\<lambda>_.
       ret 0))))))))))))"

definition create_body :: "os \<Rightarrow> int \<Rightarrow> int \<Rightarrow> cred_record \<Rightarrow> int act" where
  "create_body os use_editor use_cmdkey rec =
     (case setup_editor use_editor rec of
        None \<Rightarrow>
          andthen (lift (format_missing_field rec)) (\<lambda>s. say_error None (s @ '' missing in the required fields''))
      | Some edit \<Rightarrow>
          andthen (if edit then edit_record os rec else ret rec) (\<lambda>rec.
          andthen (get w_cred_db) (\<lambda>db.
          andthen (xsql os Sqlite_open_v2 (Sql_open db)) (\<lambda>_.
          andthen (unlock_database os use_cmdkey) (\<lambda>early.
            case early of Some rc \<Rightarrow> ret rc | None \<Rightarrow> insert_record os rec)))))"

definition cmd_create :: "os \<Rightarrow> nat \<Rightarrow> string option list \<Rightarrow> string \<Rightarrow> int act" where
  "cmd_create os argc args prefix =
     andthen (run_parser os DEFAULT_OPT_ARGH_INDENT create_cells argc args prefix cmd_create_options cmd_create_usages
                {PARSER_ABORT_NON_OPTION}) (\<lambda>(_, _, m).
       create_body os (int_var m 1) (int_var m 2) (record_of m))"

section \<open>Steps that only talk\<close>

lemma quiet_read_whole [quiet_rules]: "quiet (read_whole os path)"
  by (auto simp: read_whole_def split: option.split list.split res.split intro!: quiet_rules)

lemma quiet_read_edited [quiet_rules]: "quiet (read_edited os path)"
  by (auto simp: read_edited_def split: read_outcome.split intro!: quiet_rules)

lemma quiet_load [quiet_rules]: "quiet (load_cipher_config os path ck)"
  by (auto simp: load_cipher_config_def split: option.split prod.split intro!: quiet_rules)

section \<open>What is left behind\<close>

text \<open>
  Every file is as it was, or is the record file and will be removed, or is the database, or
  is one of those that may be gone: the record file and the journal of the database.
\<close>

definition vanishing :: "string \<Rightarrow> string \<Rightarrow> string set" where
  "vanishing db rec = insert rec (case rm_journal_file (Some db) of Ok (Some p) \<Rightarrow> {p} | _ \<Rightarrow> {})"

definition create_at :: "string \<Rightarrow> string \<Rightarrow> (string \<rightharpoonup> string) \<Rightarrow> cleanup list \<Rightarrow> pk \<Rightarrow> bool" where
  "create_at db rec F cs s \<longleftrightarrow> atexit_func s = cs \<and> w_cred_db (world s) = db \<and> w_tmp_rec (world s) = rec
     \<and> tidy (vanishing db rec) {db} F (filter (\<lambda>c. c = Rm_tmp_rec) cs) (world s)"

definition edits_only :: "os \<Rightarrow> bool" where
  "edits_only os \<longleftrightarrow> (\<forall>ed path files p. p \<noteq> path \<longrightarrow> os_edit os ed path files p = files p)"

lemma tidy_only:
  assumes "tidy gone free F cs w" "set cs \<subseteq> {Rm_tmp_rec}" "w_tmp_rec w' = w_tmp_rec w"
    "\<And>p. w_files w' p = w_files w p \<or> p \<in> free \<or> (cs \<noteq> [] \<and> p = w_tmp_rec w)"
  shows "tidy gone free F cs w'"
proof -
  have "c \<in> set cs \<Longrightarrow> cleanup_path w' c = cleanup_path w c" for c
    using assms(2,3) by (auto simp: cleanup_path_def)
  moreover have "cs \<noteq> [] \<Longrightarrow> \<exists>c\<in>set cs. cleanup_path w c = Some (w_tmp_rec w)"
    using assms(2) by (cases cs) (auto simp: cleanup_path_def)
  ultimately show ?thesis
    using assms(1,4) unfolding tidy_def by (metis (no_types, lifting))
qed

lemma create_at_change:
  assumes "create_at db rec F cs s" "w_cred_db w' = db" "w_tmp_rec w' = rec"
    "\<And>p. w_files w' p = w_files (world s) p \<or> p = db \<or> (Rm_tmp_rec \<in> set cs \<and> p = rec)"
  shows "create_at db rec F cs (s\<lparr>world := w'\<rparr>)"
proof -
  have "tidy (vanishing db rec) {db} F (filter (\<lambda>c. c = Rm_tmp_rec) cs) w'"
    by (rule tidy_only [of _ _ _ _ "world s"]) (use assms in \<open>auto simp: create_at_def filter_empty_conv\<close>)
  then show ?thesis using assms(1-3) by (simp add: create_at_def)
qed

lemma create_at_paths: "create_at db rec F cs s \<Longrightarrow> w_cred_db (world s) = db \<and> w_tmp_rec (world s) = rec"
  by (simp add: create_at_def)

lemma create_at_talks: "create_at db rec F cs s \<Longrightarrow> atexit_func s' = atexit_func s \<Longrightarrow> talks (world s) (world s') \<Longrightarrow> create_at db rec F cs s'"
  using create_at_change [of db rec F cs s "world s'"] by (cases s'; cases s) (auto simp: create_at_def talks_fields)

interpretation create: covered_run "{Rm_tmp_rec, Rm_journal_file}" "create_at db rec F" for db rec F
proof
  show "calm (create_at db rec F cs)" for cs
    unfolding calm_def using create_at_talks by blast
  show "create_at db rec F cs s \<Longrightarrow> create_at db rec F (c # cs) (atexit_chain_push c s)" for cs s c
    by (auto simp: create_at_def tidy_def atexit_chain_push_def)
qed

named_theorems create_steps \<open>steps that leave every file accounted for\<close>

abbreviation known :: "cleanup list \<Rightarrow> bool" where
  "known cs \<equiv> set cs \<subseteq> {Rm_tmp_rec, Rm_journal_file}"

lemmas create_run_steps [create_steps] =
  create.step_andthen create.step_if create.step_option create.step_acts create.step_leaf

lemma create_reads [create_steps]:
  assumes "known cs"
  shows "create.step_ok db rec F cs (read_whole os path)" "create.step_ok db rec F cs (read_edited os path)"
    "create.step_ok db rec F cs (load_cipher_config os path ck)"
  using assms by (auto intro!: create.step_quiet quiet_rules)

lemma create_sql [create_steps]:
  assumes "known cs"
  shows "create.step_ok db rec F cs (xsql os fn call)" "create.step_ok db rec F cs (xsql_exec os sql)"
    "create.step_ok db rec F cs (xsql_step os)" "create.step_ok db rec F cs (xsql_bind os iv)"
    "create.step_ok db rec F cs (sql_raw os call)"
proof -
  have "create_at db rec F cs (s\<lparr>world := after_sql call d (world s)\<rparr>)" if "create_at db rec F cs s" for s d call
    using create_at_paths [OF that] by (intro create_at_change [OF that]) (auto simp: after_sql_def)
  then show "create.step_ok db rec F cs (xsql os fn call)" "create.step_ok db rec F cs (xsql_exec os sql)"
    "create.step_ok db rec F cs (xsql_step os)" "create.step_ok db rec F cs (xsql_bind os iv)"
    "create.step_ok db rec F cs (sql_raw os call)"
    using assms by (intro create.step_sql; blast)+
qed

lemma create_populate [create_steps]:
  "known cs \<Longrightarrow> Rm_tmp_rec \<in> set cs \<Longrightarrow> create.step_ok db rec F cs (populate os rec content)"
  by (rule create.step_populate) (frule create_at_paths, erule create_at_change, auto simp: set_file_def)

lemma create_edit [create_steps]:
  assumes "known cs" "Rm_tmp_rec \<in> set cs" "edits_only os"
  shows "create.step_ok db rec F cs (edit_file os rec)"
  unfolding create.step_ok_def
proof (rule triple_post [OF edit_file_keeps [of "create_at db rec F cs"]])
  show "create_at db rec F cs s \<Longrightarrow> create_at db rec F cs (s\<lparr>world := (world s)\<lparr>w_ignored := i\<rparr>\<rparr>)" for s i
    by (frule create_at_paths, erule create_at_change) auto
  show "create_at db rec F cs s
      \<Longrightarrow> create_at db rec F cs (s\<lparr>world := (world s)\<lparr>w_files := os_edit os ed rec (w_files (world s))\<rparr>\<rparr>)" for s ed
    using assms by (frule_tac create_at_paths, elim create_at_change) (auto simp: edits_only_def)
qed (use assms create.calm_at in \<open>auto intro: create.stoppedI\<close>)

lemma create_locate [create_steps]: "known cs \<Longrightarrow> create.step_ok db rec F cs (locate_cipher_config os)"
proof -
  assume k: "known cs"
  have "create.step_ok db rec F cs (change (\<lambda>w. w\<lparr>w_cred_cc := x\<rparr>))" for x
    by (rule create.step_change) (frule create_at_paths, erule create_at_change, auto)
  then show ?thesis
    unfolding locate_cipher_config_def using k
    by (auto split: prod.split intro!: create_steps)
qed

lemma create_apply [create_steps]: "known cs \<Longrightarrow> create.step_ok db rec F cs (apply_cipher os k cc)"
  unfolding apply_cipher_def by (auto intro!: create_steps)

lemma create_apply_key [create_steps]: "known cs \<Longrightarrow> create.step_ok db rec F cs (apply_key os k c)"
  unfolding apply_key_def by (auto split: prod.split intro!: create_steps)

lemma create_unlock [create_steps]: "known cs \<Longrightarrow> create.step_ok db rec F cs (unlock_database os use_cmdkey)"
  unfolding unlock_database_def Let_def
  by (auto split: prod.split intro!: create_steps)

lemma create_statements [create_steps]:
  assumes "known cs"
  shows "create.step_ok db rec F cs (prepare_statement os sql)" "create.step_ok db rec F cs (end_statement os)"
    "create.step_ok db rec F cs (bind_security os i r)"
  using assms by (auto simp: prepare_statement_def end_statement_def bind_security_def
      intro!: create_steps)

lemma create_pop:
  assumes "\<And>x. triple (create_at db rec F cs) (f x) Q E"
  shows "triple (create_at db rec F (Rm_journal_file # cs)) (andthen pop_cleanup f) Q E"
  using assms by (auto simp: triple_def act_simps create_at_def atexit_chain_pop_def)

lemma create_insert: "known cs \<Longrightarrow> create.step_ok db rec F cs (insert_record os r)"
proof -
  assume k: "known cs"
  then have k': "known (Rm_journal_file # cs)" by simp
  have end_: "triple (create_at db rec F cs) (andthen (print_to To_stdout t) (\<lambda>_. ret (0::int)))
      (\<lambda>_. create_at db rec F cs) (\<lambda>_. create.stopped db rec F)" for t
    using k unfolding create.step_ok_def [symmetric] by (auto intro!: create_steps)
  let ?ok = "create.step_ok db rec F (Rm_journal_file # cs)"
  have steps: "?ok (if b then xsql_exec os t else ret ())" "?ok (all_acts (xsql_bind os) ivs)"
      "?ok (if b then andthen (prepare_statement os t) (\<lambda>_. andthen (bind_security os i r) (\<lambda>_. end_statement os)) else ret ())"
      "?ok (if b then andthen (prepare_statement os t) (\<lambda>_. andthen (all_acts (xsql_bind os) ivs) (\<lambda>_. end_statement os)) else ret ())"
    for b t ivs i
    using k' by (auto intro!: create_steps)
  note then_ = create.step_then [OF steps(1)] create.step_then [OF create_statements(1) [OF k']]
    create.step_then [OF steps(2)] create.step_then [OF create_statements(2) [OF k']] create.step_then [OF steps(3)]
    create.step_then [OF steps(4)] create.step_then [OF create_sql(5) [OF k']]
  show ?thesis
    unfolding insert_record_def xsql_avail_def create.step_ok_def
    by (rule create.step_then [OF create_sql(1) [OF k]], rule create.push_then, rule then_(1), rule then_(2), rule then_(3),
        rule then_(4), rule then_(5), rule then_(6), rule then_(1), rule then_(7), rule create_pop, rule end_)
qed

lemma create_edit_record:
  assumes "edits_only os"
  shows "triple (create_at db rec F []) (edit_record os r) (\<lambda>_. create_at db rec F [Rm_tmp_rec]) (\<lambda>_. create.stopped db rec F)"
proof -
  have "create.step_ok db rec F [Rm_tmp_rec] (populate_record_file os rec r)"
    unfolding populate_record_file_def by (auto split: prod.split intro!: create_steps)
  then have rest: "triple (create_at db rec F [Rm_tmp_rec]) (andthen (populate_record_file os rec r) (\<lambda>_. andthen (edit_file os rec) (\<lambda>r.
     andthen (lift (require_success r 0)) (\<lambda>_. read_edited os rec)))) (\<lambda>_. create_at db rec F [Rm_tmp_rec]) (\<lambda>_. create.stopped db rec F)"
    using assms unfolding create.step_ok_def [symmetric]
    by (auto intro!: create_steps)
  show ?thesis
    unfolding edit_record_def
    by (intro create.push_then triple_get_eq [where x = rec] rest) (simp add: create_at_def)
qed

lemma create_open:
  assumes "known cs"
  shows "triple (create_at db rec F cs) (andthen (get w_cred_db) (\<lambda>db. andthen (xsql os Sqlite_open_v2 (Sql_open db)) (\<lambda>_.
     andthen (unlock_database os k) (\<lambda>early. case early of Some rc \<Rightarrow> ret rc | None \<Rightarrow> insert_record os r))))
     (\<lambda>_. create.stopped db rec F) (\<lambda>_. create.stopped db rec F)"
proof -
  have "create.step_ok db rec F cs (andthen (get w_cred_db) (\<lambda>db. andthen (xsql os Sqlite_open_v2 (Sql_open db)) (\<lambda>_.
     andthen (unlock_database os k) (\<lambda>early. case early of Some rc \<Rightarrow> ret rc | None \<Rightarrow> insert_record os r))))"
    using assms by (auto intro!: create_steps create_insert)
  then show ?thesis
    unfolding create.step_ok_def by (rule triple_post) (use assms in \<open>auto intro: create.stoppedI\<close>)
qed

lemma cmd_create_tidy:
  assumes "edits_only os"
  shows "triple (create_at db rec F []) (cmd_create os argc args pfx) (\<lambda>_. create.stopped db rec F) (\<lambda>_. create.stopped db rec F)"
proof -
  have body: "triple (create_at db rec F []) (create_body os e k r) (\<lambda>_. create.stopped db rec F) (\<lambda>_. create.stopped db rec F)" for e k r
  proof (cases "setup_editor e r")
    case None
    have "create.step_ok db rec F [] (andthen (lift (format_missing_field r)) (\<lambda>s. say_error None (s @ '' missing in the required fields'')))"
      by (auto intro!: create_steps)
    then show ?thesis
      unfolding create_body_def None create.step_ok_def option.case
      by (rule triple_post) (auto intro: create.stoppedI)
  next
    case (Some edit)
    then show ?thesis
      unfolding create_body_def Some option.case
      by (cases edit) (simp_all only: if_True if_False andthen_ret, intro triple_andthen [OF create_edit_record [OF assms]], intro create_open, simp, intro create_open, simp)
  qed
  show ?thesis
    unfolding cmd_create_def
    by (intro create.step_then create.step_quiet quiet_rules) (auto split: prod.split intro: body)
qed


lemma andthen_lift_at: "andthen (\<lambda>s. lift (Halt h) (g s)) f s = (Halt h, g s)"
  by (simp add: andthen_def lift_def)

lemma parse_create_empty:
  "\<exists>ctx. parse_options stat DEFAULT_OPT_ARGH_INDENT create_cells 0 [None] pfx cmd_create_options cmd_create_usages fl
     = Ok (Returned 0, ctx) \<and> ctx_log ctx = [] \<and> ctx_cells ctx = create_cells"
  by (simp add: cmd_create_options_def parse_evals)

lemma record_of_start: "record_of create_cells = INIT_RECORD" "int_var create_cells 1 = -1" "int_var create_cells 2 = 0"
  by (simp_all add: record_of_def create_cells_def str_var_def int_var_def ptr_text_def INIT_RECORD_def)

lemma create_no_args: "cmd_create os 0 [None] pfx s = create_body os (-1) 0 INIT_RECORD s"
proof -
  obtain ctx where ctx: "parse_options (os_stat os) DEFAULT_OPT_ARGH_INDENT create_cells 0 [None] pfx
      cmd_create_options cmd_create_usages {PARSER_ABORT_NON_OPTION} = Ok (Returned 0, ctx)"
      "ctx_log ctx = []" "ctx_cells ctx = create_cells"
    using parse_create_empty by blast
  show ?thesis
    unfolding cmd_create_def andthen_run(1) [OF parser_run [OF ctx(1,2)]] unfolding ctx(3) prod.case record_of_start ..
qed

lemma empty_record_text:
  obtains msg where "format_recfile_content INIT_RECORD = Ok (msg, length msg)" "65 < length msg"
    "length msg < 2000"
proof -
  have e: "editable INIT_RECORD" "65 < length (lines_text (recfile_lines INIT_RECORD))" "length (lines_text (recfile_lines INIT_RECORD)) < 2000"
  proof -
    have f: "field_value INIT_RECORD f = None" for f by (cases f) (simp_all add: field_value_def INIT_RECORD_def)
    show e: "65 < length (lines_text (recfile_lines INIT_RECORD))" "length (lines_text (recfile_lines INIT_RECORD)) < 2000"
      by (simp_all add: f value_line_def recfile_lines_def lines_text_def recfile_fmap_def common_record_lines_def quoted_def)
    then show "editable INIT_RECORD" by (simp add: editable_def f SAFE_SIZE_def)
  qed
  show thesis using format_recfile_content_text [OF e(1)] e(2,3) that by blast
qed


section \<open>What is inserted\<close>

text \<open>The calls to sqlite3 for one statement, and for a record whose memo file holds \<open>content\<close>.\<close>

definition statement_calls :: "string \<Rightarrow> (nat \<times> sql_value) list \<Rightarrow> sql_call list" where
  "statement_calls sql ivs = Sql_prepare sql # map (\<lambda>iv. Sql_bind (fst iv) (snd iv)) ivs @ [Sql_step, Sql_finalize]"

definition record_statements :: "int \<Rightarrow> cred_record \<Rightarrow> string \<Rightarrow> (string \<times> (nat \<times> sql_value) list) list" where
  "record_statements account_id rec content =
     (INSERT_COMMON_GROUP_SQLSTR, bind_record_basic_column rec)
     # (if have_security_group rec
        then [(INSERT_SECURITY_GROUP_SQLSTR, bind_record_security_column (\<lambda>_. content) account_id rec)] else [])
     @ (if have_misc_group rec then [(INSERT_MISC_GROUP_SQLSTR, bind_record_misc_column account_id rec)] else [])"

definition insert_calls :: "int \<Rightarrow> cred_record \<Rightarrow> string \<Rightarrow> sql_call list" where
  "insert_calls account_id rec content =
     [Sql_exec SQLITE_AVAIL_SQLSTR] @ (if is_need_transaction rec then [Sql_exec ''BEGIN TRANSACTION;''] else [])
     @ concat (map (\<lambda>(sql, ivs). statement_calls sql ivs) (record_statements account_id rec content))
     @ (if is_need_transaction rec then [Sql_exec ''END TRANSACTION;''] else []) @ [Sql_close]"

text \<open>\<open>sends\<close>: a step that returns makes exactly the calls \<open>L\<close> and leaves the chain as it was.\<close>

definition memo_file :: "string \<Rightarrow> cred_record \<Rightarrow> string \<Rightarrow> pk \<Rightarrow> bool" where
  "memo_file db rec content s \<longleftrightarrow>
     (case memo rec of None \<Rightarrow> content = [] | Some p \<Rightarrow> p \<noteq> db \<and> (\<forall>c. w_files (world s) p = Some c \<longrightarrow> c = content))"

definition inserting :: "string \<Rightarrow> cred_record \<Rightarrow> string \<Rightarrow> sql_call list \<Rightarrow> cleanup list \<Rightarrow> pk \<Rightarrow> bool" where
  "inserting db rec content L cs s \<longleftrightarrow> logged db L cs s \<and> memo_file db rec content s"

definition sends :: "string \<Rightarrow> cred_record \<Rightarrow> string \<Rightarrow> cleanup list \<Rightarrow> 'a act \<Rightarrow> sql_call list \<Rightarrow> bool" where
  "sends db rec content cs m L \<longleftrightarrow>
     (\<forall>A. triple (inserting db rec content A cs) m (\<lambda>_. inserting db rec content (A @ L) cs) always)"

lemma calm_inserting [simp]: "calm (inserting db rec content L cs)"
  using calm_logged [of db L cs]
  by (auto simp: calm_def inserting_def memo_file_def talks_fields split: option.splits)

lemma inserting_sql:
  "inserting db rec content L cs s \<Longrightarrow> inserting db rec content (L @ [call]) cs (s\<lparr>world := after_sql call d (world s)\<rparr>)"
  using logged_sql [of db L cs s call d]
  by (auto simp: inserting_def memo_file_def after_sql_def logged_def split: option.splits)

named_theorems sent \<open>the calls that steps make\<close>

lemma sends_quiet: "quiet m \<Longrightarrow> sends db rec content cs m []"
  unfolding sends_def by (auto intro: triple_post [OF triple_quiet])

lemma sends_calls [sent]:
  "sends db rec content cs (xsql os fn call) [call]"
  "sends db rec content cs (xsql_exec os sql) [Sql_exec sql]"
  "sends db rec content cs (xsql_step os) [Sql_step]"
  "sends db rec content cs (xsql_bind os iv) [Sql_bind (fst iv) (snd iv)]"
  "sends db rec content cs (sql_raw os call) [call]"
  unfolding sends_def
  by (intro allI; rule triple_xsql triple_xsql_exec triple_xsql_step triple_xsql_bind triple_sql_raw; auto intro: inserting_sql)+

lemma sends_andthen:
  assumes "sends db rec content cs m L1" "\<And>x. sends db rec content cs (f x) L2" "L = L1 @ L2"
  shows "sends db rec content cs (andthen m f) L"
  using assms(1,2) unfolding sends_def assms(3) append_assoc [symmetric] by (blast intro: triple_andthen)

lemma sends_acts [sent]: "sends db rec content cs (all_acts (xsql_bind os) ivs) (map (\<lambda>iv. Sql_bind (fst iv) (snd iv)) ivs)"
  by (induction ivs) (auto intro!: sends_andthen [OF sent(4)] sends_quiet quiet_rules)

lemma sends_if: "sends db rec content cs m L \<Longrightarrow> sends db rec content cs (if b then m else ret x) (if b then L else [])"
  by (simp add: sends_quiet quiet_rules)

lemma sends_statement:
  assumes "sends db rec content cs m (map (\<lambda>iv. Sql_bind (fst iv) (snd iv)) ivs)"
  shows "sends db rec content cs (andthen (prepare_statement os sql) (\<lambda>_. andthen m (\<lambda>_. end_statement os))) (statement_calls sql ivs)"
  unfolding prepare_statement_def end_statement_def statement_calls_def
  by (rule sends_andthen [OF sends_calls(1) sends_andthen [OF assms sends_andthen [OF sends_calls(3)
        sends_andthen [OF sends_calls(5) sends_quiet [OF quiet_basic(1)]]]]]) simp_all

lemma read_whole_value: "read_whole os path s = (Ok c, s') \<Longrightarrow> w_files (world s) path = Some c"
  by (auto simp: read_whole_def andthen_def lift_def get_def stop_def ret_def
      split: res.splits option.splits list.splits if_splits)

text \<open>The memo file is read between the calls; what it held at the start is bound.\<close>

lemma read_whole_content:
  "triple (inserting db rec content L cs) (read_whole os path)
     (\<lambda>c s. inserting db rec content L cs s \<and> (memo rec = Some path \<longrightarrow> c = content)) always"
proof (rule tripleI)
  fix s assume P: "inserting db rec content L cs s"
  obtain r s1 where m: "read_whole os path s = (r, s1)" by fastforce
  have "inserting db rec content L cs s1"
    using quiet_run [of "read_whole os path" s r s1 "inserting db rec content L cs"] m P by (simp add: quiet_rules)
  moreover have "w_files (world s) path = Some c" if "r = Ok c" for c using m that read_whole_value by simp
  ultimately show "case read_whole os path s of (Ok c, s') \<Rightarrow> inserting db rec content L cs s' \<and> (memo rec = Some path \<longrightarrow> c = content)
      | (Halt h, s') \<Rightarrow> True"
    using m P by (cases r) (auto simp: inserting_def memo_file_def)
qed

lemma sends_security:
  "sends db rec content cs (bind_security os i rec)
     (map (\<lambda>iv. Sql_bind (fst iv) (snd iv)) (bind_record_security_column (\<lambda>_. content) i rec))"
proof -
  let ?calls = "map (\<lambda>iv. Sql_bind (fst iv) (snd iv))" and ?cols = "\<lambda>c. bind_record_security_column (\<lambda>_. c) i rec"
  let ?read = "case memo rec of None \<Rightarrow> ret [] | Some path \<Rightarrow> andthen (read_whole os path) (\<lambda>content.
     andthen (if content \<noteq> [] then ret ()
              else andthen (say_warning (''Memo file '' @ squote path @ '' is empty.'')) (\<lambda>_.
                     say_note (''Skip column '' @ squote ''memo'' @ ''.''))) (\<lambda>_. ret content))"
  have read: "triple (inserting db rec content A cs) ?read (\<lambda>c s. inserting db rec content A cs s \<and> c = content) always" for A
  proof (cases "memo rec")
    case None
    then show ?thesis by (auto intro!: triple_ret simp: inserting_def memo_file_def)
  next
    case (Some path)
    let ?R = "\<lambda>s. inserting db rec content A cs s"
    have "triple (\<lambda>s. ?R s \<and> (memo rec = Some path \<longrightarrow> c = content)) (andthen (if c \<noteq> [] then ret ()
         else andthen (say_warning (''Memo file '' @ squote path @ '' is empty.'')) (\<lambda>_.
           say_note (''Skip column '' @ squote ''memo'' @ ''.''))) (\<lambda>_. ret c)) (\<lambda>c s. ?R s \<and> c = content) always" for c
      by (rule triple_andthen [where R = "\<lambda>_ s. ?R s \<and> c = content"],
          rule triple_pre [OF triple_quiet [where P = "\<lambda>s. ?R s \<and> c = content", THEN triple_post]])
         (auto simp: Some calm_def intro!: quiet_rules triple_ret dest: calm_inserting [unfolded calm_def, rule_format])
    from triple_andthen [OF read_whole_content this] show ?thesis by (simp only: Some option.case)
  qed
  have cols: "take 3 (?cols c) @ drop 3 (?cols content) = ?cols content" for c
    by (simp add: bind_record_security_column_def)
  have "triple (inserting db rec content A cs) (bind_security os i rec) (\<lambda>_. inserting db rec content ((A @ ?calls (take 3 (?cols []))) @ ?calls (drop 3 (?cols content))) cs) always" for A
    unfolding bind_security_def
  proof (rule triple_andthen [OF sends_acts [unfolded sends_def, rule_format]], rule triple_andthen [OF read])
    fix c
    show "triple (\<lambda>s. inserting db rec content (A @ ?calls (take 3 (?cols []))) cs s \<and> c = content) (all_acts (xsql_bind os) (drop 3 (?cols c)))
       (\<lambda>_. inserting db rec content ((A @ ?calls (take 3 (?cols []))) @ ?calls (drop 3 (?cols content))) cs) always"
    proof (cases "c = content")
      case True
      then show ?thesis by (simp only:) (rule triple_pre [OF sends_acts [unfolded sends_def, rule_format]], simp)
    qed (simp add: triple_def)
  qed
  then show ?thesis unfolding sends_def append_assoc map_append [symmetric] cols by blast
qed

definition insert_statements :: "os \<Rightarrow> cred_record \<Rightarrow> int act" where
  "insert_statements os rec =
     andthen (if is_need_transaction rec then xsql_exec os ''BEGIN TRANSACTION;'' else ret ()) (\<lambda>_.
     andthen (andthen (prepare_statement os INSERT_COMMON_GROUP_SQLSTR) (\<lambda>_.
              andthen (all_acts (xsql_bind os) (bind_record_basic_column rec)) (\<lambda>_. end_statement os))) (\<lambda>_.
     andthen (if have_security_group rec
              then andthen (prepare_statement os INSERT_SECURITY_GROUP_SQLSTR) (\<lambda>_.
                   andthen (bind_security os (os_rowid os) rec) (\<lambda>_. end_statement os))
              else ret ()) (\<lambda>_.
     andthen (if have_misc_group rec
              then andthen (prepare_statement os INSERT_MISC_GROUP_SQLSTR) (\<lambda>_.
                   andthen (all_acts (xsql_bind os) (bind_record_misc_column (os_rowid os) rec)) (\<lambda>_. end_statement os))
              else ret ()) (\<lambda>_.
     andthen (if is_need_transaction rec then xsql_exec os ''END TRANSACTION;'' else ret ()) (\<lambda>_. sql_raw os Sql_close)))))"

lemma insert_record_parts:
  "insert_record os rec =
     andthen (xsql_avail os) (\<lambda>_. andthen (push_cleanup Rm_journal_file) (\<lambda>_. andthen (insert_statements os rec) (\<lambda>_.
     andthen pop_cleanup (\<lambda>_.
     andthen (print_to To_stdout (''A new record with rowid '' @ id_text (os_rowid os) @ '' was created.'' @ [NL])) (\<lambda>_. ret 0)))))"
  by (simp add: insert_record_def insert_statements_def andthen_assoc)

lemma sends_insert_statements:
  "sends db rec content cs (insert_statements os rec) (tl (insert_calls (os_rowid os) rec content))"
  unfolding insert_statements_def
  by (rule sends_andthen [OF sends_if [OF sends_calls(2)]],
      rule sends_andthen [OF sends_statement [OF sends_acts]],
      rule sends_andthen [OF sends_if [OF sends_statement [OF sends_security]]],
      rule sends_andthen [OF sends_if [OF sends_statement [OF sends_acts]]],
      rule sends_andthen [OF sends_if [OF sends_calls(2)]], rule sends_calls(5))
     (simp_all add: insert_calls_def record_statements_def)

lemma insert_sends:
  "triple (inserting db rec content A cs) (insert_record os rec)
     (\<lambda>r s. r = 0 \<and> inserting db rec content (A @ insert_calls (os_rowid os) rec content) cs s) always"
proof -
  let ?B = "A @ [Sql_exec SQLITE_AVAIL_SQLSTR]" and ?C = "A @ insert_calls (os_rowid os) rec content"
  let ?J = "Rm_journal_file # cs"
  have avail: "triple (inserting db rec content A cs) (xsql_avail os) (\<lambda>_. inserting db rec content ?B cs) always"
    using sends_calls(1) [of db rec content cs os Sqlite_avail] by (simp add: sends_def xsql_avail_def)
  have push: "triple (inserting db rec content ?B cs) (push_cleanup Rm_journal_file) (\<lambda>_. inserting db rec content ?B ?J) always"
    by (rule triple_push) (auto simp: inserting_def logged_def memo_file_def atexit_chain_push_def split: option.splits)
  have "?B @ tl (insert_calls (os_rowid os) rec content) = ?C" by (simp add: insert_calls_def)
  then have body: "triple (inserting db rec content ?B ?J) (insert_statements os rec) (\<lambda>_. inserting db rec content ?C ?J) always"
    using sends_insert_statements [of db rec content ?J os] unfolding sends_def by metis
  have pop: "triple (inserting db rec content ?C ?J) pop_cleanup (\<lambda>_. inserting db rec content ?C cs) always"
    by (rule triple_pop) (auto simp: inserting_def logged_def memo_file_def atexit_chain_pop_def split: option.splits)
  have end_: "triple (inserting db rec content ?C cs) (andthen (print_to To_stdout t) (\<lambda>_. ret (0 :: int)))
     (\<lambda>r s. r = 0 \<and> inserting db rec content ?C cs s) always" for t
    by (rule triple_quiet_step) (auto intro!: quiet_rules triple_ret)
  show ?thesis
    unfolding insert_record_parts
    by (rule triple_andthen [OF avail triple_andthen [OF push triple_andthen [OF body triple_andthen [OF pop end_]]]])
qed

text \<open>
  When the insertion returns, it has made exactly these calls: the check of the key, the
  statement for the common columns and one for each further group the record has, each
  prepared, bound, stepped and finalized, all of them inside one transaction if and only if
  there is more than one, and the close.  The chain of cleanup functions is as before.
\<close>

theorem create_inserts:
  assumes "insert_record os rec s = (Ok r, s')" "memo rec \<noteq> Some (w_cred_db (world s))"
    "content = (case memo rec of None \<Rightarrow> [] | Some p \<Rightarrow> (case w_files (world s) p of None \<Rightarrow> [] | Some c \<Rightarrow> c))"
  shows "r = 0 \<and> atexit_func s' = atexit_func s
    \<and> w_sql (world s') = w_sql (world s) @ insert_calls (os_rowid os) rec content"
proof -
  have "inserting (w_cred_db (world s)) rec content (w_sql (world s)) (atexit_func s) s"
    using assms(2,3) by (auto simp: inserting_def logged_def memo_file_def split: option.splits)
  then show ?thesis
    using triple_apply [OF insert_sends _ assms(1)] by (auto simp: inserting_def logged_def)
qed

theorem create_inserts_witness:
  "let os = sample_os (\<lambda>_ call. (if call = Sql_step then SQLITE_DONE else SQLITE_OK, None));
       rec = INIT_RECORD\<lparr>sitename := Some ''site'', password := Some ''pw'', rec_comment := Some ''x''\<rparr>
   in \<exists>s'. insert_record os rec sample_pk = (Ok 0, s') \<and> w_sql (world s') = insert_calls 1 rec []
        \<and> Sql_exec ''BEGIN TRANSACTION;'' \<in> set (w_sql (world s'))"
proof -
  let ?os = "sample_os (\<lambda>_ call. (if call = Sql_step then SQLITE_DONE else SQLITE_OK, None))"
  let ?rec = "INIT_RECORD\<lparr>sitename := Some ''site'', password := Some ''pw'', rec_comment := Some ''x''\<rparr>"
  have "\<exists>s'. insert_record ?os ?rec sample_pk = (Ok 0, s')"
    by (simp add: insert_record_def xsql_avail_def prepare_statement_def end_statement_def act_simps xsql_run xsql_exec_run
        xsql_step_run xsql_bind_run sql_raw_run is_need_transaction_def have_security_group_def have_misc_group_def
        INIT_RECORD_def bind_record_basic_column_def bind_record_misc_column_def print_run ret_def)
  then obtain s' where s': "insert_record ?os ?rec sample_pk = (Ok 0, s')" ..
  have "is_need_transaction ?rec"
    by (simp add: is_need_transaction_def have_security_group_def have_misc_group_def INIT_RECORD_def)
  then show ?thesis
    using create_inserts [OF s', of "[]"] s' by (auto simp: INIT_RECORD_def sample_pk_def insert_calls_def)
qed

section \<open>Keys that pk init has stored\<close>

text \<open>The configuration file is there and no file of the command is the same as another.\<close>

definition stored_at :: "string \<Rightarrow> string \<Rightarrow> pk \<Rightarrow> bool" where
  "stored_at path content s \<longleftrightarrow> w_cred_cc (world s) = Some path \<and> w_files (world s) path = Some content
     \<and> path \<noteq> w_cred_db (world s) \<and> path \<noteq> w_tmp_rec (world s)"

lemma calm_stored [simp]: "calm (stored_at path content)"
  by (auto simp: calm_def stored_at_def talks_fields)

text \<open>A file with a key, whatever its digest is, cannot be loaded.\<close>

lemma load_stored:
  assumes "config_ok cc ck" "ck_buf ck = KeyBuf bs" "content = chars_of (file_bytes cc ck @ digest)" "length digest = 32"
    "\<And>m. \<exists>d. os_sha256 os m = Some d \<and> length d = 32"
  shows "triple (stored_at path content) (load_cipher_config os path k) (\<lambda>_ _. False) always"
proof -
  have c: "bytes_of content = file_bytes cc ck @ digest" using assms(3) by simp
  obtain h where h: "deserialize_cipher_config (CC_INIT, k) (bytes_of content) (length (bytes_of content) - 32) = Halt h"
    using stored_key_halts [OF assms(1,2), of "(CC_INIT, k)" digest] assms(4) by (auto simp: c)
  have "resolve_cipher_config (os_sha256 os) (bytes_of content) = Ok (0, Some (bytes_of content, length (bytes_of content) - 32))
      \<or> resolve_cipher_config (os_sha256 os) (bytes_of content) = Ok (1, None)"
    using resolve_iff [OF assms(5)] by simp
  then have rest: "triple (\<lambda>_. True) (andthen (lift (resolve_cipher_config (os_sha256 os) (bytes_of content))) (\<lambda>(rc, found).
       case found of
         None \<Rightarrow> exit_error (Some (os_errtext os)) (''cannot resolve cipher config '' @ squote path)
       | Some (buf, len) \<Rightarrow>
           andthen (lift (deserialize_cipher_config (CC_INIT, k) buf len)) (\<lambda>(rc, st).
             if rc \<noteq> 0 then exit_error (Some (os_errtext os)) (''cannot deserialize cipher config '' @ squote path)
             else ret st))) (\<lambda>_ _. False) always"
    by (elim disjE) (simp_all add: andthen_lift h [simplified] triple_stop triple_exit_error)
  have read: "triple (stored_at path content) (read_whole os path) (\<lambda>c _. c = content) always"
    by (rule tripleI) (auto simp: stored_at_def dest: read_whole_value split: prod.split res.split)
  show ?thesis
    unfolding load_cipher_config_def
  proof (rule triple_andthen [OF read], goal_cases)
    case (1 c)
    show ?case by (cases "c = content") (use rest in \<open>simp_all only: triple_def, simp_all\<close>)
  qed
qed

lemma stored_edit_record:
  assumes "edits_only os"
  shows "triple (stored_at path content) (edit_record os rec) (\<lambda>_. stored_at path content) always"
proof -
  have at: "triple (\<lambda>s. stored_at path content s \<and> w_tmp_rec (world s) = p)
     (andthen (populate_record_file os p rec) (\<lambda>_. andthen (edit_file os p) (\<lambda>r. andthen (lift (require_success r 0)) (\<lambda>_. read_edited os p))))
     (\<lambda>_. stored_at path content) always" (is "triple ?P _ _ _") for p
  proof -
    have calm: "calm ?P" by (auto simp: calm_def stored_at_def talks_fields)
    have "triple ?P (populate os p c) (\<lambda>_. ?P) always" for c
      by (rule triple_populate) (auto simp: stored_at_def set_file_def)
    then have fill: "triple ?P (populate_record_file os p rec) (\<lambda>_. ?P) always"
      unfolding populate_record_file_def by (auto intro!: triple_quiet_step [OF _ calm] quiet_rules split: prod.split)
    have edit: "triple ?P (edit_file os p) (\<lambda>_. ?P) always"
      by (rule triple_post [OF edit_file_keeps [OF calm]]) (use assms in \<open>auto simp: stored_at_def edits_only_def\<close>)
    have read: "triple ?P (andthen (lift (require_success r 0)) (\<lambda>_. read_edited os p)) (\<lambda>_. ?P) always" for r
      by (rule triple_post [OF triple_quiet [OF _ calm]]) (auto intro!: quiet_rules)
    show ?thesis
      by (rule triple_post [OF triple_andthen [OF fill triple_andthen [OF edit read]]]) auto
  qed
  have "triple (stored_at path content) (push_cleanup Rm_tmp_rec) (\<lambda>_. stored_at path content) always"
    by (rule triple_push) (simp add: stored_at_def)
  then show ?thesis
    unfolding edit_record_def
    by (rule triple_andthen) (use at in \<open>auto simp: triple_def act_simps\<close>)
qed

lemma stored_locate:
  assumes "os_access os path = AccOk"
  shows "triple (stored_at path content) (locate_cipher_config os) (\<lambda>p s. p = Some path \<and> stored_at path content s) always"
  using assms by (auto simp: triple_def locate_cipher_config_def act_simps find_cipher_config_def ret_def stored_at_def)

lemma stored_unlock:
  assumes "config_ok cc ck" "ck_buf ck = KeyBuf bs" "content = chars_of (file_bytes cc ck @ digest)" "length digest = 32"
    "\<And>m. \<exists>d. os_sha256 os m = Some d \<and> length d = 32" "os_access os path = AccOk"
  shows "triple (stored_at path content) (unlock_database os use_cmdkey) (\<lambda>r _. r = Some (-1)) always"
proof -
  let ?S = "stored_at path content"
  have key: "triple ?S (if use_cmdkey \<noteq> 0 then ask_key DECRYPT_PROMPT else ret (0, None)) (\<lambda>_. ?S) always"
    by (rule triple_post [OF triple_quiet]) (auto intro!: quiet_rules)
  have empty: "triple ?S (andthen (say_error None t) (\<lambda>rc. ret (Some rc))) (\<lambda>r _. r = Some (-1)) always" for t
    by (rule triple_andthen [OF triple_say_error [where P = ?S]]) (auto intro: triple_ret)
  have load: "triple ?S (andthen (load_cipher_config os path k) f) Q always" for k Q and f :: "_ \<Rightarrow> int option act"
    by (rule triple_andthen [OF load_stored [OF assms(1-5)]]) (simp add: triple_def)
  have rest: "triple (\<lambda>s. p = Some path \<and> ?S s)
     (if p = None \<and> use_cmdkey = 0 then ret None
      else andthen (if use_cmdkey \<noteq> 0 then ask_key DECRYPT_PROMPT else ret (0, None)) (g p))
     (\<lambda>r _. r = Some (-1)) always"
    if "\<And>x. triple ?S (g (Some path) x) (\<lambda>r _. r = Some (-1)) always" for p and g :: "_ \<Rightarrow> _ \<Rightarrow> int option act"
  proof (cases "p = Some path")
    case True
    then show ?thesis using triple_andthen [OF key that] by (simp add: triple_def)
  qed (simp add: triple_def)
  show ?thesis
    unfolding unlock_database_def Let_def
    by (rule triple_andthen [OF stored_locate [OF assms(6)]], rule rest) (auto intro!: empty load split: prod.split)
qed



end
