(* ===== verification/Cmd_Others.thy ===== *)
theory Cmd_Others
  imports Steps
begin

text \<open>
  The commands that do not use the database: \<^verbatim>\<open>src/src/command/makekey.c\<close> writes a random
  key, \<^verbatim>\<open>version.c\<close> prints the version; \<^verbatim>\<open>count.c\<close> prints its arguments; \<^verbatim>\<open>help.c\<close>, \<^verbatim>\<open>read.c\<close>,
  \<^verbatim>\<open>update.c\<close> and \<^verbatim>\<open>delete.c\<close> are empty, \<^verbatim>\<open>reset.c\<close> parses its arguments.
\<close>

section \<open>pk makekey\<close>

text \<open>The addresses of output_file and key_size.\<close>

definition makekey_cells :: cells where
  "makekey_cells = [1 \<mapsto> StrCell NullPtr, 2 \<mapsto> UintCell 32]"

definition cmd_makekey_usages :: "string list" where
  "cmd_makekey_usages = [''pk makekey [--output <file>] [--size <sz>]'']"

definition cmd_makekey_options :: "opt list" where
  "cmd_makekey_options =
    [mk_OPTION_FILENAME NUL ''output'' 1 ''file to be written, default is stdout'',
     mk_OPTION_UNSIGNED (CHR ''s'') ''size'' 2 ''specify the key length in bytes, default is 32'',
     mk_OPTION_END]"

text \<open>
  The text that is written: \<open>key_size\<close> bytes of a buffer that has \<open>BINKEY_LEN\<close>; the length
  of the digits is computed as an unsigned int.
\<close>

definition makekey_text :: "byte block \<Rightarrow> uint \<Rightarrow> string res" where
  "makekey_text binkey key_size =
     bind_res (bin2hex binkey (unat key_size)) (\<lambda>(hexkey, _).
     bind_res (mem_read hexkey 0 (unat (key_size * 2))) (\<lambda>digits.
       Ok (''0x'' @ chars_of digits @ [NL])))"

definition makekey_body :: "os \<Rightarrow> string option \<Rightarrow> uint \<Rightarrow> int act" where
  "makekey_body os output_file key_size =
     andthen (case output_file of
                None \<Rightarrow> ret ()
              | Some p \<Rightarrow>
                  andthen (avail_dir_of os p) (\<lambda>_.
                  andthen (lift (xopen (os_open os p))) (\<lambda>_. change (set_file p [])))) (\<lambda>_.
     andthen (lift (random_bytes_routine (os_rand os) None BINKEY_LEN True)) (\<lambda>(rc, binkey).
     andthen (lift (require_success rc 0)) (\<lambda>_.
     andthen (lift (case binkey of None \<Rightarrow> Halt (Undef ''NULL key'') | Some b \<Rightarrow> makekey_text b key_size)) (\<lambda>text.
     andthen (case output_file of None \<Rightarrow> write_stdout os text | Some p \<Rightarrow> write_file os p text) (\<lambda>_.
       stop (Exit 0))))))"

definition cmd_makekey :: "os \<Rightarrow> nat \<Rightarrow> string option list \<Rightarrow> string \<Rightarrow> int act" where
  "cmd_makekey os argc args prefix =
     andthen (run_parser os DEFAULT_OPT_ARGH_INDENT makekey_cells argc args prefix cmd_makekey_options cmd_makekey_usages
                {PARSER_ABORT_NON_OPTION}) (\<lambda>(_, _, m).
       makekey_body os (ptr_text (str_var m 1)) (uint_var m 2))"

section \<open>pk version\<close>

text \<open>\<^verbatim>\<open>show_build_options\<close> is a bool, although the option stores an int.\<close>

definition version_cells :: cells where
  "version_cells = [1 \<mapsto> BoolCell False]"

definition cmd_version_usages :: "string list" where
  "cmd_version_usages = [''pk version [--build-options]'']"

definition cmd_version_options :: "opt list" where
  "cmd_version_options =
    [mk_OPTION_SWITCH NUL ''build-options'' 1 ''also print build information'', mk_OPTION_END]"

definition bool_var :: "cells \<Rightarrow> addr \<Rightarrow> bool" where
  "bool_var m a \<longleftrightarrow> m a = Some (BoolCell True)"

definition version_text :: "(string \<Rightarrow> string) \<Rightarrow> bool \<Rightarrow> string res" where
  "version_text build show_build_options =
     bind_res (strbuf_puts STRBUF_INIT (''pk ('' @ build ''PROJNAME'' @ '') '' @ build ''PROJECT_VERSION'')) (\<lambda>sb.
     bind_res (strbuf_puts sb (build ''LICENSE_NOTIES'')) (\<lambda>sb.
     bind_res (if show_build_options
               then bind_res (strbuf_puts sb (''architecture: '' @ build ''ARCHITECTURE'')) (\<lambda>sb.
                    strbuf_puts sb (''built from commit: '' @ build ''BUILD_COMMIT''))
               else Ok sb) (\<lambda>sb.
     bind_res (strbuf_printf sb (''written by '' @ build ''AUTHOR'' @ '' <'' @ build ''CONTACT'' @ ''>'')) (\<lambda>sb.
       buf_read (sb_buf sb) 0 (sb_length sb)))))"

definition cmd_version :: "os \<Rightarrow> nat \<Rightarrow> string option list \<Rightarrow> string \<Rightarrow> int act" where
  "cmd_version os argc args prefix =
     andthen (run_parser os DEFAULT_OPT_ARGH_INDENT version_cells argc args prefix cmd_version_options cmd_version_usages {})
       (\<lambda>(_, _, m).
     andthen (lift (version_text (os_build os) (bool_var m 1))) (\<lambda>text.
     andthen (write_stdout os text) (\<lambda>_. ret 0)))"

section \<open>The other commands\<close>

definition count_cells :: cells where
  "count_cells = [1 \<mapsto> StrCell (StrPtr ''%'')]"

definition cmd_count_usages :: "string list" where
  "cmd_count_usages = [''pk count [--search <pattern>]'']"

definition cmd_count_options :: "opt list" where
  "cmd_count_options =
    [OPTION_STRING_F NUL (Some ''search'') 1 (Some ''pattern'') (Some ''count record for a particular site'') {OPTION_SHOWARGH},
     mk_OPTION_END]"

definition cmd_count :: "os \<Rightarrow> nat \<Rightarrow> string option list \<Rightarrow> string \<Rightarrow> int act" where
  "cmd_count os argc args prefix =
     andthen (run_parser os DEFAULT_OPT_ARGH_INDENT count_cells argc args prefix cmd_count_options cmd_count_usages
                {PARSER_ABORT_NON_OPTION}) (\<lambda>(argc, _, m).
     andthen (lift (load_str m 1)) (\<lambda>search_pattern.
     andthen (print_to To_stdout (''s: '' @ search_pattern @ '', a: '' @ dec_string argc @ [NL])) (\<lambda>_. ret 0)))"

definition cmd_reset_usages :: "string list" where
  "cmd_reset_usages = [''pk reset'']"

definition cmd_reset :: "os \<Rightarrow> nat \<Rightarrow> string option list \<Rightarrow> string \<Rightarrow> int act" where
  "cmd_reset os argc args prefix =
     andthen (run_parser os DEFAULT_OPT_ARGH_INDENT Map.empty argc args prefix [option_zero] cmd_reset_usages
                {PARSER_ABORT_NON_OPTION}) (\<lambda>_. ret 0)"

definition cmd_help :: "nat \<Rightarrow> string option list \<Rightarrow> string \<Rightarrow> int act" where
  "cmd_help argc args prefix = ret 0"

definition cmd_read :: "nat \<Rightarrow> string option list \<Rightarrow> string \<Rightarrow> int act" where
  "cmd_read argc args prefix = ret 0"

definition cmd_update :: "nat \<Rightarrow> string option list \<Rightarrow> string \<Rightarrow> int act" where
  "cmd_update argc args prefix = ret 0"

definition cmd_delete :: "nat \<Rightarrow> string option list \<Rightarrow> string \<Rightarrow> int act" where
  "cmd_delete argc args prefix = ret 0"

lemma quiet_commands [quiet_rules]:
  "quiet (cmd_version os argc args pfx)" "quiet (cmd_count os argc args pfx)" "quiet (cmd_reset os argc args pfx)"
  "quiet (cmd_help argc args pfx)" "quiet (cmd_read argc args pfx)" "quiet (cmd_update argc args pfx)"
  "quiet (cmd_delete argc args pfx)"
  by (auto simp: cmd_version_def cmd_count_def cmd_reset_def cmd_help_def cmd_read_def cmd_update_def cmd_delete_def
      split: prod.split intro!: quiet_rules)

section \<open>The key that is made\<close>

lemma makekey_text_digits:
  assumes "length bytes = 32"
  shows "makekey_text (map Some bytes) 32 = Ok (''0x'' @ chars_of (hex_encode bytes) @ [NL])"
proof -
  have b: "bin2hex (map Some bytes) 32 = Ok (map Some (hex_encode bytes @ [0]), 64)"
    using bin2hex_encodes [of bytes] assms by (simp add: size_bounds)
  have "length (hex_encode bytes) = 64" using assms by simp
  then have "mem_read (map Some (hex_encode bytes @ [0])) 0 64 = Ok (hex_encode bytes)"
    by (intro mem_read_prefix) simp_all
  then show ?thesis using b by (simp add: makekey_text_def)
qed

lemma run_parser_Ok:
  assumes "run_parser os indent m argc args pfx opts us fl s = (Ok (n, args', m'), s')"
  obtains ctx where "parse_options (os_stat os) indent m argc args pfx opts us fl = Ok (Returned n, ctx)" "m' = ctx_cells ctx"
    "args' = ctx_args ctx"
  using assms by (auto simp: run_parser_def andthen_def lift_def change_def ret_def stop_def
      split: res.splits prod.splits parse_end.splits)



text \<open>
  pk version --build-options has undefined behaviour: the option stores an int, and the
  variable is a bool.
\<close>

lemma build_options_undefined:
  "cmd_version os 1 [Some ''--build-options'', None] pfx s = (Halt (Undef ''int store through a wrong pointer''), s)"
  by (simp add: cmd_version_def cmd_version_options_def version_cells_def parse_evals act_simps stop_def)

end
