(* ===== verification/Passkeeper.thy ===== *)
theory Passkeeper
  imports Command Cmd_Init Cmd_Create Cmd_Others
begin

text \<open>
  \<^verbatim>\<open>src/src/passkeeper.c\<close>: the main program.  The words of the command line are rearranged,
  the options in front of the command are parsed, the variables of \<^verbatim>\<open>src/src/enval.c\<close> get
  their values, and the command is run on the rest of the words after the files it needs
  have been checked.
\<close>

section \<open>Options of the main program\<close>

definition OPTION_FILENAME_H :: "char \<Rightarrow> string \<Rightarrow> addr \<Rightarrow> opt" where
  "OPTION_FILENAME_H s l v = OPTION_FILENAME_F s (Some l) v None None {OPTION_HIDDEN}"

definition OPTION_STRING_H :: "char \<Rightarrow> string \<Rightarrow> addr \<Rightarrow> opt" where
  "OPTION_STRING_H s l v = OPTION_STRING_F s (Some l) v None None {OPTION_HIDDEN}"

definition OPTION_OPTARG_HF :: "char \<Rightarrow> string \<Rightarrow> addr \<Rightarrow> option_flag set \<Rightarrow> opt" where
  "OPTION_OPTARG_HF s l v f = OPTION_OPTARG_F s (Some l) v NullPtr None None (insert OPTION_HIDDEN f)"

text \<open>
  The variables cred_db_path, cred_cc_path, tmp_rec_path, ext_editor and spinner_style.
\<close>

definition enval_cells :: cells where
  "enval_cells = [1 \<mapsto> StrCell NullPtr, 2 \<mapsto> StrCell NullPtr, 3 \<mapsto> StrCell NullPtr, 4 \<mapsto> StrCell NullPtr,
     5 \<mapsto> StrCell MarkPtr]"

definition main_options :: "opt list" where
  "main_options =
    [OPTION_FILENAME_H NUL ''cred-db'' 1,
     OPTION_FILENAME_H NUL ''cred-cc'' 2,
     OPTION_FILENAME_H NUL ''tmp-rec'' 3,
     OPTION_STRING_H NUL ''editor'' 4,
     OPTION_OPTARG_HF NUL ''spinner'' 5 {OPTION_ALLONEG},
     mk_OPTION_GROUP ''database manipulation'',
     mk_OPTION_COMMAND ''init'' ''Initialize database files for storing credentials'',
     mk_OPTION_COMMAND ''create'' ''Create a record'',
     mk_OPTION_COMMAND ''read'' ''Read a record'',
     mk_OPTION_COMMAND ''update'' ''Update a record'',
     mk_OPTION_COMMAND ''delete'' ''Delete a record'',
     mk_OPTION_COMMAND ''count'' ''Count the number of records'',
     mk_OPTION_GROUP ''utility'',
     mk_OPTION_COMMAND ''makekey'' ''Generate random bytes using a CSPRNG'',
     mk_OPTION_GROUP ''helper'',
     mk_OPTION_COMMAND ''help'' ''Display help information about PassKeeper'',
     mk_OPTION_COMMAND ''version'' ''Display version information about PassKeeper'',
     mk_OPTION_END]"

definition main_usages :: "string list" where
  "main_usages =
    [''pk [--cred-db <file>] [--cred-cc <file>] [--temp-rc <file>]'' @ [NL]
     @ ''   [--editor <name>] [--[no]-spinner[=<style>]] <command>'' @ [NL] @ ''   [<args>]'']"

definition parse_main_option :: "os \<Rightarrow> nat \<Rightarrow> string option list \<Rightarrow> string \<Rightarrow> (nat \<times> string option list \<times> cells) act" where
  "parse_main_option os argc args prefix =
     run_parser os 13 enval_cells argc args prefix main_options main_usages {PARSER_UNTIL_NON_OPTION}"

section \<open>The variables\<close>

definition env_default :: "os \<Rightarrow> strptr \<Rightarrow> string \<Rightarrow> string \<Rightarrow> string" where
  "env_default os var name path =
     (case ptr_text var of
        Some p \<Rightarrow> p
      | None \<Rightarrow> (case os_getenv os name of Some p \<Rightarrow> p | None \<Rightarrow> path))"

definition is_dumb_term :: "os \<Rightarrow> bool" where
  "is_dumb_term os \<longleftrightarrow> os_getenv os ''TERM'' = None"

definition choose_editor :: "os \<Rightarrow> strptr \<Rightarrow> string option" where
  "choose_editor os var =
     (if ptr_text var \<noteq> None then ptr_text var
      else if os_getenv os ''PK_EDITOR'' \<noteq> None then os_getenv os ''PK_EDITOR''
      else if os_getenv os ''VISUAL'' \<noteq> None then os_getenv os ''VISUAL''
      else if os_getenv os ''EDITOR'' \<noteq> None then os_getenv os ''EDITOR''
      else if \<not> is_dumb_term os then Some ''vi''
      else None)"

definition init_enval :: "os \<Rightarrow> cells \<Rightarrow> pk_world \<Rightarrow> pk_world" where
  "init_enval os m w = w\<lparr>
     w_cred_db := env_default os (str_var m 1) ''PK_CRED_DB'' ''.pk-cred-db'',
     w_cred_cc := Some (env_default os (str_var m 2) ''PK_CRED_CC'' ''.pk-cred-cc''),
     w_tmp_rec := env_default os (str_var m 3) ''PK_TMP_REC'' ''.pk-tmp-rec'',
     w_editor := choose_editor os (str_var m 4),
     w_spinner := str_var m 5\<rparr>"

section \<open>Checks\<close>

fun skip_precheck :: "nat \<Rightarrow> string option list \<Rightarrow> bool" where
  "skip_precheck 0 argv = False"
| "skip_precheck (Suc argc) argv = (if argv ! argc = Some ''-h'' then True else skip_precheck argc argv)"

definition precheck_command :: "os \<Rightarrow> cmdreq \<Rightarrow> unit act" where
  "precheck_command os reqs =
     andthen (if reqs AND USE_RECFILE \<noteq> 0 then andthen (get w_tmp_rec) (avail_dir_of os) else ret ()) (\<lambda>_.
     andthen (get w_cred_db) (\<lambda>db.
       if reqs AND USE_CREDDB \<noteq> 0 \<and> access_regular (os_euid os) (os_egid os) (os_filestat os) db (R_OK OR W_OK) \<noteq> None
       then exit_error (Some (os_errtext os)) (''cannot access cred db '' @ squote db)
       else ret ()))"

definition TAB :: char where "TAB = CHR 0x09"

definition help_unknown_command :: "string \<Rightarrow> int act" where
  "help_unknown_command cmd =
     andthen (say_error None (squote cmd @ '' is not a pk command, see '' @ squote ''pk help pk'' @ ''.'')) (\<lambda>_.
     andthen (lift (get_approximate_command cmd)) (\<lambda>found. case found of
       None \<Rightarrow> stop (Exit EXIT_FAILURE)
     | Some commands \<Rightarrow>
         andthen (print_to To_stderr
                   (if commands ! 0 \<noteq> None \<and> commands ! 1 \<noteq> None
                    then NL # ''The most similar command are'' @ [NL] else NL # ''The most similar command is'' @ [NL])) (\<lambda>_.
         andthen (all_acts (\<lambda>c. print_to To_stderr (TAB # the c @ [NL])) (takeWhile (\<lambda>c. c \<noteq> None) commands)) (\<lambda>_.
           stop (Exit EXIT_FAILURE)))))"

section \<open>The program\<close>

text \<open>
  \<^verbatim>\<open>argc\<close> and the array \<^verbatim>\<open>argv\<close> after the first conditional, from the program name and
  the words behind it: \<^verbatim>\<open>argv\<close> starts behind the program name or, after ARGV_MOVE_BACK, with
  it.
\<close>

definition main_args :: "string \<Rightarrow> string list \<Rightarrow> nat \<times> string option list" where
  "main_args prog ws =
     (let argc = length ws; argv = map Some ws @ [None]
      in if argc > 1 \<and> argv ! 1 = Some ''--help''
         then (argc, argv[1 := argv ! 0, 0 := Some ''help''])
         else if argc = 1 \<and> argv ! 0 = Some ''--help''
         then (argc + 1, (Some prog # argv)[0 := Some ''help'', 1 := Some ''pk''])
         else if argc = 0 then (argc + 1, (Some prog # argv)[0 := Some ''-h''])
         else (argc, argv))"

definition run_handler :: "os \<Rightarrow> handler \<Rightarrow> nat \<Rightarrow> string option list \<Rightarrow> string \<Rightarrow> int act" where
  "run_handler os h argc argv prefix =
     (case h of
        Cmd_count \<Rightarrow> cmd_count os argc argv prefix
      | Cmd_create \<Rightarrow> cmd_create os argc argv prefix
      | Cmd_delete \<Rightarrow> cmd_delete argc argv prefix
      | Cmd_help \<Rightarrow> cmd_help argc argv prefix
      | Cmd_init \<Rightarrow> cmd_init os argc argv prefix
      | Cmd_makekey \<Rightarrow> cmd_makekey os argc argv prefix
      | Cmd_read \<Rightarrow> cmd_read argc argv prefix
      | Cmd_update \<Rightarrow> cmd_update argc argv prefix
      | Cmd_version \<Rightarrow> cmd_version os argc argv prefix)"

text \<open>Up to init_enval, then the rest.\<close>

definition start_up :: "os \<Rightarrow> string \<Rightarrow> string list \<Rightarrow> (nat \<times> string option list \<times> string) act" where
  "start_up os prog ws =
     (case main_args prog ws of (argc, argv) \<Rightarrow>
     andthen (case get_working_dir_routine (os_getcwd os) None False of None \<Rightarrow> stop Waits | Some r \<Rightarrow> lift r) (\<lambda>prefix.
     andthen (parse_main_option os argc argv prefix) (\<lambda>(argc, argv, m).
     andthen (change (init_enval os m)) (\<lambda>_. ret (argc, argv, prefix)))))"

definition dispatch :: "os \<Rightarrow> nat \<Rightarrow> string option list \<Rightarrow> string \<Rightarrow> int act" where
  "dispatch os argc argv prefix =
     (case argv of
        Some cmd # rest \<Rightarrow>
          (case find_command cmd of
             None \<Rightarrow> help_unknown_command cmd
           | Some command \<Rightarrow>
               andthen (if \<not> skip_precheck (argc - 1) rest then precheck_command os (ci_reqs command) else ret ()) (\<lambda>_.
                 run_handler os (ci_handle command) (argc - 1) rest prefix))
      | _ \<Rightarrow> stop (Undef ''strcmp of NULL''))"

definition main :: "os \<Rightarrow> string \<Rightarrow> string list \<Rightarrow> int act" where
  "main os prog ws = andthen (start_up os prog ws) (\<lambda>(argc, argv, prefix). dispatch os argc argv prefix)"

section \<open>Dispatch\<close>

lemma parse_stops:
  assumes "first_char w \<noteq> CHR ''-''" "make_cmdmode_list m [] opts = Ok []"
  shows "\<exists>ctx. parse_options stat indent m (Suc (length ws)) (Some w # map Some ws @ [None]) pfx opts us {PARSER_UNTIL_NON_OPTION}
      = Ok (Returned (Suc (length ws)), ctx)
    \<and> ctx_log ctx = [] \<and> ctx_cells ctx = m \<and> ctx_args ctx = Some w # map Some ws @ [None]"
  using assms
  by (simp add: parse_options_def start_context_def parse_loop.simps parse_option_next_def arg_at_def finish_parse_def
      clean_cmdmode_list_def list_update_append)

lemma main_modes: "make_cmdmode_list enval_cells [] main_options = Ok []"
  by (simp add: main_options_def OPTION_FILENAME_H_def OPTION_STRING_H_def OPTION_OPTARG_HF_def OPTION_FILENAME_F_def
      OPTION_STRING_F_def OPTION_OPTARG_F_def mk_OPTION_GROUP_def mk_OPTION_COMMAND_def mk_OPTION_END_def option_zero_def)

lemma command_word: "find_command name = Some c \<Longrightarrow> first_char name \<noteq> CHR ''-'' \<and> name \<noteq> ''--help''"
  by (auto simp: find_command_def command_list_def split: if_splits)

lemma skip_precheck_words: "skip_precheck (length ws) (map Some ws @ vs) \<longleftrightarrow> ''-h'' \<in> set ws"
proof (induction ws arbitrary: vs rule: rev_induct)
  case (snoc w ws)
  then show ?case by (auto simp: nth_append)
qed simp

lemma start_up_command:
  assumes "first_char w \<noteq> CHR ''-''" "ws = [] \<or> hd ws \<noteq> ''--help''"
    "get_working_dir_routine (os_getcwd os) None False = Some (Ok cwd)"
  shows "start_up os prog (w # ws) s
    = (Ok (Suc (length ws), Some w # map Some ws @ [None], cwd), s\<lparr>world := init_enval os enval_cells (world s)\<rparr>)"
proof -
  have a: "main_args prog (w # ws) = (Suc (length ws), Some w # map Some ws @ [None])"
    using assms(1,2) by (cases ws) (auto simp: main_args_def Let_def)
  obtain ctx where ctx: "parse_options (os_stat os) 13 enval_cells (Suc (length ws)) (Some w # map Some ws @ [None]) cwd
      main_options main_usages {PARSER_UNTIL_NON_OPTION} = Ok (Returned (Suc (length ws)), ctx)" "ctx_log ctx = []"
      "ctx_cells ctx = enval_cells" "ctx_args ctx = Some w # map Some ws @ [None]"
    using parse_stops [OF assms(1) main_modes] by blast
  show ?thesis
    using parser_run [OF ctx(1,2), of s] assms(3)
    by (simp add: start_up_def a parse_main_option_def act_simps ctx(3,4) ret_def)
qed

text \<open>
  C9. When the first word is the name of a command and the second is not --help, the main
  program runs exactly that command on the remaining words, after giving the variables the
  values of the environment and, unless -h is among the words, checking the files the command
  needs.
\<close>

theorem main_dispatches:
  assumes "find_command name = Some c" "ws = [] \<or> hd ws \<noteq> ''--help''"
    "get_working_dir_routine (os_getcwd os) None False = Some (Ok cwd)"
  shows "main os prog (name # ws) s =
    andthen (if ''-h'' \<in> set ws then ret () else precheck_command os (ci_reqs c))
      (\<lambda>_. run_handler os (ci_handle c) (length ws) (map Some ws @ [None]) cwd)
      (s\<lparr>world := init_enval os enval_cells (world s)\<rparr>)"
  using start_up_command [of name ws os cwd prog s] command_word [OF assms(1)] assms skip_precheck_words [of ws "[None]"]
  by (simp add: main_def andthen_def [of "start_up os prog (name # ws)"] dispatch_def)

theorem main_dispatches_witness:
  "\<exists>s'. main (sample_os (\<lambda>_ _. (0, None))) ''pk'' [''help'', ''init''] sample_pk = (Ok 0, s')"
proof -
  have "find_command ''help'' = Some \<lparr>ci_name = ''help'', ci_handle = Cmd_help, ci_reqs = 0\<rparr>"
    by (simp add: find_command_def command_list_def)
  moreover have "get_working_dir_routine (os_getcwd (sample_os (\<lambda>_ _. (0, None)))) None False = Some (Ok ''/'')"
    by (simp add: sample_os_def get_working_dir_routine_def fixed_growth_exact size_bounds getcwd_loop.simps xmalloc_def)
  ultimately show ?thesis
    using main_dispatches [of "''help''" _ "[''init'']" "sample_os (\<lambda>_ _. (0, None))" "''/''" "''pk''" sample_pk]
    by (simp add: precheck_command_def act_simps run_handler_def cmd_help_def ret_def)
qed

section \<open>The checks come first\<close>

text \<open>A computation that stops only where its behaviour is undefined.\<close>

definition no_exit :: "'a res \<Rightarrow> bool" where
  "no_exit r \<longleftrightarrow> (\<forall>h. r = Halt h \<longrightarrow> (\<exists>why. h = Undef why))"

lemma no_exit_bind: "no_exit r \<Longrightarrow> (\<And>x. no_exit (f x)) \<Longrightarrow> no_exit (bind_res r f)"
  by (cases r) (auto simp: no_exit_def)

lemma no_exit_basic:
  "no_exit (Ok x)" "no_exit (mem_write b i xs)" "no_exit (mem_read b i n)" "no_exit (snprintf_at c i n out)"
  by (auto simp: no_exit_def snprintf_at_def mem_write_def mem_read_def)

lemma no_exit_error: "no_exit (error_routine d t)"
  unfolding error_routine_def vreportf_def Let_def
  by (auto split: option.split intro!: no_exit_bind no_exit_basic)

lemma error_routine_halts: "error_routine d t = Halt h \<Longrightarrow> \<exists>why. h = Undef why"
  using no_exit_error by (auto simp: no_exit_def)

lemma exit_error_fails:
  assumes "exit_error d t s = (r, s')"
  shows "\<exists>h. r = Halt h \<and> (h = Exit 255 \<or> (\<exists>why. h = Undef why))"
proof (cases "error_routine d (Some t)")
  case (Ok x)
  then show ?thesis
    using assms by (cases x) (auto simp: exit_error_def say_error_def act_simps print_run stop_def exit_status_def
        error_routine_def bind_res_eq_Ok)
next
  case (Halt h)
  then show ?thesis
    using assms error_routine_halts [OF Halt] by (auto simp: exit_error_def say_error_def act_simps stop_def)
qed

text \<open>What a failed check leaves: the program stops, with a status that is no success.\<close>

lemma precheck_stops:
  assumes "precheck_command os reqs s = (r, s')" "reqs AND USE_CREDDB \<noteq> 0"
    "access_regular (os_euid os) (os_egid os) (os_filestat os) (w_cred_db (world s)) (R_OK OR W_OK) \<noteq> None"
  shows "\<exists>h. r = Halt h \<and> (h = Exit 255 \<or> h = Exit EXIT_FAILURE \<or> (\<exists>why. h = Undef why))"
proof -
  let ?check = "if reqs AND USE_RECFILE \<noteq> 0 then andthen (get w_tmp_rec) (avail_dir_of os) else ret ()"
  let ?rest = "\<lambda>_. andthen (get w_cred_db) (\<lambda>db.
       if reqs AND USE_CREDDB \<noteq> 0 \<and> access_regular (os_euid os) (os_egid os) (os_filestat os) db (R_OK OR W_OK) \<noteq> None
       then exit_error (Some (os_errtext os)) (''cannot access cred db '' @ squote db)
       else ret ())"
  obtain r1 s1 where c: "?check s = (r1, s1)" by fastforce
  have s1: "s1 = s"
    using c by (auto simp: act_simps avail_dir_of_def lift_def ret_def andthen_def get_def split: if_splits)
  show ?thesis
  proof (cases r1)
    case (Halt h)
    then have "h = Exit EXIT_FAILURE"
      using c by (auto simp: andthen_def get_def avail_dir_of_def lift_def avail_file_dir_or_die_def require_success_def ret_def
          split: if_splits)
    then show ?thesis using assms(1) c Halt by (auto simp: precheck_command_def andthen_def)
  next
    case (Ok u)
    then have "?rest u s = (r, s')" using assms(1) c s1 by (simp add: precheck_command_def andthen_def)
    then have "exit_error (Some (os_errtext os)) (''cannot access cred db '' @ squote (w_cred_db (world s))) s = (r, s')"
      using assms(2,3) by (simp add: act_simps)
    from exit_error_fails [OF this] show ?thesis by blast
  qed
qed

lemma quiet_precheck [quiet_rules]: "quiet (precheck_command os reqs)"
  by (auto simp: precheck_command_def intro!: quiet_rules)



text \<open>
  Without a command, the program compares a NULL pointer: here the only words are an option
  and its argument.
\<close>

lemma editor_option:
  "parse_long_option ctx ''editor'' main_options
   = bind_res (get_arg ctx (OPTION_STRING_H NUL ''editor'' 4) LONG_OPTION) (\<lambda>(r, ctx). Ok (r, Some (OPTION_STRING_H NUL ''editor'' 4), ctx))"
proof -
  have match: "match_long ''editor'' (OPTION_FILENAME_H NUL ''cred-db'' a) = Ok No_match"
    "match_long ''editor'' (OPTION_FILENAME_H NUL ''cred-cc'' a) = Ok No_match"
    "match_long ''editor'' (OPTION_FILENAME_H NUL ''tmp-rec'' a) = Ok No_match"
    "match_long ''editor'' (OPTION_STRING_H NUL ''editor'' a) = Ok (Exact LONG_OPTION None)" for a
    by (simp_all add: match_long_def OPTION_FILENAME_H_def OPTION_STRING_H_def OPTION_FILENAME_F_def OPTION_STRING_F_def
        option_zero_def name_of_def Let_def category_xor_def accept_rest_def strncmp_eq_def argstr_end_def)
  have type: "opt_type (OPTION_FILENAME_H c l v) = OPTION_FILENAME" "opt_type (OPTION_STRING_H c l v) = OPTION_STRING" for c l v
    by (simp_all add: OPTION_FILENAME_H_def OPTION_STRING_H_def OPTION_FILENAME_F_def OPTION_STRING_F_def)
  show ?thesis
    by (simp add: parse_long_option_def main_options_def match type)
qed

lemma editor_parsed:
  "\<exists>ctx. parse_options stat 13 enval_cells 2 [Some ''--editor'', Some e, None] pfx main_options us fl = Ok (Returned 0, ctx)
     \<and> ctx_log ctx = [] \<and> ctx_args ctx ! 0 = None \<and> ctx_args ctx \<noteq> []" if "PARSER_ONE_SHOT \<notin> fl"
proof -
  have next_: "parse_option_next stat main_options (start_context 2 [Some ''--editor'', Some e, None] pfx fl [] enval_cells)
      = Ok (PARSING_DONE, (start_context 2 [Some ''--editor'', Some e, None] pfx fl [] enval_cells)
          \<lparr>ctx_argc := 1, ctx_argv := 1, ctx_cells := enval_cells(4 \<mapsto> StrCell (StrPtr e))\<rparr>)"
    using that by (simp add: parse_option_next_def editor_option start_context_def arg_at_def get_arg_def get_arg_routine_def
        get_arg_value_def get_arg_str_def next_arg_def store_str_def OPTION_STRING_H_def OPTION_STRING_F_def
        option_zero_def enval_cells_def Let_def validate_parsed_value_def)
  have end_: "ctx_argc c = 0 \<Longrightarrow> parse_loop stat 13 main_options us c = finish_parse c" for c
    by (simp add: parse_loop.simps)
  have argc: "ctx_argc (start_context 2 [Some ''--editor'', Some e, None] pfx fl [] enval_cells) = 2"
    by (simp add: start_context_def)
  show ?thesis
    by (simp add: parse_options_def main_modes next_ argc end_ parse_loop.simps [of _ _ _ _ "start_context _ _ _ _ _ _"])
       (simp add: start_context_def finish_parse_def clean_cmdmode_list_def)
qed

text \<open>
  Without a command, the program compares a NULL pointer: here the only words are an option
  and its argument.
\<close>

lemma options_only_undefined:
  assumes "get_working_dir_routine (os_getcwd os) None False = Some (Ok cwd)" "e \<noteq> ''--help''"
  shows "\<exists>s'. main os prog [''--editor'', e] s = (Halt (Undef ''strcmp of NULL''), s')"
proof -
  have a: "main_args prog [''--editor'', e] = (2, [Some ''--editor'', Some e, None])"
    using assms(2) by (simp add: main_args_def)
  obtain ctx where ctx: "parse_options (os_stat os) 13 enval_cells 2 [Some ''--editor'', Some e, None] cwd main_options main_usages
      {PARSER_UNTIL_NON_OPTION} = Ok (Returned 0, ctx)" "ctx_log ctx = []" "ctx_args ctx ! 0 = None" "ctx_args ctx \<noteq> []"
    using editor_parsed [of "{PARSER_UNTIL_NON_OPTION}"] by fastforce
  obtain t where "ctx_args ctx = None # t" using ctx(3,4) by (cases "ctx_args ctx") auto
  then show ?thesis
    using parser_run [OF ctx(1,2), of s] assms(1)
    by (simp add: main_def start_up_def a parse_main_option_def act_simps dispatch_def stop_def)
qed

end
