(* ===== verification/Own_Files.thy ===== *)
theory Own_Files
  imports Passkeeper Option_Laws
begin

text \<open>
  What the whole program may do to the files: whatever the command line is, only the files
  named by the variables of \<^verbatim>\<open>src/src/enval.c\<close> and the journal of the database are created,
  changed or removed, by the command itself and by the cleanup functions that run behind it.
  The commands are put through the contract of theory Steps once more, with the set of files
  in place of the chain.
\<close>

section \<open>The contract\<close>

definition own_files :: "pk_world \<Rightarrow> string set" where
  "own_files w = set (List.map_filter (cleanup_path w) enum_class.enum)"

lemma own_files_iff: "own_files w = {p. \<exists>c. cleanup_path w c = Some p}"
  by (force simp: own_files_def map_filter_def enum_UNIV image_iff)

definition within :: "string set \<Rightarrow> (string \<rightharpoonup> string) \<Rightarrow> pk \<Rightarrow> bool" where
  "within P F s \<longleftrightarrow> own_files (world s) \<subseteq> P \<and> (\<forall>p. p \<notin> P \<longrightarrow> w_files (world s) p = F p)"

lemma own_files_paths:
  "w_cred_db w \<in> own_files w" "w_tmp_rec w \<in> own_files w" "w_cred_cc w = Some p \<Longrightarrow> p \<in> own_files w"
proof -
  have own: "cleanup_path w c = Some p \<Longrightarrow> p \<in> own_files w" for c p by (auto simp: own_files_iff)
  show "w_cred_db w \<in> own_files w" using own [of Rm_cred_db] by (simp add: cleanup_path_def)
  show "w_tmp_rec w \<in> own_files w" using own [of Rm_tmp_rec] by (simp add: cleanup_path_def)
  show "w_cred_cc w = Some p \<Longrightarrow> p \<in> own_files w" using own [of Rm_cred_cc p] by (simp add: cleanup_path_def)
qed

lemma own_files_mono:
  assumes "w_cred_db w' = w_cred_db w" "w_tmp_rec w' = w_tmp_rec w" "w_cred_cc w' \<in> {w_cred_cc w, None}"
  shows "own_files w' \<subseteq> own_files w"
proof
  fix p assume "p \<in> own_files w'"
  then obtain c where "cleanup_path w' c = Some p" by (auto simp: own_files_iff)
  then have "cleanup_path w c = Some p" using assms by (cases c) (auto simp: cleanup_path_def)
  then show "p \<in> own_files w" by (auto simp: own_files_iff)
qed

lemma within_change:
  assumes "within P F s" "w_cred_db w = w_cred_db (world s)" "w_tmp_rec w = w_tmp_rec (world s)"
    "w_cred_cc w \<in> {w_cred_cc (world s), None}" "\<And>p. p \<notin> P \<Longrightarrow> w_files w p = w_files (world s) p"
  shows "within P F (s\<lparr>world := w\<rparr>)"
  using assms(1,5) own_files_mono [OF assms(2-4)] by (auto simp: within_def)

lemma within_path:
  "within P F s \<Longrightarrow> w_cred_db (world s) \<in> P \<and> w_tmp_rec (world s) \<in> P \<and> (\<forall>p. w_cred_cc (world s) = Some p \<longrightarrow> p \<in> P)"
  using own_files_paths [of "world s"] by (auto simp: within_def)

lemma within_world: "within P F s' \<longleftrightarrow> within P F s" if "world s' = world s"
  using that by (simp add: within_def)

lemma calm_within: "calm (within P F)"
  unfolding calm_def
proof (intro allI impI)
  fix s s' :: pk assume a: "within P F s" "talks (world s) (world s')"
  have "within P F (s\<lparr>world := world s'\<rparr>)"
    by (rule within_change [OF a(1)]) (use talks_fields [OF a(2)] in simp_all)
  then show "within P F s'" using within_world [of s' "s\<lparr>world := world s'\<rparr>"] by simp
qed

interpretation own: covered_run UNIV "\<lambda>_. within P F" for P F
  by unfold_locales (simp_all add: calm_within within_world [of "atexit_chain_push c s" s for c s])

abbreviation stays :: "string set \<Rightarrow> (string \<rightharpoonup> string) \<Rightarrow> 'a act \<Rightarrow> bool" where
  "stays P F \<equiv> own.step_ok P F []"

lemma own_stopped: "own.stopped P F = within P F"
  by (simp add: own.stopped_def fun_eq_iff)

lemma stays_triple: "stays P F m \<longleftrightarrow> triple (within P F) m (\<lambda>_. within P F) (\<lambda>_. within P F)"
  by (simp add: own.step_ok_def own_stopped)

named_theorems stay_rules \<open>steps that touch no foreign file\<close>

lemma stay_quiet: "quiet m \<Longrightarrow> stays P F m"
  by (rule own.step_quiet) simp_all

lemma stay_change:
  assumes "\<And>w. w_cred_db (f w) = w_cred_db w" "\<And>w. w_tmp_rec (f w) = w_tmp_rec w"
    "\<And>w. w_cred_cc (f w) \<in> {w_cred_cc w, None}" "\<And>w p. p \<notin> P \<Longrightarrow> w_files (f w) p = w_files w p"
  shows "stays P F (change f)"
  by (rule own.step_change) (use assms in \<open>auto intro!: within_change\<close>)

text \<open>A path that a step reads from the variables is one of the files.\<close>

lemma stay_get:
  assumes "\<And>s. within P F s \<Longrightarrow> R (g (world s))" "\<And>x. R x \<Longrightarrow> stays P F (f x)"
  shows "stays P F (andthen (get g) f)"
  using assms by (simp add: stays_triple triple_def act_simps)

lemma stay_get_path:
  assumes "\<And>p. p \<in> P \<Longrightarrow> stays P F (f p)"
  shows "stays P F (andthen (get w_cred_db) f)" "stays P F (andthen (get w_tmp_rec) f)"
  by (rule stay_get [where R = "\<lambda>p. p \<in> P"]; use assms within_path in blast)+

lemma stay_get_cc:
  assumes "stays P F (f None)" "\<And>p. p \<in> P \<Longrightarrow> stays P F (f (Some p))"
  shows "stays P F (andthen (get w_cred_cc) f)"
proof (rule stay_get [where R = "\<lambda>p. \<forall>x. p = Some x \<longrightarrow> x \<in> P"])
  show "stays P F (f x)" if "\<forall>p. x = Some p \<longrightarrow> p \<in> P" for x using assms that by (cases x) simp_all
qed (use within_path in blast)

lemma stay_option:
  "(x = None \<Longrightarrow> stays P F m) \<Longrightarrow> (\<And>y. x = Some y \<Longrightarrow> stays P F (f y)) \<Longrightarrow> stays P F (case x of None \<Rightarrow> m | Some y \<Rightarrow> f y)"
  by (cases x) simp_all

lemma stay_chain: "stays P F (push_cleanup c)" "stays P F pop_cleanup"
  unfolding stays_triple by (rule triple_push triple_pop; simp add: within_def)+

lemma stay_key: "stays P F (change (\<lambda>w. w\<lparr>w_key := k\<rparr>))" "stays P F (change (\<lambda>w. w\<lparr>w_ignored := I w\<rparr>))"
  "stays P F (change (\<lambda>w. w\<lparr>w_cred_cc := None\<rparr>))"
  by (rule stay_change; simp)+

lemma stay_files: "p \<in> P \<Longrightarrow> stays P F (change (set_file p c))" "p \<in> P \<Longrightarrow> stays P F (change (\<lambda>w. w\<lparr>w_files := (w_files w)(p := None)\<rparr>))"
  by (rule stay_change; auto simp: set_file_def)+

lemma stay_sql:
  "stays P F (xsql os fn call)" "stays P F (xsql_exec os sql)" "stays P F (xsql_step os)" "stays P F (xsql_bind os iv)"
  "stays P F (sql_raw os call)"
proof -
  have "within P F (s\<lparr>world := after_sql call db (world s)\<rparr>)" if "within P F s" for s db call
    using within_path [OF that] by (intro within_change [OF that]) (auto simp: after_sql_def)
  then show "stays P F (xsql os fn call)" "stays P F (xsql_exec os sql)" "stays P F (xsql_step os)" "stays P F (xsql_bind os iv)"
    "stays P F (sql_raw os call)"
    by (intro own.step_sql; simp)+
qed

lemma stay_populate: "p \<in> P \<Longrightarrow> stays P F (populate os p content)"
  by (rule own.step_populate) (auto simp: set_file_def intro!: within_change)

lemmas stay_basic [stay_rules] =
  own.step_andthen own.step_if stay_option own.step_acts stay_get_path stay_get_cc stay_chain stay_key stay_files
  stay_sql stay_populate own.step_leaf

section \<open>The commands\<close>

lemma stay_apply [stay_rules]: "stays P F (apply_cipher os k cc)"
  unfolding apply_cipher_def by (intro stay_rules) simp_all

lemma stay_parser [stay_rules]: "stays P F (run_parser os indent m argc args pfx opts us fl)"
  by (rule stay_quiet) (rule quiet_parser)

lemma stay_avail [stay_rules]: "p \<in> P \<Longrightarrow> stays P F (avail_file_path_or_die os ty p force)"
  unfolding avail_file_path_or_die_def avail_dir_of_def by (rule own.step_get) (auto intro!: stay_rules)

lemma stay_request [stay_rules]: "stays P F (request_cmdkey n)"
  unfolding stays_triple
  by (rule request_cmdkey_keeps [OF calm_within]) (rule within_change, auto)

lemma stay_random_key [stay_rules]: "stays P F (random_key os)"
  unfolding random_key_def by (auto split: prod.split intro!: stay_rules)

lemma stay_settings [stay_rules]: "stays P F (choose_settings b r cc)" "stays P F (key_to_store b cfg k)"
  by (rule stay_quiet, rule quiet_rules)+

lemma stay_store [stay_rules]: "stays P F (store_cipher_config os b cfg k cc)"
  unfolding store_cipher_config_def persist_cipher_config_def by (auto intro!: stay_rules)

lemma stay_setup [stay_rules]: "stays P F (setup_database os k cc)"
  unfolding setup_database_def by (auto intro!: stay_rules)

lemma stay_init: "stays P F (cmd_init os argc args pfx)"
  unfolding cmd_init_def init_body_def init_encrypted_def by (auto split: prod.split intro!: stay_rules)

lemma stay_reads [stay_rules]:
  "stays P F (read_whole os path)" "stays P F (read_edited os path)" "stays P F (load_cipher_config os path ck)"
  by (rule stay_quiet, rule quiet_rules)+

lemma stay_edit [stay_rules]:
  assumes "p \<in> P" "edits_only os"
  shows "stays P F (edit_file os p)"
  unfolding stays_triple
proof (rule edit_file_keeps [OF calm_within]; rule within_change)
  show "p' \<notin> P \<Longrightarrow> w_files ((world s)\<lparr>w_files := os_edit os ed p (w_files (world s))\<rparr>) p' = w_files (world s) p'" for p' s ed
    using assms by (cases "p' = p") (auto simp: edits_only_def)
qed simp_all

lemma stay_edit_record [stay_rules]: "edits_only os \<Longrightarrow> stays P F (edit_record os rec)"
  unfolding edit_record_def populate_record_file_def by (auto split: prod.split intro!: stay_rules)

lemma stay_set_cc:
  assumes "\<And>x. p = Some x \<Longrightarrow> x \<in> P"
  shows "stays P F (change (\<lambda>w. w\<lparr>w_cred_cc := p\<rparr>))"
proof (rule own.step_change)
  fix s assume s: "within P F s"
  have "x \<in> own_files (world s) \<or> p = Some x" if own: "x \<in> own_files ((world s)\<lparr>w_cred_cc := p\<rparr>)" for x
  proof -
    obtain c where "cleanup_path ((world s)\<lparr>w_cred_cc := p\<rparr>) c = Some x" using own by (auto simp: own_files_iff)
    then have "cleanup_path (world s) c = Some x \<or> p = Some x" by (cases c) (auto simp: cleanup_path_def)
    then show ?thesis by (auto simp: own_files_iff)
  qed
  then have "own_files ((world s)\<lparr>w_cred_cc := p\<rparr>) \<subseteq> P"
    using s assms by (auto simp: within_def)
  then show "within P F (s\<lparr>world := (world s)\<lparr>w_cred_cc := p\<rparr>\<rparr>)" using s by (simp add: within_def)
qed

lemma stay_locate [stay_rules]: "stays P F (locate_cipher_config os)"
  unfolding locate_cipher_config_def find_cipher_config_def
  by (auto split: access_result.split intro!: stay_rules stay_set_cc)

lemma stay_unlock [stay_rules]: "stays P F (unlock_database os k)"
  unfolding unlock_database_def apply_key_def Let_def by (auto split: prod.split intro!: stay_rules)

lemma stay_insert [stay_rules]: "stays P F (insert_record os rec)"
  unfolding insert_record_def xsql_avail_def prepare_statement_def end_statement_def bind_security_def
  by (auto intro!: stay_rules)

lemma stay_create: "edits_only os \<Longrightarrow> stays P F (cmd_create os argc args pfx)"
  unfolding cmd_create_def create_body_def by (auto split: prod.split intro!: stay_rules)

section \<open>The program\<close>

lemma main_args_words:
  obtains us where "main_args prog ws = (length us, map Some us @ [None])" "set us \<subseteq> set ws \<union> {''help'', ''pk'', ''-h''}"
proof -
  have "\<exists>us. main_args prog ws = (length us, map Some us @ [None]) \<and> set us \<subseteq> set ws \<union> {''help'', ''pk'', ''-h''}"
  proof (cases ws)
    case Nil
    then show ?thesis by (intro exI [of _ "[''-h'']"]) (simp add: main_args_def)
  next
    case (Cons w vs)
    show ?thesis
    proof (cases "(vs \<noteq> [] \<and> hd vs = ''--help'') \<or> (vs = [] \<and> w = ''--help'')")
      case True
      then show ?thesis
        using Cons by (intro exI [of _ "if vs = [] then [''help'', ''pk''] else ''help'' # w # tl vs"])
          (cases vs, auto simp: main_args_def Let_def)
    next
      case False
      then show ?thesis
        using Cons by (intro exI [of _ "w # vs"]) (cases vs, auto simp: main_args_def Let_def)
    qed
  qed
  then show thesis using that by blast
qed

text \<open>The command is one of the words, or one of those that the rearrangement brings in.\<close>

lemma start_up_words:
  assumes "start_up os prog ws s = (Ok (argc, Some cmd # rest, pfx), s1)"
  shows "cmd \<in> set ws \<union> {''help'', ''pk'', ''-h''}"
proof -
  obtain us where us: "main_args prog ws = (length us, map Some us @ [None])" "set us \<subseteq> set ws \<union> {''help'', ''pk'', ''-h''}"
    by (rule main_args_words)
  then obtain m s0 s2 where p: "parse_main_option os (length us) (map Some us @ [None]) pfx s0 = (Ok (argc, Some cmd # rest, m), s2)"
    using assms by (auto simp: start_up_def andthen_def change_def ret_def split: prod.splits res.splits)
  obtain ctx where "parse_options (os_stat os) 13 enval_cells (length us) (map Some us @ [None]) pfx main_options main_usages
      {PARSER_UNTIL_NON_OPTION} = Ok (Returned argc, ctx)" and args: "Some cmd # rest = ctx_args ctx"
    using p unfolding parse_main_option_def by (rule run_parser_Ok)
  then obtain els where "parse_loop (os_stat os) 13 main_options main_usages
      (start_context (length us) (map Some us @ [None]) pfx {PARSER_UNTIL_NON_OPTION} els enval_cells) = Ok (Returned argc, ctx)"
    by (auto simp: parse_options_def bind_res_eq_Ok)
  from parse_loop_words [OF this view_start] obtain ss t where "ctx_args ctx = map Some ss @ None # t" "subseq ss us"
    by auto
  then have "cmd \<in> set us" using args by (cases ss) (auto dest: list_emb_set)
  then show ?thesis using us(2) by blast
qed

lemma stay_dispatch:
  assumes "edits_only os" "\<And>cmd rest. argv = Some cmd # rest \<Longrightarrow> cmd \<noteq> ''makekey''"
  shows "stays P F (dispatch os argc argv pfx)"
proof -
  have check: "stays P F (precheck_command os reqs)" for reqs
    unfolding precheck_command_def avail_dir_of_def by (auto intro!: stay_rules)
  have unknown: "stays P F (help_unknown_command cmd)" for cmd
    unfolding help_unknown_command_def by (auto intro!: stay_rules)
  have run: "stays P F (run_handler os h argc argv pfx)" if "h \<noteq> Cmd_makekey" for h argc argv
    using that stay_init stay_create [OF assms(1)]
    by (cases h) (auto simp: run_handler_def intro: stay_quiet quiet_rules)
  show ?thesis
  proof (cases "\<exists>cmd rest. argv = Some cmd # rest")
    case True
    then obtain cmd rest where argv: "argv = Some cmd # rest" by blast
    then have "find_command cmd = Some c \<Longrightarrow> ci_handle c \<noteq> Cmd_makekey" for c
      using assms(2) by (auto simp: find_command_def command_list_def split: if_splits)
    then show ?thesis
      unfolding dispatch_def argv by (auto intro!: stay_rules check unknown run)
  next
    case False
    then have "dispatch os argc argv pfx = stop (Undef ''strcmp of NULL'')"
      by (auto simp: dispatch_def split: list.split option.split)
    then show ?thesis by (auto intro!: stay_rules)
  qed
qed

text \<open>The variables after init_enval, or the initial ones if the program ends before.\<close>

definition settled :: "os \<Rightarrow> string \<Rightarrow> string list \<Rightarrow> pk \<Rightarrow> pk_world" where
  "settled os prog ws s = world (snd (start_up os prog ws s))"

lemma settled_files: "w_files (settled os prog ws s) = w_files (world s)"
proof -
  have "triple (\<lambda>s. w_files (world s) = F) (start_up os prog ws) (\<lambda>_ s. w_files (world s) = F) (\<lambda>_ s. w_files (world s) = F)" for F
  proof -
    let ?P = "\<lambda>s :: pk. w_files (world s) = F"
    have calm: "calm ?P" by (simp add: calm_def talks_fields)
    have set: "triple ?P (andthen (change (init_enval os m)) (\<lambda>_. ret x)) (\<lambda>_. ?P) (\<lambda>_. ?P)" for m and x :: "nat \<times> string option list \<times> string"
      by (rule triple_change_step [where R = ?P]) (auto simp: init_enval_def intro: triple_ret)
    have rest: "triple ?P (case x of (argc, argv, m) \<Rightarrow> andthen (change (init_enval os m)) (\<lambda>_. ret (argc, argv, pfx)))
        (\<lambda>_. ?P) (\<lambda>_. ?P)" for x :: "nat \<times> string option list \<times> cells" and pfx :: string
      by (cases x) (simp only: prod.case set)
    have dir: "quiet (case d of None \<Rightarrow> stop Waits | Some r \<Rightarrow> lift r)" for d :: "string res option"
      by (auto split: option.split intro!: quiet_rules)
    show ?thesis
      unfolding start_up_def parse_main_option_def
      by (cases "main_args prog ws", simp only: prod.case)
         (rule triple_quiet_step [OF dir calm], assumption, rule triple_quiet_step [OF quiet_parser calm], assumption, rule rest)
  qed
  from triple_apply [OF this, of s "w_files (world s)" "fst (start_up os prog ws s)" "snd (start_up os prog ws s)"]
  show ?thesis by (auto simp: settled_def split: res.splits)
qed

lemma main_stays:
  assumes "edits_only os" "''makekey'' \<notin> set ws" "main os prog ws s = (r, s')"
  shows "within (own_files (settled os prog ws s)) (w_files (world s)) s'"
proof -
  obtain r1 s1 where s1: "start_up os prog ws s = (r1, s1)" by fastforce
  then have w: "within (own_files (settled os prog ws s)) (w_files (world s)) s1"
    using settled_files [of os prog ws s] by (simp add: within_def settled_def)
  show ?thesis
  proof (cases r1)
    case (Ok x)
    obtain argc argv pfx where x: "x = (argc, argv, pfx)" by (cases x) auto
    have "cmd \<noteq> ''makekey''" if "argv = Some cmd # rest" for cmd rest
      using start_up_words [of os prog ws s argc cmd rest pfx s1] s1 Ok x that assms(2) by auto
    then have "stays P F (dispatch os argc argv pfx)" for P F
      using stay_dispatch [OF assms(1)] by blast
    moreover have d: "dispatch os argc argv pfx s1 = (r, s')"
      using assms(3) s1 Ok x by (simp add: main_def andthen_def)
    ultimately show ?thesis
      using triple_apply [of "within (own_files (settled os prog ws s)) (w_files (world s))"
          "dispatch os argc argv pfx" _ _ s1 r s'] w unfolding stays_triple by (cases r) fastforce+
  qed (use assms(3) s1 w in \<open>simp add: main_def andthen_def\<close>)
qed

lemma within_cleanups: "within P F s \<Longrightarrow> p \<notin> P \<Longrightarrow> w_files (fold (cleanup_effect os) cs (world s)) p = F p"
proof (induction cs arbitrary: s)
  case (Cons c cs)
  let ?s = "s\<lparr>world := cleanup_effect os c (world s)\<rparr>"
  have "own_files (cleanup_effect os c (world s)) = own_files (world s)" by (simp add: own_files_iff)
  moreover have "q \<notin> P \<Longrightarrow> w_files (cleanup_effect os c (world s)) q = w_files (world s) q" for q
    using Cons.prems(1) by (auto simp: cleanup_effect_path within_def own_files_iff unlink_file_def split: option.split)
  ultimately have "within P F ?s" using Cons.prems(1) by (auto simp: within_def)
  from Cons.IH [OF this Cons.prems(2)] show ?case by simp
qed (simp add: within_def)


text \<open>A run of pk init in a directory with another file.\<close>

lemma sample_dir: "get_working_dir_routine (os_getcwd (sample_os sql)) None False = Some (Ok ''/'')"
  by (simp add: sample_os_def get_working_dir_routine_def fixed_growth_exact size_bounds getcwd_loop.simps xmalloc_def)

lemma sample_variables:
  "init_enval (sample_os sql) enval_cells w = w\<lparr>w_cred_db := ''.pk-cred-db'', w_cred_cc := Some ''.pk-cred-cc'',
     w_tmp_rec := ''.pk-tmp-rec'', w_editor := None, w_spinner := MarkPtr\<rparr>"
  by (simp add: init_enval_def env_default_def enval_cells_def str_var_def ptr_text_def choose_editor_def is_dumb_term_def
      sample_os_def)


end
