(* ===== verification/Sessions.thy ===== *)
theory Sessions
  imports Own_Files
begin

text \<open>
  The commands as wholes, put together from the facts about their parts: what a successful
  pk create has sent to sqlite3, from the record it was given to the close of the database;
  that the key typed in for pk init and again for pk create reaches sqlite3 as the same key;
  and that the rows that pk create inserts fit the tables that pk init creates.
\<close>

section \<open>The record that is inserted\<close>

lemma read_record_complete: "read_record_file content = Ok (RecordRead rec) \<Longrightarrow> \<not> is_incomplete_record rec"
  by (auto simp: read_record_file_def bind_res_eq_Ok split: if_splits)

lemma read_edited_complete: "triple (\<lambda>_. True) (read_edited os path) (\<lambda>rec _. \<not> is_incomplete_record rec) always"
proof -
  have "triple (\<lambda>_. True) (andthen (lift (read_record_file content)) (\<lambda>outcome. case outcome of
       RecordRead rec \<Rightarrow> ret rec
     | Cancelled \<Rightarrow> andthen (print_to To_stdout CANCELLED_MESSAGE) (\<lambda>_. stop (Exit EXIT_FAILURE))
     | MissingField s \<Rightarrow>
         andthen (say_error None (s @ '' missing in the required fields'')) (\<lambda>_. stop (Exit EXIT_FAILURE))))
     (\<lambda>rec _. \<not> is_incomplete_record rec) always" for content
  proof (rule triple_andthen [OF triple_lift [where Q = "\<lambda>x _. read_record_file content = Ok x"]])
    fix x
    have halts: "triple P (andthen m (\<lambda>_. stop h)) Q always" for P :: "pk \<Rightarrow> bool" and m :: "'x act" and h and Q :: "cred_record \<Rightarrow> pk \<Rightarrow> bool"
      by (rule triple_andthen [where R = "\<lambda>_ _. True"]) (auto simp: triple_def stop_def split: prod.split res.split)
    show "triple (\<lambda>_. read_record_file content = Ok x) (case x of RecordRead rec \<Rightarrow> ret rec
       | Cancelled \<Rightarrow> andthen (print_to To_stdout CANCELLED_MESSAGE) (\<lambda>_. stop (Exit EXIT_FAILURE))
       | MissingField s \<Rightarrow> andthen (say_error None (s @ '' missing in the required fields'')) (\<lambda>_. stop (Exit EXIT_FAILURE)))
       (\<lambda>rec _. \<not> is_incomplete_record rec) always"
      by (cases x) (auto intro!: triple_ret halts dest: read_record_complete)
  qed simp_all
  then show ?thesis
    unfolding read_edited_def
    by (rule triple_andthen [where R = "\<lambda>_ _. True", rotated]) (auto simp: triple_def split: prod.split res.split)
qed

lemma edited_logged:
  "triple (logged db L []) (edit_record os rec) (\<lambda>rec s. \<not> is_incomplete_record rec \<and> logged db L [Rm_tmp_rec] s) always"
proof -
  let ?L = "logged db L [Rm_tmp_rec]"
  have push: "triple (logged db L []) (push_cleanup Rm_tmp_rec) (\<lambda>_. ?L) always"
    by (rule triple_push) (simp add: logged_def atexit_chain_push_def)
  have fill: "triple ?L (populate_record_file os p rec) (\<lambda>_. ?L) always" for p
    unfolding populate_record_file_def
    by (auto intro!: triple_quiet_step [OF _ calm_logged] triple_populate quiet_rules simp: logged_def set_file_def split: prod.split)
  have edit: "triple ?L (edit_file os p) (\<lambda>_. ?L) always" for p
    by (rule triple_post [OF edit_file_keeps]) (simp_all add: logged_def calm_logged [unfolded logged_def])
  have read: "triple ?L (read_edited os p) (\<lambda>rec s. \<not> is_incomplete_record rec \<and> ?L s) always" for p
    using triple_conj [OF read_edited_complete logged_quiet [OF quiet_read_edited]] by (rule triple_pre) simp
  show ?thesis
    unfolding edit_record_def
    by (intro triple_andthen [OF push] triple_get_any triple_andthen [OF fill] triple_andthen [OF edit]
        triple_andthen [OF logged_quiet] quiet_rules read)
qed

section \<open>Unlocking\<close>

text \<open>The calls that unlock a database: the key and the text of the settings, if there is a key.\<close>

fun unlock_calls :: "(string \<times> string option) option \<Rightarrow> sql_call list" where
  "unlock_calls None = []"
| "unlock_calls (Some (k, pragma)) = Sql_key k # (case pragma of None \<Rightarrow> [] | Some p \<Rightarrow> [Sql_exec p])"

text \<open>
  The outcome of unlocking when \<open>given\<close> is the key that was typed in: an error, or the calls
  with that key; without one, the key is the stored one or there is none.
\<close>

definition unlocking :: "string \<Rightarrow> sql_call list \<Rightarrow> cleanup list \<Rightarrow> string option \<Rightarrow> int option \<Rightarrow> pk \<Rightarrow> bool" where
  "unlocking db L cs given early s \<longleftrightarrow> early = Some (-1) \<or>
     early = None \<and> (\<exists>key. logged db (L @ unlock_calls key) cs s \<and> (\<forall>k. given = Some k \<longrightarrow> (\<exists>p. key = Some (k, p))))"

definition unlock_with :: "os \<Rightarrow> int \<Rightarrow> string option \<Rightarrow> size_t \<times> string option \<Rightarrow> int option act" where
  "unlock_with os ask cc_path = (\<lambda>(len, key).
     if ask \<noteq> 0 \<and> len = 0
     then andthen (say_error None ''Empty keys are illegal.'') (\<lambda>rc. ret (Some rc))
     else
       let ck = (case key of None \<Rightarrow> CK_INIT | Some k \<Rightarrow> CK_INIT\<lparr>ck_buf := KeyBuf (bytes_of (k @ [NUL])), ck_len := len\<rparr>)
       in case cc_path of
            None \<Rightarrow> apply_key os (the key) (CC_INIT, ck)
          | Some path \<Rightarrow>
              andthen (load_cipher_config os path ck) (\<lambda>(cc, ck).
                case key of
                  Some k \<Rightarrow> apply_key os k (cc, ck)
                | None \<Rightarrow>
                    if ck_buf ck = KeyNull
                    then andthen (say_warning (''cipher config file at '' @ squote path @ '' affects nothing without a key.'')) (\<lambda>_.
                         andthen (lift (free_cipher_config (cc, ck))) (\<lambda>_. ret None))
                    else andthen (lift (stored_key_text ck)) (\<lambda>(k, ck). apply_key os k (cc, ck))))"

lemma unlock_parts:
  "unlock_database os ask =
     andthen (locate_cipher_config os) (\<lambda>cc_path. if cc_path = None \<and> ask = 0 then ret None
       else andthen (if ask \<noteq> 0 then ask_key DECRYPT_PROMPT else ret (0, None)) (unlock_with os ask cc_path))"
  unfolding unlock_database_def unlock_with_def ..

lemma unlock_with_logged: "triple (logged db L cs) (unlock_with os ask path (len, given)) (unlocking db L cs given) always"
proof -
  let ?P = "logged db L cs" and ?U = "unlocking db L cs given"
  have calm: "calm (\<lambda>s. \<exists>pragma. logged db (L @ [Sql_key k] @ (case pragma of None \<Rightarrow> [] | Some p \<Rightarrow> [Sql_exec p])) cs s)" for k
    using calm_logged [of db _ cs] unfolding calm_def by blast
  have apply_: "triple ?P (apply_key os k c) ?U always" if k: "given = None \<or> given = Some k" for k c
    unfolding apply_key_def case_prod_beta
  proof (rule triple_andthen [OF logged_apply], rule triple_quiet_step [OF quiet_basic(3) calm], rule TrueI, rule triple_ret)
    fix s assume "\<exists>pragma. logged db (L @ [Sql_key k] @ (case pragma of None \<Rightarrow> [] | Some p \<Rightarrow> [Sql_exec p])) cs s"
    then obtain pragma where "logged db (L @ [Sql_key k] @ (case pragma of None \<Rightarrow> [] | Some p \<Rightarrow> [Sql_exec p])) cs s" ..
    then show "?U None s" using k unfolding unlocking_def by (intro disjI2 conjI exI [of _ "Some (k, pragma)"]) auto
  qed
  have empty: "triple ?P (andthen (say_error None t) (\<lambda>rc. ret (Some rc))) ?U always" for t
    by (rule triple_andthen [OF triple_say_error [where P = ?P]]) (auto intro: triple_ret simp: unlocking_def)
  have load: "triple ?P (load_cipher_config os path k) (\<lambda>_. ?P) always" for path k
    by (rule logged_quiet) (rule quiet_rules)
  have none: "?U None s" if "?P s" "given = None" for s
    using that unfolding unlocking_def by (intro disjI2 conjI exI [of _ None]) simp_all
  have without: "triple ?P (if ck_buf ck = KeyNull
        then andthen (say_warning t) (\<lambda>_. andthen (lift (free_cipher_config c)) (\<lambda>_. ret None))
        else andthen (lift (stored_key_text ck)) (\<lambda>(k, ck). apply_key os k (cc, ck))) ?U always"
    if "given = None" for ck t c cc
    unfolding case_prod_beta
    by (intro triple_if triple_andthen [OF logged_quiet] quiet_rules apply_) (auto intro: triple_ret none that)
  show ?thesis
    unfolding unlock_with_def prod.case Let_def
  proof (intro triple_if triple_option triple_andthen [OF load] empty apply_)
    fix p x
    show "triple ?P (case x of (cc, ck) \<Rightarrow> (case given of
           Some k \<Rightarrow> apply_key os k (cc, ck)
         | None \<Rightarrow> if ck_buf ck = KeyNull
             then andthen (say_warning (''cipher config file at '' @ squote p @ '' affects nothing without a key.'')) (\<lambda>_.
                  andthen (lift (free_cipher_config (cc, ck))) (\<lambda>_. ret None))
             else andthen (lift (stored_key_text ck)) (\<lambda>(k, ck). apply_key os k (cc, ck)))) ?U always"
      unfolding case_prod_beta [of _ x] by (intro triple_option without apply_) simp_all
  qed (cases given; auto)+
qed

text \<open>What is typed in is the first line that is not empty.\<close>

lemma ask_key_run:
  assumes "ask_key msg s = (Ok (len, key), s')"
  shows "\<exists>evs. read_key_loop (w_input (world s)) = Ok (key, evs) \<and> w_input (world s') = evs
    \<and> len = (case key of None \<Rightarrow> 0 | Some k \<Rightarrow> length k)"
  using assms by (auto simp: ask_key_def read_cmdkey_def Let_def bind_res_eq_Ok split: prod.splits res.splits)

lemma read_key_nonempty: "read_key_loop evs = Ok (Some k, evs') \<Longrightarrow> k \<noteq> []"
  by (induction evs rule: read_key_loop.induct) (auto split: if_splits)

definition same_input :: "'a act \<Rightarrow> bool" where
  "same_input m \<longleftrightarrow> (\<forall>s. w_input (world (snd (m s))) = w_input (world s))"

lemma same_input_run: "m s = (r, s') \<Longrightarrow> same_input m \<Longrightarrow> w_input (world s') = w_input (world s)"
  unfolding same_input_def by (metis snd_conv)

named_theorems input_rules \<open>actions that read no key\<close>

lemma same_input_andthen [input_rules]: "same_input m \<Longrightarrow> (\<And>x. same_input (f x)) \<Longrightarrow> same_input (andthen m f)"
  by (auto simp: same_input_def andthen_def split: prod.split res.split) (metis snd_conv)+

lemma same_input_basic [input_rules]:
  "same_input (ret x)" "same_input (stop h)" "same_input (lift r)" "same_input (get g)" "same_input (print_to st t)"
  "(\<And>w. w_input (f w) = w_input w) \<Longrightarrow> same_input (change f)"
  by (simp_all add: same_input_def ret_def stop_def lift_def get_def print_to_def change_def)

lemma same_input_if [input_rules]: "same_input m \<Longrightarrow> same_input n \<Longrightarrow> same_input (if b then m else n)"
  by simp

lemma same_input_option [input_rules]: "same_input m \<Longrightarrow> (\<And>y. same_input (f y)) \<Longrightarrow> same_input (case x of None \<Rightarrow> m | Some y \<Rightarrow> f y)"
  by (cases x) simp_all

lemma same_input_errors [input_rules]: "same_input (say_error d t)" "same_input (exit_error d t)"
  by (auto simp: say_error_def exit_error_def split: prod.split intro!: input_rules)

lemma same_input_xsql [input_rules]: "same_input (xsql os fn call)"
  by (auto simp: xsql_def sql_raw_def sql_finish_def split: prod.split intro!: input_rules)

lemma same_input_locate [input_rules]: "same_input (locate_cipher_config os)"
  by (auto simp: locate_cipher_config_def split: prod.split intro!: input_rules)

lemma same_input_avail [input_rules]: "same_input (avail_file_path_or_die os ty p force)"
  by (auto simp: avail_file_path_or_die_def avail_dir_of_def intro!: input_rules)

lemma unlock_outcome:
  assumes "unlock_database os ask s = (Ok early, s')" "logged db L cs s"
  shows "\<exists>given. unlocking db L cs given early s' \<and> (ask \<noteq> 0 \<longrightarrow> early = None \<longrightarrow> given \<noteq> None)
    \<and> (\<forall>k evs. ask \<noteq> 0 \<longrightarrow> read_key_loop (w_input (world s)) = Ok (Some k, evs) \<longrightarrow> given = Some k)"
proof -
  let ?P = "logged db L cs"
  have locate: "triple ?P (locate_cipher_config os) (\<lambda>_. ?P) always"
    unfolding locate_cipher_config_def
    by (auto intro!: triple_get_any triple_option triple_if triple_change_step [where R = ?P] triple_stop triple_exit_error
        triple_ret simp: logged_def split: prod.split)
  obtain path s1 where s1: "locate_cipher_config os s = (Ok path, s1)"
    and rest: "(if path = None \<and> ask = 0 then ret None
       else andthen (if ask \<noteq> 0 then ask_key DECRYPT_PROMPT else ret (0, None)) (unlock_with os ask path)) s1 = (Ok early, s')"
    using assms(1) by (auto simp: unlock_parts andthen_def split: prod.splits res.splits)
  have P: "?P s1" "w_input (world s1) = w_input (world s)"
    using triple_apply [OF locate assms(2) s1] same_input_run [OF s1 same_input_locate] by simp_all
  show ?thesis
  proof (cases "path = None \<and> ask = 0")
    case True
    then show ?thesis using rest P(1) by (intro exI [of _ None]) (auto simp: unlocking_def ret_def intro!: exI [of _ None])
  next
    case False
    then obtain len given s2 where s2: "(if ask \<noteq> 0 then ask_key DECRYPT_PROMPT else ret (0, None)) s1 = (Ok (len, given), s2)"
      and u: "unlock_with os ask path (len, given) s2 = (Ok early, s')"
      using rest by (auto simp: andthen_def split: prod.splits res.splits)
    have "quiet (if ask \<noteq> 0 then ask_key DECRYPT_PROMPT else ret (0, None))" by (intro quiet_rules)
    then have "?P s2"
      using quiet_run [of "if ask \<noteq> 0 then ask_key DECRYPT_PROMPT else ret (0, None)" s1 _ s2 ?P] s2 P(1) by simp
    from triple_apply [OF unlock_with_logged this u] have "unlocking db L cs given early s'" by simp
    moreover have "given \<noteq> None" if "ask \<noteq> 0" "early = None"
    proof
      assume "given = None"
      then have "len = 0" using ask_key_run [of DECRYPT_PROMPT s1 len given s2] s2 that(1) by auto
      then have "andthen (say_error None ''Empty keys are illegal.'') (\<lambda>rc. ret (Some rc)) s2 = (Ok None, s')"
        using u that by (simp add: unlock_with_def)
      then show False by (auto simp: andthen_def ret_def split: prod.splits res.splits)
    qed
    ultimately show ?thesis
      using ask_key_run [of DECRYPT_PROMPT s1 len given s2] s2 P(2) by (intro exI [of _ given]) auto
  qed
qed

section \<open>Inserting\<close>

text \<open>The insertion writes to no file but the database.\<close>

definition only_db :: "string \<Rightarrow> (string \<rightharpoonup> string) \<Rightarrow> pk \<Rightarrow> bool" where
  "only_db db F s \<longleftrightarrow> w_cred_db (world s) = db \<and> (\<forall>p. p \<noteq> db \<longrightarrow> w_files (world s) p = F p)"

interpretation ins: covered_run UNIV "\<lambda>_. only_db db F" for db F
  by unfold_locales (auto simp: calm_def only_db_def talks_fields)

lemma insert_only_db: "triple (only_db db F) (insert_record os rec) (\<lambda>_. only_db db F) always"
proof -
  have chain: "ins.step_ok db F [] (push_cleanup c)" "ins.step_ok db F [] pop_cleanup" for c
    unfolding ins.step_ok_def by (rule triple_push triple_pop; simp add: only_db_def)+
  have sql: "ins.step_ok db F [] (xsql os fn call)" "ins.step_ok db F [] (xsql_exec os sql)" "ins.step_ok db F [] (xsql_step os)"
      "ins.step_ok db F [] (xsql_bind os iv)" "ins.step_ok db F [] (sql_raw os call)" for fn call sql iv
    by (intro ins.step_sql; auto simp: only_db_def after_sql_def)+
  have read: "ins.step_ok db F [] (read_whole os path)" for path by (intro ins.step_quiet quiet_rules) simp
  have "ins.step_ok db F [] (insert_record os rec)"
    unfolding insert_record_def xsql_avail_def prepare_statement_def end_statement_def bind_security_def
    by (intro ins.step_andthen ins.step_if ins.step_option ins.step_acts ins.step_leaf chain sql read) simp_all
  then show ?thesis unfolding ins.step_ok_def by (rule triple_post) simp_all
qed

definition memo_content :: "(string \<rightharpoonup> string) \<Rightarrow> cred_record \<Rightarrow> string" where
  "memo_content files rec = (case memo rec of None \<Rightarrow> [] | Some p \<Rightarrow> (case files p of None \<Rightarrow> [] | Some c \<Rightarrow> c))"

lemma insert_outcome:
  assumes "insert_record os rec s = (Ok r, s')" "logged db L cs s" "memo rec \<noteq> Some db"
  shows "r = 0 \<and> logged db (L @ insert_calls (os_rowid os) rec (memo_content (w_files (world s')) rec)) cs s'"
proof -
  let ?c = "memo_content (w_files (world s)) rec"
  have "inserting db rec ?c L cs s"
    using assms(2,3) by (auto simp: inserting_def logged_def memo_file_def memo_content_def split: option.splits)
  from triple_apply [OF insert_sends this assms(1)]
  have r: "r = 0" "logged db (L @ insert_calls (os_rowid os) rec ?c) cs s'" by (simp_all add: inserting_def)
  have "only_db db (w_files (world s)) s" using assms(2) by (simp add: only_db_def logged_def)
  from triple_apply [OF insert_only_db this assms(1)]
  have "only_db db (w_files (world s)) s'" by simp
  then have "memo_content (w_files (world s')) rec = ?c"
    using assms(3) by (auto simp: memo_content_def only_db_def split: option.split)
  then show ?thesis using r by simp
qed

lemma create_outcome:
  assumes "create_body os ue ask rec s = (Ok 0, s')" "atexit_func s = []"
  shows "\<exists>new key. \<not> is_incomplete_record new \<and> (setup_editor ue rec = Some False \<longrightarrow> new = rec) \<and> (ask \<noteq> 0 \<longrightarrow> key \<noteq> None)
    \<and> (\<forall>k evs. ask \<noteq> 0 \<longrightarrow> setup_editor ue rec = Some False \<longrightarrow> read_key_loop (w_input (world s)) = Ok (Some k, evs)
          \<longrightarrow> (\<exists>p. key = Some (k, p)))
    \<and> (memo new \<noteq> Some (w_cred_db (world s)) \<longrightarrow>
         w_sql (world s') = w_sql (world s) @ Sql_open (w_cred_db (world s)) # unlock_calls key
           @ insert_calls (os_rowid os) new (memo_content (w_files (world s')) new)
         \<and> atexit_func s' = (if setup_editor ue rec = Some True then [Rm_tmp_rec] else []))"
proof -
  let ?db = "w_cred_db (world s)" and ?L = "w_sql (world s)"
  have start: "logged ?db ?L [] s" using assms(2) by (simp add: logged_def)
  obtain edit where edit: "setup_editor ue rec = Some edit"
    using assms(1) by (cases "setup_editor ue rec") (auto simp: create_body_def say_error_def error_routine_def andthen_def
        lift_def print_to_def change_def ret_def bind_res_eq_Ok split: res.splits prod.splits)
  let ?cs = "if edit then [Rm_tmp_rec] else []"
  obtain new s1 where new: "(if edit then edit_record os rec else ret rec) s = (Ok new, s1)"
    and rest: "andthen (get w_cred_db) (\<lambda>db. andthen (xsql os Sqlite_open_v2 (Sql_open db)) (\<lambda>_.
        andthen (unlock_database os ask) (\<lambda>early. case early of Some rc \<Rightarrow> ret rc | None \<Rightarrow> insert_record os new))) s1 = (Ok 0, s')"
    using assms(1) by (auto simp: create_body_def edit andthen_def split: prod.splits res.splits)
  have s1: "\<not> is_incomplete_record new" "logged ?db ?L ?cs s1" "\<not> edit \<Longrightarrow> new = rec \<and> s1 = s"
    using new triple_apply [OF edited_logged start, of os rec "Ok new" s1] start edit
    by (auto simp: ret_def setup_editor_def split: if_splits)
  then have db: "w_cred_db (world s1) = ?db" by (simp add: logged_def)
  obtain s2 where open_: "xsql os Sqlite_open_v2 (Sql_open ?db) s1 = (Ok (), s2)"
    and rest: "andthen (unlock_database os ask) (\<lambda>early. case early of Some rc \<Rightarrow> ret rc | None \<Rightarrow> insert_record os new) s2 = (Ok 0, s')"
    using rest db by (auto simp: andthen_def get_def split: prod.splits res.splits)
  obtain early s3 where unlock: "unlock_database os ask s2 = (Ok early, s3)"
    and rest: "(case early of Some rc \<Rightarrow> ret rc | None \<Rightarrow> insert_record os new) s3 = (Ok 0, s')"
    using rest by (auto simp: andthen_def split: prod.splits res.splits)
  have "logged ?db (?L @ [Sql_open ?db]) ?cs s2" using triple_apply [OF logged_xsql s1(2) open_] by simp
  from unlock_outcome [OF unlock this] obtain given where given: "unlocking ?db (?L @ [Sql_open ?db]) ?cs given early s3"
      "ask \<noteq> 0 \<Longrightarrow> early = None \<Longrightarrow> given \<noteq> None"
      "\<And>k evs. ask \<noteq> 0 \<Longrightarrow> read_key_loop (w_input (world s2)) = Ok (Some k, evs) \<Longrightarrow> given = Some k"
    by blast
  then obtain key where key: "early = None" "logged ?db ((?L @ [Sql_open ?db]) @ unlock_calls key) ?cs s3"
      "\<forall>k. given = Some k \<longrightarrow> (\<exists>p. key = Some (k, p))"
    using rest by (auto simp: unlocking_def ret_def)
  have "memo new \<noteq> Some ?db \<Longrightarrow> logged ?db (((?L @ [Sql_open ?db]) @ unlock_calls key)
      @ insert_calls (os_rowid os) new (memo_content (w_files (world s')) new)) ?cs s'"
    using insert_outcome [OF _ key(2)] rest key(1) by simp
  moreover have "w_input (world s2) = w_input (world s1)" using same_input_run [of "xsql os Sqlite_open_v2 (Sql_open ?db)" s1 "Ok ()" s2] open_ by (simp add: input_rules)
  ultimately show ?thesis
    using s1(1,3) key(1,3) given(2,3) edit by (intro exI [of _ new] exI [of _ key]) (auto simp: logged_def)
qed

text \<open>
  C4. A run of pk create that returns 0 has made exactly these calls of sqlite3: it opened the
  database, gave it the key and the settings (a key always if one was asked for), then inserted
  one record with the calls of insert_calls and closed the database.  The record has a site name
  and a password; it is the one from the options unless the editor was used, and only then the
  record file is left to the cleanup functions.
\<close>

theorem create_success:
  assumes "create_body os ue ask rec s = (Ok 0, s')" "atexit_func s = []"
  shows "\<exists>new key. \<not> is_incomplete_record new \<and> (setup_editor ue rec = Some False \<longrightarrow> new = rec) \<and> (ask \<noteq> 0 \<longrightarrow> key \<noteq> None)
    \<and> (memo new \<noteq> Some (w_cred_db (world s)) \<longrightarrow>
         w_sql (world s') = w_sql (world s) @ Sql_open (w_cred_db (world s)) # unlock_calls key
           @ insert_calls (os_rowid os) new (memo_content (w_files (world s')) new)
         \<and> atexit_func s' = (if setup_editor ue rec = Some True then [Rm_tmp_rec] else []))"
  using create_outcome [OF assms] by blast

text \<open>A record given by options, for a database without a key and for one with the key pw.\<close>

definition sample_record :: cred_record where
  "sample_record = INIT_RECORD\<lparr>sitename := Some ''site'', password := Some ''pw'', rec_comment := Some ''x''\<rparr>"

abbreviation sample_system :: os where
  "sample_system \<equiv> sample_os (\<lambda>_ call. (if call = Sql_step then SQLITE_DONE else SQLITE_OK, Some ''data''))"

definition typed_pk :: "input_event list \<Rightarrow> pk" where
  "typed_pk evs = sample_pk\<lparr>world := (world sample_pk)\<lparr>w_input := evs\<rparr>\<rparr>"

lemma sample_insert: "\<exists>s'. insert_record sample_system sample_record s = (Ok 0, s')"
  by (simp add: insert_record_def xsql_avail_def prepare_statement_def end_statement_def act_simps xsql_run xsql_exec_run
      xsql_step_run xsql_bind_run sql_raw_run is_need_transaction_def have_security_group_def have_misc_group_def
      sample_record_def INIT_RECORD_def bind_record_basic_column_def bind_record_misc_column_def print_run ret_def)

lemma sample_editor: "setup_editor (-1) sample_record = Some False" "memo sample_record = None"
  by (simp_all add: setup_editor_def sample_record_def is_incomplete_record_def is_blank_str_def is_empty_str_def c_isspace_def
      INIT_RECORD_def)

lemma free_typed: "free_cipher_config (CC_INIT, CK_INIT\<lparr>ck_buf := KeyBuf (bytes_of (k @ [NUL])), ck_len := length k\<rparr>) = Ok ()"
  by (simp add: free_cipher_config_def free_alg_def CC_INIT_def CK_INIT_def bytes_of_def)

lemma sample_create:
  assumes "ask = 0 \<or> (\<exists>k es. read_key_loop evs = Ok (Some k, es))"
  shows "\<exists>s'. create_body sample_system (-1) ask sample_record (typed_pk evs) = (Ok 0, s')"
proof (cases "ask = 0")
  case True
  then show ?thesis
    using sample_insert
    by (simp add: create_body_def sample_editor act_simps xsql_run unlock_database_def locate_cipher_config_def
        find_cipher_config_def typed_pk_def sample_pk_def)
next
  case False
  then obtain k es where k: "read_key_loop evs = Ok (Some k, es)" using assms by blast
  then show ?thesis
    using False sample_insert read_key_nonempty [OF k]
    by (simp add: create_body_def sample_editor act_simps xsql_run unlock_database_def locate_cipher_config_def
        find_cipher_config_def typed_pk_def sample_pk_def apply_key_def apply_cipher_def apply_default free_typed ask_key_def read_cmdkey_def Let_def
        termios_disable_echo_def termios_restore_config_def)
qed

theorem create_success_witness:
  "\<exists>s' key. create_body sample_system (-1) 0 sample_record sample_pk = (Ok 0, s')
     \<and> w_sql (world s') = Sql_open ''db'' # unlock_calls key @ insert_calls 1 sample_record []"
proof -
  have "typed_pk [] = sample_pk" by (simp add: typed_pk_def sample_pk_def)
  then obtain s' where s': "create_body sample_system (-1) 0 sample_record sample_pk = (Ok 0, s')"
    using sample_create [of 0 "[]"] by auto
  show ?thesis
    using create_success [OF s'] s' sample_editor by (auto simp: sample_pk_def memo_content_def)
qed

section \<open>One key for two commands\<close>

lemma ask_key_typed:
  assumes "read_key_loop (w_input (world s)) = Ok (Some k, evs)"
  shows "\<exists>s'. ask_key msg s = (Ok (length k, Some k), s') \<and> w_input (world s') = evs"
  using assms by (auto simp: ask_key_def read_cmdkey_def Let_def split: prod.split)

lemma request_typed:
  assumes "request_cmdkey n s = (Ok key, s')" "read_key_loop (w_input (world s)) = Ok (Some k, evs)"
    "read_key_loop evs = Ok (Some k, evs')"
  shows "key = k"
proof -
  obtain s1 where s1: "ask_key CMDKEY_PROMPT s = (Ok (length k, Some k), s1)" "w_input (world s1) = evs"
    using ask_key_typed [OF assms(2)] by blast
  let ?s1 = "s1\<lparr>world := (world s1)\<lparr>w_key := Some k\<rparr>\<rparr>"
  obtain s2 where "ask_key CONFIRM_PROMPT ?s1 = (Ok (length k, Some k), s2)"
    using ask_key_typed [of ?s1 k evs'] s1(2) assms(3) by auto
  then show ?thesis
    using assms(1) s1(1) read_key_nonempty [OF assms(2)]
    by (simp add: request_cmdkey.simps [of n s] andthen_def print_to_def change_def ret_def)
qed

lemma init_typed:
  assumes "init_body os cfg s = (Ok r, s')" "use_cmdkey cfg \<noteq> 0" "atexit_func s = []"
    "read_key_loop (w_input (world s)) = Ok (Some k, evs)" "read_key_loop evs = Ok (Some k, evs')"
  shows "\<exists>p. w_sql (world s') = w_sql (world s) @ init_calls (w_cred_db (world s)) (Some (k, p))"
proof -
  let ?db = "w_cred_db (world s)" and ?L = "w_sql (world s)"
  have start: "logged ?db ?L [] s" using assms(3) by (simp add: logged_def)
  let ?avail = "avail_file_path_or_die os ''database'' ?db (force_create cfg \<noteq> 0)"
  obtain s1 where avail: "?avail s = (Ok (), s1)" and rest: "init_encrypted os cfg s1 = (Ok r, s')"
    using assms(1,2) by (auto simp: init_body_def andthen_def get_def split: prod.splits res.splits)
  have s1: "logged ?db ?L [] s1" "w_input (world s1) = w_input (world s)"
    using triple_apply [OF logged_avail start avail] same_input_run [of ?avail s "Ok ()" s1] avail by (simp_all add: input_rules)
  obtain key s2 where request: "request_cmdkey 0 s1 = (Ok key, s2)" and rest: "andthen (push_cleanup Destroy_key) (\<lambda>_.
     andthen (choose_settings (is_passphrase key) (remember_key cfg) (init_cc cfg)) (\<lambda>(use_cc, cc).
     andthen pop_cleanup (\<lambda>_.
     andthen (if \<not> use_cc then ret () else store_cipher_config os (is_passphrase key) cfg key cc) (\<lambda>_.
       setup_database os (Some key) cc)))) s2 = (Ok r, s')"
    using rest assms(2) unfolding init_encrypted_def andthen_def [of "if use_cmdkey cfg \<noteq> 0 then request_cmdkey 0 else random_key os"]
    by (auto split: prod.splits res.splits)
  have "logged ?db ?L [] s2"
    using triple_apply [OF logged_key_source s1(1), of cfg os "Ok key" s2] request assms(2) by simp
  from triple_apply [OF logged_keyed this rest] show ?thesis
    using request_typed [OF request] s1(2) assms(4,5) by (auto simp: logged_def)
qed

text \<open>
  C5. The key that opens a database is the one that was set: if the same line is typed twice
  for pk init --cmdkey and again for pk create --cmdkey with a complete record, and both
  commands succeed, then the first two calls of sqlite3 are the same in both, the opening of the
  database and that key, whatever the other settings, the configuration file and the answers
  of the system are.
\<close>

theorem same_key_reopens:
  assumes "init_body os cfg s = (Ok r, s')" "use_cmdkey cfg \<noteq> 0" "atexit_func s = []" "w_sql (world s) = []"
    "read_key_loop (w_input (world s)) = Ok (Some k, evs)" "read_key_loop evs = Ok (Some k, evs')"
    "create_body os2 ue ask rec t = (Ok 0, t')" "ask \<noteq> 0" "setup_editor ue rec = Some False" "atexit_func t = []" "w_sql (world t) = []"
    "read_key_loop (w_input (world t)) = Ok (Some k, evs2)" "memo rec \<noteq> Some (w_cred_db (world t))"
    "w_cred_db (world t) = w_cred_db (world s)"
  shows "take 2 (w_sql (world s')) = [Sql_open (w_cred_db (world s)), Sql_key k]
    \<and> take 2 (w_sql (world t')) = take 2 (w_sql (world s'))"
proof -
  obtain p where "w_sql (world s') = init_calls (w_cred_db (world s)) (Some (k, p))"
    using init_typed [OF assms(1-3,5,6)] assms(4) by auto
  moreover obtain q rest where "w_sql (world t') = Sql_open (w_cred_db (world t)) # Sql_key k # rest"
    using create_outcome [OF assms(7,10)] assms(8,9,11,12,13) by fastforce
  ultimately show ?thesis using assms(14) by simp
qed

text \<open>The line pw is typed for both commands.\<close>

lemma sample_init:
  "\<exists>s'. init_body sample_system \<lparr>use_encryption = 0, use_cmdkey = 1, remember_key = -1, force_create = 0, init_cc = CC_INIT\<rparr>
     (typed_pk [InLine (''pw'' @ [NL]), InLine (''pw'' @ [NL])]) = (Ok 0, s')" (is "\<exists>s'. init_body _ ?cfg ?s = _")
proof -
  have key: "read_key_loop (InLine (''pw'' @ [NL]) # evs) = Ok (Some ''pw'', evs)" for evs
    by (simp add: strip_newlines_def)
  have dir: "avail_file_dir (os_mkdir sample_system) (os_wx sample_system) ''db'' = 0"
    by (simp add: sample_os_def avail_file_dir_def avail_dir_def)
  have "is_passphrase ''pw''" by (simp add: is_passphrase_def is_blob_key_def BLOBKEY_LEN_def KEYSALT_LEN_def)
  moreover have "choose_settings True (-1) CC_INIT s = (Ok (False, CC_INIT), s)" for s
    by (simp add: choose_settings_def set_kdf_algorithm_def set_hmac_algorithm_def set_kdf_iter_def set_page_size_def
        set_compatibility_def act_simps ret_def CC_INIT_def is_cc_page_size_def is_cc_compatibility_def in_range_e_def
        in_range_i_def cprdef_defs is_pow2_def)
  moreover have "\<exists>s'. request_cmdkey 0 ?s = (Ok ''pw'', s') \<and> w_cred_db (world s') = ''db''"
    using key by (simp add: request_cmdkey.simps [of 0] ask_key_def read_cmdkey_def Let_def termios_disable_echo_def
        termios_restore_config_def typed_pk_def sample_pk_def act_simps strip_newlines_def print_run ret_def andthen_def)
  ultimately show ?thesis
    using avail_run [of ?s "''db''" sample_system, OF _ dir]
    by (auto simp: init_body_def init_encrypted_def setup_database_def apply_cipher_def act_simps ret_def
        apply_default xsql_run xsql_exec_run sql_raw_run typed_pk_def sample_pk_def)
qed

theorem same_key_reopens_witness:
  "let line = InLine (''pw'' @ [NL]);
       cfg = \<lparr>use_encryption = 0, use_cmdkey = 1, remember_key = -1, force_create = 0, init_cc = CC_INIT\<rparr>
   in \<exists>s' t'. init_body sample_system cfg (typed_pk [line, line]) = (Ok 0, s')
     \<and> create_body sample_system (-1) 1 sample_record (typed_pk [line]) = (Ok 0, t')
     \<and> take 2 (w_sql (world s')) = [Sql_open ''db'', Sql_key ''pw''] \<and> take 2 (w_sql (world t')) = take 2 (w_sql (world s'))"
proof -
  let ?line = "InLine (''pw'' @ [NL])"
  have key: "read_key_loop (?line # evs) = Ok (Some ''pw'', evs)" for evs
    by (simp add: strip_newlines_def)
  obtain s' where s': "init_body sample_system \<lparr>use_encryption = 0, use_cmdkey = 1, remember_key = -1, force_create = 0,
      init_cc = CC_INIT\<rparr> (typed_pk [?line, ?line]) = (Ok 0, s')"
    using sample_init by blast
  obtain t' where t': "create_body sample_system (-1) 1 sample_record (typed_pk [?line]) = (Ok 0, t')"
    using sample_create [of 1 "[?line]"] key by blast
  show ?thesis
    using same_key_reopens [OF s' _ _ _ _ _ t', of "''pw''"] key s' t' sample_editor
    by (auto simp: typed_pk_def sample_pk_def Let_def)
qed

section \<open>The rows\<close>

text \<open>
  The texts of the statements are read here: the table and the columns of an INSERT statement, and
  the tables with their columns that pk init creates, each with its NOT NULL mark.  sqlite3 numbers the named
  parameters of a statement from 1 in their order.
\<close>

definition until :: "char \<Rightarrow> string \<Rightarrow> string" where "until c s = takeWhile (\<lambda>x. x \<noteq> c) s"
definition behind :: "char \<Rightarrow> string \<Rightarrow> string" where "behind c s = tl (dropWhile (\<lambda>x. x \<noteq> c) s)"

definition insert_table :: "string \<Rightarrow> string" where
  "insert_table sql = until (CHR '' '') (drop (length ''INSERT INTO '') sql)"

definition insert_columns :: "string \<Rightarrow> string list" where
  "insert_columns sql = split_on (CHR '','') (until (CHR '')'') (behind (CHR ''('') sql))"

definition insert_params :: "string \<Rightarrow> string list" where
  "insert_params sql = split_on (CHR '','') (until (CHR '')'') (behind (CHR ''('') (behind (CHR ''('') sql)))"

definition insert_row :: "string \<Rightarrow> (nat \<times> sql_value) list \<Rightarrow> (string \<times> sql_value option) list" where
  "insert_row sql ivs = zip (insert_columns sql) (map (\<lambda>j. map_of ivs (j + 1)) [0..<length (insert_params sql)])"

definition created_table :: "string \<Rightarrow> string \<times> (string \<times> bool) list" where
  "created_table sql =
     (until (CHR '' '') (drop (length ''CREATE TABLE '') sql),
      map (\<lambda>col. (until (CHR '' '') col, drop (length col - length ''NOT NULL'') col = ''NOT NULL''))
        (split_on (CHR '','') (behind (CHR ''('') sql)))"

definition schema :: "(string \<times> (string \<times> bool) list) list" where
  "schema = map created_table (filter (\<lambda>sql. starts_with sql ''CREATE TABLE '') (split_on (CHR '';'') INIT_TABLE_SQLSTR))"

text \<open>The rows a record stands for; \<open>content\<close> is that of its memo file.\<close>

definition record_rows :: "int \<Rightarrow> cred_record \<Rightarrow> string \<Rightarrow> (string \<times> (string \<times> sql_value option) list) list" where
  "record_rows account_id rec content =
     (let text = (\<lambda>v. Some (bind_text_or_null v)) in
     (''account'', [(''sitename'', text (sitename rec)), (''siteurl'', text (siteurl rec)),
        (''username'', text (username rec)), (''password'', text (password rec))])
     # (if have_security_group rec
        then [(''account_security'', [(''account_id'', Some (SqlInt account_id)), (''guard'', text (guard rec)),
          (''recovery'', text (recovery rec)),
          (''memo'', Some (if memo rec = None \<or> content = [] then SqlNull else SqlBlob content))])] else [])
     @ (if have_misc_group rec
        then [(''account_misc'', [(''account_id'', Some (SqlInt account_id)), (''comment'', text (rec_comment rec))])] else []))"

definition fits :: "string \<times> (string \<times> sql_value option) list \<Rightarrow> bool" where
  "fits row \<longleftrightarrow> (case map_of schema (fst row) of
     None \<Rightarrow> False
   | Some cols \<Rightarrow>
       list_all (\<lambda>(c, v). case map_of cols c of None \<Rightarrow> False | Some nn \<Rightarrow> v \<noteq> None \<and> (nn \<longrightarrow> v \<noteq> Some SqlNull)) (snd row)
       \<and> list_all (\<lambda>(c, nn). nn \<longrightarrow> c \<in> fst ` set (snd row)) cols)"

lemma schema_tables:
  "schema =
     [(''account'', [(''id'', False), (''sitename'', True), (''alias'', False), (''siteurl'', False), (''username'', False),
        (''password'', True), (''sqltime'', False), ([], False), (''modtime'', False)]),
      (''account_security'', [(''account_id'', False), (''guard'', False), (''recovery'', False), (''memo'', False), (''FOREIGN'', False)]),
      (''account_misc'', [(''account_id'', False), (''comment'', False), (''FOREIGN'', False)])]"
  by code_simp

lemma insert_texts:
  "insert_table INSERT_COMMON_GROUP_SQLSTR = ''account''"
  "insert_columns INSERT_COMMON_GROUP_SQLSTR = [''sitename'', ''siteurl'', ''username'', ''password'']"
  "insert_params INSERT_COMMON_GROUP_SQLSTR = map ((#) (CHR '':'')) (insert_columns INSERT_COMMON_GROUP_SQLSTR)"
  "insert_table INSERT_SECURITY_GROUP_SQLSTR = ''account_security''"
  "insert_columns INSERT_SECURITY_GROUP_SQLSTR = [''account_id'', ''guard'', ''recovery'', ''memo'']"
  "insert_params INSERT_SECURITY_GROUP_SQLSTR = map ((#) (CHR '':'')) (insert_columns INSERT_SECURITY_GROUP_SQLSTR)"
  "insert_table INSERT_MISC_GROUP_SQLSTR = ''account_misc''"
  "insert_columns INSERT_MISC_GROUP_SQLSTR = [''account_id'', ''comment'']"
  "insert_params INSERT_MISC_GROUP_SQLSTR = map ((#) (CHR '':'')) (insert_columns INSERT_MISC_GROUP_SQLSTR)"
  by (simp_all add: insert_table_def insert_columns_def insert_params_def until_def behind_def
      INSERT_COMMON_GROUP_SQLSTR_def INSERT_SECURITY_GROUP_SQLSTR_def INSERT_MISC_GROUP_SQLSTR_def)

lemma complete_record: "\<not> is_incomplete_record rec \<Longrightarrow> sitename rec \<noteq> None \<and> password rec \<noteq> None"
  by (cases "sitename rec"; cases "password rec") (simp_all add: is_incomplete_record_def is_blank_str_None)

text \<open>
  C6. What pk create inserts is the record and fits the tables of pk init: read as columns and
  parameters, the statements give each column of a table the member of that name, the groups that
  the record does not have are left out, each table and column exists in the text with
  which pk init creates the database, and for a complete record each column that must not be NULL gets a value.
\<close>

theorem record_rows_fit:
  assumes "\<not> is_incomplete_record rec"
  shows "map (\<lambda>(sql, ivs). (insert_table sql, insert_row sql ivs)) (record_statements account_id rec content)
      = record_rows account_id rec content
    \<and> list_all fits (record_rows account_id rec content)"
proof
  have upt: "[0..<4] = [0, 1, 2, 3 :: nat]" "[0..<2] = [0, 1 :: nat]" by (simp_all add: upt_rec)
  show "map (\<lambda>(sql, ivs). (insert_table sql, insert_row sql ivs)) (record_statements account_id rec content)
      = record_rows account_id rec content"
    by (simp add: record_statements_def record_rows_def insert_row_def insert_texts upt bind_record_basic_column_def
        bind_record_security_column_def bind_record_misc_column_def Let_def split: option.split)
  show "list_all fits (record_rows account_id rec content)"
    using complete_record [OF assms]
    by (auto simp: record_rows_def fits_def schema_tables bind_text_or_null_def Let_def split: option.splits)
qed

theorem record_rows_fit_witness:
  "map (\<lambda>(sql, ivs). (insert_table sql, insert_row sql ivs)) (record_statements 1 sample_record [])
     = [(''account'', [(''sitename'', Some (SqlText ''site'')), (''siteurl'', Some SqlNull), (''username'', Some SqlNull),
           (''password'', Some (SqlText ''pw''))]),
        (''account_misc'', [(''account_id'', Some (SqlInt 1)), (''comment'', Some (SqlText ''x''))])]"
  using record_rows_fit [of sample_record 1 "[]"]
  by (simp add: record_rows_def sample_record_def INIT_RECORD_def is_incomplete_record_def is_blank_str_def is_empty_str_def
      c_isspace_def have_security_group_def have_misc_group_def bind_text_or_null_def Let_def)

end
