(* ===== verification/Win_Process.thy ===== *)
theory Win_Process
  imports Process "HOL-Library.Multiset"
begin

text \<open>
  The Win32 back end, \<^verbatim>\<open>src/src/compat/win\<close>: starting a program or a thread, killing it and
  waiting for it (\<^verbatim>\<open>pkproc.c\<close>), the wrappers that do not return on failure (\<^verbatim>\<open>wrapper.c\<close>), the
  reports (\<^verbatim>\<open>usage.c\<close>) and the echo of the console (\<^verbatim>\<open>security.c\<close>).  The state is the table of
  open handles of the process; the properties say which handles are left open.  What Windows answers is a
  parameter.
\<close>

unbundle bit_operations_syntax

section \<open>State and answers\<close>

type_synonym handle = nat

datatype process_type = PROC_EXITED | PROC_PROCESS | PROC_THREAD | Proc_other int

text \<open>
  \<open>nuldev_handle\<close> and the members of \<open>si\<close> and \<open>pi\<close> are 0 where they were not assigned.
\<close>

record process_info =
  pi_type :: process_type
  nuldev_handle :: handle
  thread_handle :: handle
  hProcess :: handle
  hThread :: handle
  hStdInput :: handle
  hStdOutput :: handle
  hStdError :: handle
  pi_program :: string
  fildes_flags :: uint

record win =
  open_handles :: "handle list"
  win_stderr :: string
  win_errno :: uint

text \<open>
  \<open>wo_message\<close> is what FormatMessage puts into the buffer, if anything; \<open>wo_process\<close> gets the
  command line; \<open>wo_wait\<close> is the answer of WaitForSingleObject.
\<close>

record win_os =
  wo_file :: "handle option"
  wo_process :: "string \<Rightarrow> (handle \<times> handle) option"
  wo_thread :: "handle option"
  wo_terminate :: "handle \<Rightarrow> uint \<Rightarrow> bool"
  wo_wait :: uint
  wo_duplicate :: "handle option"
  wo_std_handle :: bool
  wo_last_error :: uint
  wo_message :: "string option"

type_synonym 'a win_act = "win \<Rightarrow> 'a res \<times> win"

definition wret :: "'a \<Rightarrow> 'a win_act" where "wret x w = (Ok x, w)"
definition wlift :: "'a res \<Rightarrow> 'a win_act" where "wlift r w = (r, w)"
definition wchange :: "(win \<Rightarrow> win) \<Rightarrow> unit win_act" where "wchange f w = (Ok (), f w)"
definition wget :: "(win \<Rightarrow> 'a) \<Rightarrow> 'a win_act" where "wget f w = (Ok (f w), w)"

definition wthen :: "'a win_act \<Rightarrow> ('a \<Rightarrow> 'b win_act) \<Rightarrow> 'b win_act" where
  "wthen m f w = (case m w of (Ok x, w') \<Rightarrow> f x w' | (Halt h, w') \<Rightarrow> (Halt h, w'))"

definition open_handle :: "handle \<Rightarrow> unit win_act" where
  "open_handle h = wchange (\<lambda>w. w\<lparr>open_handles := h # open_handles w\<rparr>)"

definition CloseHandle :: "handle \<Rightarrow> unit win_act" where
  "CloseHandle h = wchange (\<lambda>w. w\<lparr>open_handles := remove1 h (open_handles w)\<rparr>)"

section \<open>Reports\<close>

text \<open>The buffer is \<open>None\<close> when FormatMessage has left it unwritten.\<close>

definition get_winerr_str :: "win_os \<Rightarrow> string option win_act" where
  "get_winerr_str os = wthen (wchange (\<lambda>w. w\<lparr>win_errno := wo_last_error os\<rparr>)) (\<lambda>_. wret (wo_message os))"

definition report_to_stderr :: "string res \<Rightarrow> unit win_act" where
  "report_to_stderr r = wthen (wlift r) (\<lambda>bytes. wchange (\<lambda>w. w\<lparr>win_stderr := win_stderr w @ bytes\<rparr>))"

definition warning_winerr :: "win_os \<Rightarrow> string \<Rightarrow> unit win_act" where
  "warning_winerr os txt =
     wthen (get_winerr_str os) (\<lambda>_.
     wthen (wget win_errno) (\<lambda>errnum.
     wthen (report_to_stderr (vreportf ''warn: '' (Some txt) None)) (\<lambda>_.
       wchange (\<lambda>w. w\<lparr>win_errno := errnum\<rparr>))))"

definition read_message :: "string option \<Rightarrow> string res" where
  "read_message buf = (case buf of None \<Rightarrow> Halt (Undef ''the buffer was never written'') | Some s \<Rightarrow> Ok s)"

definition error_winerr :: "win_os \<Rightarrow> string \<Rightarrow> int win_act" where
  "error_winerr os txt =
     wthen (get_winerr_str os) (\<lambda>buf.
     wthen (wget win_errno) (\<lambda>errnum.
     wthen (report_to_stderr (bind_res (read_message buf) (\<lambda>s. vreportf ''error: '' (Some txt) (Some s)))) (\<lambda>_.
     wthen (wchange (\<lambda>w. w\<lparr>win_errno := errnum\<rparr>)) (\<lambda>_. wret (-1)))))"

definition die_winerr :: "win_os \<Rightarrow> string \<Rightarrow> 'a win_act" where
  "die_winerr os txt =
     wthen (get_winerr_str os) (\<lambda>buf.
     wthen (report_to_stderr (bind_res (read_message buf) (\<lambda>s. vreportf ''fatal: '' (Some txt) (Some s)))) (\<lambda>_.
       wlift (Halt (Exit EXIT_FAILURE))))"

section \<open>Wrappers\<close>

definition CREATE_NEW :: uint where "CREATE_NEW = 1"
definition CREATE_ALWAYS :: uint where "CREATE_ALWAYS = 2"
definition OPEN_EXISTING :: uint where "OPEN_EXISTING = 3"

definition xCreateFile :: "win_os \<Rightarrow> string \<Rightarrow> uint \<Rightarrow> handle win_act" where
  "xCreateFile os name disposition =
     (case wo_file os of
        Some h \<Rightarrow> wthen (open_handle h) (\<lambda>_. wret h)
      | None \<Rightarrow>
          let is_creation = (disposition = CREATE_ALWAYS \<or> disposition = CREATE_NEW)
          in die_winerr os (''unable to '' @ (if is_creation then ''create'' else ''open'') @ '' '' @ name))"

text \<open>The handles in the two messages print as pointers; their text is an argument.\<close>

definition xDuplicateHandle :: "win_os \<Rightarrow> string \<Rightarrow> handle \<Rightarrow> handle win_act" where
  "xDuplicateHandle os txt source =
     (case wo_duplicate os of
        Some h \<Rightarrow> wthen (open_handle h) (\<lambda>_. wret h)
      | None \<Rightarrow> wthen (CloseHandle source) (\<lambda>_. die_winerr os txt))"

definition xSetStdHandle :: "win_os \<Rightarrow> string \<Rightarrow> handle \<Rightarrow> unit win_act" where
  "xSetStdHandle os txt h =
     (if wo_std_handle os then wret () else wthen (CloseHandle h) (\<lambda>_. die_winerr os txt))"

section \<open>Processes\<close>

text \<open>\<open>dev\<close> is the name of the null device.\<close>

definition redirect_members :: "handle \<Rightarrow> process_info \<Rightarrow> process_info" where
  "redirect_members nuldev ctx =
     (let ctx = (if fildes_flags ctx AND NO_STDIN \<noteq> 0 then ctx\<lparr>hStdInput := nuldev\<rparr> else ctx);
          ctx = (if fildes_flags ctx AND NO_STDOUT \<noteq> 0 then ctx\<lparr>hStdOutput := nuldev\<rparr> else ctx)
      in (if fildes_flags ctx AND NO_STDERR \<noteq> 0 then ctx\<lparr>hStdError := nuldev\<rparr> else ctx))"

definition win_redirect_stdio :: "win_os \<Rightarrow> string \<Rightarrow> process_info \<Rightarrow> process_info win_act" where
  "win_redirect_stdio os dev ctx =
     (if fildes_flags ctx \<noteq> 0
      then wthen (xCreateFile os dev OPEN_EXISTING) (\<lambda>h. wret (redirect_members h (ctx\<lparr>nuldev_handle := h\<rparr>)))
      else wret (redirect_members 0 ctx))"

definition close_nuldev :: "process_info \<Rightarrow> unit win_act" where
  "close_nuldev ctx = (if fildes_flags ctx \<noteq> 0 then CloseHandle (nuldev_handle ctx) else wret ())"

text \<open>The command line: the program in quotation marks and the arguments, separated by blanks.\<close>

definition command_line :: "string \<Rightarrow> string list \<Rightarrow> strbuf res" where
  "command_line arg0 args =
     bind_res (fold_res strbuf_printf STRBUF_INIT ((CHR 0x22 # arg0 @ [CHR 0x22, CHR '' '']) # map (\<lambda>a. a @ '' '') args))
       strbuf_trim_end"

text \<open>\<open>args\<close> are the variable arguments behind the name of the program, up to the NULL.\<close>

definition win_mkprocl :: "win_os \<Rightarrow> string \<Rightarrow> process_info \<Rightarrow> string \<Rightarrow> string list \<Rightarrow> (int \<times> process_info) win_act" where
  "win_mkprocl os dev ctx arg0 args =
     wthen (win_redirect_stdio os dev (ctx\<lparr>pi_type := PROC_PROCESS\<rparr>)) (\<lambda>ctx.
     wthen (wlift (bind_res (command_line arg0 args) (\<lambda>sb.
              bind_res (buf_read (sb_buf sb) 0 (sb_length sb + 1)) (\<lambda>bytes. Ok (cstr_of bytes))))) (\<lambda>cmd.
       case wo_process os cmd of
         Some (p, t) \<Rightarrow>
           wthen (open_handle p) (\<lambda>_. wthen (open_handle t) (\<lambda>_. wret (0, ctx\<lparr>hProcess := p, hThread := t\<rparr>)))
       | None \<Rightarrow>
           wthen (warning_winerr os (''failed to start the program '' @ squote (pi_program ctx))) (\<lambda>_.
           wthen (close_nuldev ctx) (\<lambda>_. wret (-1, ctx)))))"

definition win_mkprocf :: "win_os \<Rightarrow> string \<Rightarrow> process_info \<Rightarrow> (int \<times> process_info) win_act" where
  "win_mkprocf os dev ctx =
     wthen (win_redirect_stdio os dev (ctx\<lparr>pi_type := PROC_THREAD\<rparr>)) (\<lambda>ctx.
       case wo_thread os of
         Some h \<Rightarrow> wthen (open_handle h) (\<lambda>_. wret (0, ctx\<lparr>thread_handle := h\<rparr>))
       | None \<Rightarrow>
           wthen (warning_winerr os (''failed to start a new thread for program '' @ squote (pi_program ctx))) (\<lambda>_.
           wthen (close_nuldev ctx) (\<lambda>_. wret (-1, ctx\<lparr>thread_handle := 0\<rparr>))))"

definition kill_process :: "win_os \<Rightarrow> process_info \<Rightarrow> int \<Rightarrow> (int \<times> process_info) win_act" where
  "kill_process os ctx sig =
     wthen (close_nuldev ctx) (\<lambda>_.
     wthen (case pi_type ctx of
              PROC_PROCESS \<Rightarrow>
                if wo_terminate os (hProcess ctx) (word_of_int (sig + 128)) then wret 0
                else wthen (warning_winerr os (''failed to terminate the program '' @ squote (pi_program ctx))) (\<lambda>_. wret (-1))
            | PROC_THREAD \<Rightarrow>
                if wo_terminate os (thread_handle ctx) (word_of_int (sig + 128)) then wret 0
                else wthen (warning_winerr os (''failed to terminate the thread running '' @ squote (pi_program ctx))) (\<lambda>_. wret (-1))
            | PROC_EXITED \<Rightarrow> wlift (Halt (Bug ''ctx shall not be the type of exited''))
            | Proc_other t \<Rightarrow> wlift (Halt (Bug ''unknown proctype''))) (\<lambda>rescode.
       wret (rescode, ctx\<lparr>pi_type := PROC_EXITED\<rparr>)))"

definition WAIT_OBJECT_0 :: uint where "WAIT_OBJECT_0 = 0"
definition WAIT_ABANDONED :: uint where "WAIT_ABANDONED = 0x80"
definition WAIT_TIMEOUT :: uint where "WAIT_TIMEOUT = 0x102"
definition WAIT_FAILED :: uint where "WAIT_FAILED = 0xFFFFFFFF"

text \<open>An answer that is none of the four falls out of the switch.\<close>

definition win_finish_process :: "win_os \<Rightarrow> process_info \<Rightarrow> int win_act" where
  "win_finish_process os ctx =
     (if pi_type ctx = PROC_EXITED then wret 0
      else
        let close_all = wthen (close_nuldev ctx) (\<lambda>_. wthen (CloseHandle (hProcess ctx)) (\<lambda>_. CloseHandle (hThread ctx)));
            finish = (\<lambda>rescode errnum. wthen (wchange (\<lambda>w. w\<lparr>win_errno := errnum\<rparr>)) (\<lambda>_. wret (sint rescode)))
        in if wo_wait os = WAIT_FAILED
           then wthen (warning_winerr os (''failed to wait for '' @ pi_program ctx @ '' to terminate'')) (\<lambda>_.
                wthen (wget win_errno) (\<lambda>errnum.
                wthen close_all (\<lambda>_. finish (-1) errnum)))
           else if wo_wait os = WAIT_OBJECT_0 then wthen close_all (\<lambda>_. finish (wo_wait os) 0)
           else if wo_wait os = WAIT_ABANDONED \<or> wo_wait os = WAIT_TIMEOUT then wlift (Halt (Bug ''unexpected status''))
           else finish (wo_wait os) 0)"

section \<open>The console\<close>

text \<open>\<open>console\<close> is the mode of the console and what Windows answers to the three calls.\<close>

record console =
  console_mode :: uint
  std_handle :: "handle option"
  can_get_mode :: bool
  can_set_mode :: bool

definition ENABLE_ECHO_INPUT :: uint where "ENABLE_ECHO_INPUT = 4"

record win_termios =
  stdin_handle :: handle
  saved_mode :: uint

text \<open>The second component is \<^verbatim>\<open>*term0\<close>, the third the console after the call.\<close>

definition win_termios_disable_echo ::
    "win_os \<Rightarrow> win_termios \<Rightarrow> console \<Rightarrow> (int \<times> win_termios \<times> console) win_act" where
  "win_termios_disable_echo os term0 con =
     (case std_handle con of
        None \<Rightarrow> wthen (warning_winerr os ''Unable to get stdin handle'') (\<lambda>_. wret (-1, term0, con))
      | Some h \<Rightarrow>
          if \<not> can_get_mode con
          then wthen (warning_winerr os ''Unable to get console mode'') (\<lambda>_. wret (-1, term0, con))
          else
            let term0 = term0\<lparr>stdin_handle := h, saved_mode := console_mode con\<rparr>;
                mode = console_mode con AND NOT ENABLE_ECHO_INPUT
            in if \<not> can_set_mode con
               then wthen (warning_winerr os ''Unable to apply changes to console'') (\<lambda>_. wret (-1, term0, con))
               else wret (0, term0, con\<lparr>console_mode := mode\<rparr>))"

definition win_termios_restore_config :: "win_os \<Rightarrow> win_termios \<Rightarrow> console \<Rightarrow> (int \<times> console) win_act" where
  "win_termios_restore_config os term0 con =
     (if \<not> can_set_mode con
      then wthen (warning_winerr os ''Unable to restore changes to console'') (\<lambda>_. wret (-1, con))
      else wret (0, con\<lparr>console_mode := saved_mode term0\<rparr>))"

section \<open>Running the calls\<close>

named_theorems win_simps \<open>running the calls of the back end\<close>

lemma wthen_basic [win_simps]:
  "wthen (wret x) f w = f x w" "wthen (wlift (Ok x)) f w = f x w" "wthen (wlift (Halt h)) f w = (Halt h, w)"
  "wthen (wget k) f' w = f' (k w) w" "wthen (wchange g) f'' w = f'' () (g w)"
  by (simp_all add: wthen_def wret_def wlift_def wchange_def wget_def)

lemma wthen_assoc [win_simps]: "wthen (wthen m f) g w = wthen m (\<lambda>x. wthen (f x) g) w"
  by (auto simp: wthen_def split: prod.split res.split)

lemma wthen_OkE:
  assumes "wthen m f w = (Ok y, w')"
  obtains x w1 where "m w = (Ok x, w1)" "f x w1 = (Ok y, w')"
  using assms by (auto simp: wthen_def split: prod.splits res.splits)

text \<open>A report prints, and no handle is opened or closed.\<close>

lemma warning_handles: "warning_winerr os txt w = (r, w') \<Longrightarrow> open_handles w' = open_handles w"
  by (auto simp: warning_winerr_def get_winerr_str_def report_to_stderr_def win_simps wthen_def wchange_def wlift_def wret_def
      wget_def split: res.splits prod.splits)

lemma die_never_returns [simp]: "die_winerr os txt w \<noteq> (Ok x, w')"
  by (auto simp: die_winerr_def get_winerr_str_def report_to_stderr_def win_simps wthen_def wlift_def split: res.splits prod.splits)

definition null_device :: "process_info \<Rightarrow> handle multiset" where
  "null_device ctx = (if fildes_flags ctx \<noteq> 0 then {#nuldev_handle ctx#} else {#})"

lemma close_nuldev_run:
  "close_nuldev ctx w = (Ok (), w\<lparr>open_handles := (if fildes_flags ctx \<noteq> 0 then remove1 (nuldev_handle ctx) (open_handles w) else open_handles w)\<rparr>)"
  by (simp add: close_nuldev_def CloseHandle_def wchange_def wret_def)

text \<open>Behind a successful redirection the null device is open, and only it in addition.\<close>

lemma redirect_members_fields [simp]:
  "fildes_flags (redirect_members h ctx) = fildes_flags ctx" "nuldev_handle (redirect_members h ctx) = nuldev_handle ctx"
  "pi_type (redirect_members h ctx) = pi_type ctx" "pi_program (redirect_members h ctx) = pi_program ctx"
  by (simp_all add: redirect_members_def Let_def)

lemma redirect_handles:
  assumes "win_redirect_stdio os dev ctx w = (Ok ctx', w')"
  shows "mset (open_handles w') = mset (open_handles w) + null_device ctx'" "fildes_flags ctx' = fildes_flags ctx"
    "pi_type ctx' = pi_type ctx" "pi_program ctx' = pi_program ctx"
proof -
  have "mset (open_handles w') = mset (open_handles w) + null_device ctx' \<and> fildes_flags ctx' = fildes_flags ctx
    \<and> pi_type ctx' = pi_type ctx \<and> pi_program ctx' = pi_program ctx"
  proof (cases "fildes_flags ctx = 0")
    case True
    then show ?thesis using assms by (auto simp: win_redirect_stdio_def null_device_def wret_def)
  next
    case False
    then obtain h w1 where h: "xCreateFile os dev OPEN_EXISTING w = (Ok h, w1)"
        "ctx' = redirect_members h (ctx\<lparr>nuldev_handle := h\<rparr>)" "w' = w1"
      using assms by (auto simp: win_redirect_stdio_def wret_def elim: wthen_OkE)
    moreover have "wo_file os = Some h \<and> w1 = w\<lparr>open_handles := h # open_handles w\<rparr>"
      using h(1)
      by (cases "wo_file os") (auto simp: xCreateFile_def open_handle_def win_simps wret_def)
    ultimately show ?thesis using False by (simp add: null_device_def)
  qed
  then show "mset (open_handles w') = mset (open_handles w) + null_device ctx'" "fildes_flags ctx' = fildes_flags ctx"
    "pi_type ctx' = pi_type ctx" "pi_program ctx' = pi_program ctx"
    by simp_all
qed

lemma mkprocl_handles:
  assumes "win_mkprocl os dev ctx arg0 args w = (Ok (rc, ctx'), w')"
  shows "pi_type ctx' = PROC_PROCESS
    \<and> (rc = 0 \<and> mset (open_handles w') = mset (open_handles w) + null_device ctx' + {#hProcess ctx', hThread ctx'#}
       \<or> rc = -1 \<and> mset (open_handles w') = mset (open_handles w))"
proof -
  obtain ctx1 w1 where r: "win_redirect_stdio os dev (ctx\<lparr>pi_type := PROC_PROCESS\<rparr>) w = (Ok ctx1, w1)"
    and rest: "wthen (wlift (bind_res (command_line arg0 args) (\<lambda>sb.
              bind_res (buf_read (sb_buf sb) 0 (sb_length sb + 1)) (\<lambda>bytes. Ok (cstr_of bytes))))) (\<lambda>cmd.
       case wo_process os cmd of
         Some (p, t) \<Rightarrow>
           wthen (open_handle p) (\<lambda>_. wthen (open_handle t) (\<lambda>_. wret (0, ctx1\<lparr>hProcess := p, hThread := t\<rparr>)))
       | None \<Rightarrow>
           wthen (warning_winerr os (''failed to start the program '' @ squote (pi_program ctx1))) (\<lambda>_.
           wthen (close_nuldev ctx1) (\<lambda>_. wret (-1, ctx1)))) w1 = (Ok (rc, ctx'), w')"
    using assms unfolding win_mkprocl_def by (rule wthen_OkE)
  note handles = redirect_handles [OF r]
  obtain cmd where "(case wo_process os cmd of
         Some (p, t) \<Rightarrow>
           wthen (open_handle p) (\<lambda>_. wthen (open_handle t) (\<lambda>_. wret (0, ctx1\<lparr>hProcess := p, hThread := t\<rparr>)))
       | None \<Rightarrow>
           wthen (warning_winerr os (''failed to start the program '' @ squote (pi_program ctx1))) (\<lambda>_.
           wthen (close_nuldev ctx1) (\<lambda>_. wret (-1, ctx1)))) w1 = (Ok (rc, ctx'), w')"
    using rest by (rule wthen_OkE) (auto simp: wlift_def)
  then show ?thesis
    using handles
    by (auto simp: open_handle_def wchange_def win_simps wret_def null_device_def close_nuldev_run elim!: wthen_OkE
        dest!: warning_handles split: option.splits)
qed

lemma finish_handles:
  assumes "win_finish_process os ctx w = (Ok st, w')" "pi_type ctx = PROC_PROCESS"
    "mset (open_handles w) = H + null_device ctx + {#hProcess ctx, hThread ctx#}" "wo_wait os \<in> {WAIT_OBJECT_0, WAIT_FAILED}"
  shows "mset (open_handles w') = H"
proof -
  have close: "mset (remove1 (hThread ctx) (remove1 (hProcess ctx) (if fildes_flags ctx \<noteq> 0 then remove1 (nuldev_handle ctx) hs else hs))) = H"
    if "mset hs = H + null_device ctx + {#hProcess ctx, hThread ctx#}" for hs
    using that by (auto simp: null_device_def)
  show ?thesis
    using assms close
    by (auto simp: win_finish_process_def Let_def win_simps close_nuldev_run CloseHandle_def wchange_def wret_def wget_def
        dest!: warning_handles elim!: wthen_OkE split: if_splits)
qed

lemma killed_handles:
  assumes "kill_process os ctx sig w = (Ok (r, ctx'), w')" "mset (open_handles w) = H + null_device ctx"
  shows "mset (open_handles w') = H" "win_finish_process os ctx' w' = (Ok 0, w')"
  using assms
  by (auto simp: kill_process_def close_nuldev_run null_device_def wret_def wlift_def win_finish_process_def
      dest!: warning_handles elim!: wthen_OkE split: process_type.splits if_splits)

section \<open>The command line\<close>

text \<open>
  The words are joined with blanks and not quoted, so an argument with a blank in it becomes two
  for the program.
\<close>

definition joined :: "string \<Rightarrow> string list \<Rightarrow> string" where
  "joined arg0 args = rtrim (CHR 0x22 # arg0 @ [CHR 0x22, CHR '' ''] @ concat (map (\<lambda>a. a @ '' '') args))"

lemma command_line_text:
  assumes "length arg0 + 3 + length (concat args) + length args \<le> INT_MAX" "cstring arg0" "\<forall>a\<in>set args. cstring a"
  shows "\<exists>sb. command_line arg0 args = Ok sb \<and> buf_read (sb_buf sb) 0 (sb_length sb + 1) = Ok (joined arg0 args @ [NUL])
    \<and> cstring (joined arg0 args)"
proof -
  let ?items = "(CHR 0x22 # arg0 @ [CHR 0x22, CHR '' '']) # map (\<lambda>a. a @ '' '') args"
  have fold: "fold_res strbuf_printf sb xs = fold_res sink_put sb (map Printf xs)" for sb xs
    by (induction xs arbitrary: sb) simp_all
  have len: "length (concat (map (\<lambda>a. a @ '' '') args)) = length (concat args) + length args"
    by (induction args) simp_all
  have all: "length x \<le> length (concat xs)" if "x \<in> set xs" for x :: string and xs
    using that by (induction xs) auto
  have "\<forall>x\<in>set (map Printf ?items). sink_ok x"
    using assms(1) len all [of _ "map (\<lambda>a. a @ '' '') args"] by (fastforce simp: size_bounds)
  moreover have "concat (map sink_text (map Printf ?items)) = CHR 0x22 # arg0 @ [CHR 0x22, CHR '' ''] @ concat (map (\<lambda>a. a @ '' '') args)"
    by (simp add: comp_def)
  ultimately obtain sb where sb: "fold_res strbuf_printf STRBUF_INIT ?items = Ok sb"
      "strbuf_rep sb (CHR 0x22 # arg0 @ [CHR 0x22, CHR '' ''] @ concat (map (\<lambda>a. a @ '' '') args))"
    using sb.put_all [of STRBUF_INIT "[]" "map Printf ?items"] assms(1) len by (auto simp: fold size_bounds)
  obtain sb' where sb': "strbuf_trim_end sb = Ok sb'" "strbuf_rep sb' (joined arg0 args)"
    using strbuf_trim_end_rep [OF sb(2)] unfolding joined_def by blast
  have sub: "set (rtrim x) \<subseteq> set x" for x by (auto simp: rtrim_def dest: set_dropWhileD)
  have "cstring (joined arg0 args)"
    using assms(2,3) sub [of "CHR 0x22 # arg0 @ [CHR 0x22, CHR '' ''] @ concat (map (\<lambda>a. a @ '' '') args)", THEN subsetD, of NUL]
    by (auto simp: joined_def cstring_def split: if_splits)
  moreover have "joined arg0 args \<noteq> []" by (auto simp: joined_def rtrim_def dropWhile_eq_Nil_conv ctype_simps)
  ultimately show ?thesis
    using sb(1) sb' strbuf_contents [OF sb'(2)] by (simp add: command_line_def)
qed

lemma joined_forgets_words: "joined arg0 [u @ '' '' @ v] = joined arg0 [u, v]"
  by (simp add: joined_def)

section \<open>The handles\<close>

text \<open>
  C36. On Windows, starting and ending a program balances its handles: when mkprocl has failed,
  the open handles are those of before; when it has returned 0, they are those of before
  once finish_process has waited for the program, whatever is redirected.  When the
  program is killed instead, finish_process returns at once and exactly the handles of the
  process and of its thread stay open.
\<close>

theorem win_handles_balance:
  assumes "win_mkprocl os dev ctx arg0 args w = (Ok (rc, ctx'), w1)"
  shows "rc = -1 \<and> mset (open_handles w1) = mset (open_handles w)
    \<or> rc = 0
      \<and> (\<forall>st w2. win_finish_process os ctx' w1 = (Ok st, w2) \<longrightarrow> wo_wait os \<in> {WAIT_OBJECT_0, WAIT_FAILED}
            \<longrightarrow> mset (open_handles w2) = mset (open_handles w))
      \<and> (\<forall>sig r ctx2 w2. kill_process os ctx' sig w1 = (Ok (r, ctx2), w2)
            \<longrightarrow> win_finish_process os ctx2 w2 = (Ok 0, w2)
              \<and> mset (open_handles w2) = mset (open_handles w) + {#hProcess ctx', hThread ctx'#})"
proof -
  note m = mkprocl_handles [OF assms]
  show ?thesis
  proof (cases "rc = 0")
    case True
    then have h: "mset (open_handles w1) = mset (open_handles w) + null_device ctx' + {#hProcess ctx', hThread ctx'#}"
      using m by simp
    then have k: "mset (open_handles w1) = (mset (open_handles w) + {#hProcess ctx', hThread ctx'#}) + null_device ctx'"
      by simp
    show ?thesis
      using True finish_handles [OF _ _ h] killed_handles [OF _ k] m by blast
  qed (use m in simp)
qed

text \<open>An editor with its standard input on the null device.\<close>

definition sample_win_os :: win_os where
  "sample_win_os = \<lparr>wo_file = Some 5, wo_process = (\<lambda>_. Some (6, 7)), wo_thread = Some 8, wo_terminate = (\<lambda>_ _. True),
     wo_wait = WAIT_OBJECT_0, wo_duplicate = None, wo_std_handle = True, wo_last_error = 0, wo_message = None\<rparr>"

definition sample_info :: process_info where
  "sample_info = \<lparr>pi_type = Proc_other 0, nuldev_handle = 0, thread_handle = 0, hProcess = 0, hThread = 0, hStdInput = 0,
     hStdOutput = 0, hStdError = 0, pi_program = ''vi'', fildes_flags = 1\<rparr>"

theorem win_handles_balance_witness:
  "let w = \<lparr>open_handles = [], win_stderr = [], win_errno = 0\<rparr>
   in \<exists>ctx w1 ctx2 w2. win_mkprocl sample_win_os ''nul'' sample_info ''vi'' [''rec''] w = (Ok (0, ctx), w1)
     \<and> kill_process sample_win_os ctx 15 w1 = (Ok (0, ctx2), w2) \<and> mset (open_handles w2) = {#6, 7#}"
proof -
  let ?w = "\<lparr>open_handles = [], win_stderr = [], win_errno = 0\<rparr>"
  let ?ctx = "redirect_members 5 (sample_info\<lparr>pi_type := PROC_PROCESS, nuldev_handle := 5\<rparr>)\<lparr>hProcess := 6, hThread := 7\<rparr>"
  obtain sb where sb: "command_line ''vi'' [''rec''] = Ok sb"
      "buf_read (sb_buf sb) 0 (sb_length sb + 1) = Ok (joined ''vi'' [''rec''] @ [NUL])"
    using command_line_text [of "''vi''" "[''rec'']"] by (auto simp: size_bounds cstring_def)
  have "\<exists>w1. win_mkprocl sample_win_os ''nul'' sample_info ''vi'' [''rec''] ?w = (Ok (0, ?ctx), w1)"
    using sb by (simp add: win_mkprocl_def win_redirect_stdio_def xCreateFile_def open_handle_def win_simps sample_win_os_def
        sample_info_def) (simp add: wret_def wchange_def)
  then obtain w1 where w1: "win_mkprocl sample_win_os ''nul'' sample_info ''vi'' [''rec''] ?w = (Ok (0, ?ctx), w1)" ..
  have "\<exists>ctx2 w2. kill_process sample_win_os ?ctx 15 w1 = (Ok (0, ctx2), w2)"
    by (simp add: kill_process_def sample_win_os_def sample_info_def close_nuldev_def CloseHandle_def win_simps wret_def)
  then obtain ctx2 w2 where k: "kill_process sample_win_os ?ctx 15 w1 = (Ok (0, ctx2), w2)" by blast
  show ?thesis
    using win_handles_balance [OF w1] w1 k by (auto simp: Let_def)
qed

section \<open>The console\<close>

text \<open>
  While a key is typed in, the echo is off and the other bits of the mode are as before; then
  the mode is what it was.
\<close>

lemma console_round_trip:
  assumes "win_termios_disable_echo os t con w = (Ok (0, t', con'), w')" "can_set_mode con'"
  shows "win_termios_restore_config os t' con' w' = (Ok (0, con), w')" "console_mode con' AND ENABLE_ECHO_INPUT = 0"
    "console_mode con' OR ENABLE_ECHO_INPUT = console_mode con OR ENABLE_ECHO_INPUT"
  using assms
  by (auto simp: win_termios_disable_echo_def win_termios_restore_config_def wret_def Let_def elim!: wthen_OkE split: option.splits if_splits
      intro!: bit_word_eqI simp: bit_simps)

end
