(* ===== verification/Poll.thy ===== *)
theory Poll
  imports System_Calls "HOL-Library.Word"
begin

text \<open>
  \<^verbatim>\<open>src/src/compat/poll.h\<close> and the branch of \<^verbatim>\<open>compat/poll.c\<close> built outside Windows: poll
  on top of select, and the wait of \<^verbatim>\<open>handle_nonblock\<close> in \<^verbatim>\<open>wrapper.c\<close> that calls it.
  select, recv and sysconf are parameters.  An fd_set is the set of its
  descriptors; FD_SET and FD_ISSET outside FD_SETSIZE are undefined.
\<close>

unbundle bit_operations_syntax

section \<open>Event masks\<close>

definition POLLIN :: uint where "POLLIN = 0x0001"
definition POLLPRI :: uint where "POLLPRI = 0x0002"
definition POLLOUT :: uint where "POLLOUT = 0x0004"
definition POLLERR :: uint where "POLLERR = 0x0008"
definition POLLHUP :: uint where "POLLHUP = 0x0010"
definition POLLNVAL :: uint where "POLLNVAL = 0x0020"
definition POLLRDNORM :: uint where "POLLRDNORM = 0x0040"
definition POLLRDBAND :: uint where "POLLRDBAND = 0x0080"
definition POLLWRNORM :: uint where "POLLWRNORM = 0x0100"
definition POLLWRBAND :: uint where "POLLWRBAND = 0x0200"

lemmas poll_masks = POLLIN_def POLLPRI_def POLLOUT_def POLLERR_def POLLHUP_def POLLNVAL_def
  POLLRDNORM_def POLLRDBAND_def POLLWRNORM_def POLLWRBAND_def

abbreviation READ_EVENTS :: uint where "READ_EVENTS \<equiv> POLLIN OR POLLRDNORM"
abbreviation WRITE_EVENTS :: uint where "WRITE_EVENTS \<equiv> POLLOUT OR POLLWRNORM OR POLLWRBAND"
abbreviation URGENT_EVENTS :: uint where "URGENT_EVENTS \<equiv> POLLPRI OR POLLRDBAND"

record pollfd =
  pl_fd :: int
  pl_events :: "16 word"
  pl_revents :: "16 word"

text \<open>A short is promoted to int with its sign before it meets a mask.\<close>

definition asks :: "16 word \<Rightarrow> uint \<Rightarrow> bool" where
  "asks ev m \<longleftrightarrow> (scast ev :: uint) AND m \<noteq> 0"

section \<open>From the sets of select to events\<close>

datatype sock_errno =
  ENOTCONN | ESHUTDOWN | ECONNRESET | ECONNABORTED | ENETRESET | ENOTSOCK | Sother int

datatype recv_answer = Received nat | Recv_failed sock_errno

definition FD_SETSIZE :: int where "FD_SETSIZE = 1024"

definition FD_SET :: "int \<Rightarrow> int set \<Rightarrow> int set res" where
  "FD_SET fd s = (if 0 \<le> fd \<and> fd < FD_SETSIZE then Ok (insert fd s) else Halt (Undef ''FD_SET''))"

definition FD_ISSET :: "int \<Rightarrow> int set \<Rightarrow> bool res" where
  "FD_ISSET fd s = (if 0 \<le> fd \<and> fd < FD_SETSIZE then Ok (fd \<in> s) else Halt (Undef ''FD_ISSET''))"

text \<open>\<open>r\<close>: what recv with MSG_PEEK answers, looked at only for a readable descriptor.\<close>

definition compute_revents ::
    "recv_answer \<Rightarrow> int \<Rightarrow> uint \<Rightarrow> int set \<Rightarrow> int set \<Rightarrow> int set \<Rightarrow> uint res" where
  "compute_revents r fd sought rfds wfds efds =
     bind_res (FD_ISSET fd rfds) (\<lambda>readable.
     let happened =
           (if \<not> readable then 0
            else case r of
              Received n \<Rightarrow> if n = 0 then POLLHUP else (POLLIN OR POLLRDNORM) AND sought
            | Recv_failed socket_errno \<Rightarrow>
                if socket_errno = ENOTCONN then (POLLIN OR POLLRDNORM) AND sought
                else if socket_errno = ESHUTDOWN \<or> socket_errno = ECONNRESET
                      \<or> socket_errno = ECONNABORTED \<or> socket_errno = ENETRESET then POLLHUP
                else if socket_errno = ENOTSOCK then (POLLIN OR POLLRDNORM) AND sought
                else POLLERR)
     in bind_res (FD_ISSET fd wfds) (\<lambda>writable.
     let happened = (if writable then happened OR (POLLOUT OR POLLWRNORM OR POLLWRBAND) AND sought
                     else happened)
     in bind_res (FD_ISSET fd efds) (\<lambda>urgent.
     Ok (if urgent then happened OR (POLLPRI OR POLLRDBAND) AND sought else happened))))"

section \<open>poll\<close>

datatype poll_errno = EINVAL | EFAULT | EOVERFLOW | Select_failed errnum

record fd_sets =
  rfds :: "int set"
  wfds :: "int set"
  efds :: "int set"

text \<open>
  The limit of open files.  \<open>nfds_t\<close> is unsigned long, so both comparisons are unsigned and
  \<open>nfd < 0\<close> never holds.  \<open>open_max\<close> is the static variable, \<open>sysconf\<close> the answer for
  _SC_OPEN_MAX stored in it.
\<close>

definition exceeds_open_max :: "int \<Rightarrow> int \<Rightarrow> 64 word \<Rightarrow> bool \<times> int" where
  "exceeds_open_max sysconf open_max nfd =
     (if nfd > of_int open_max
      then if open_max \<noteq> -1 then (True, open_max)
           else (nfd > of_int sysconf, sysconf)
      else (False, open_max))"

text \<open>The timeval for select; \<open>Inr None\<close> waits forever.\<close>

definition poll_timeval :: "int \<Rightarrow> poll_errno + (int \<times> int) option" where
  "poll_timeval timeout =
     (if timeout = 0 then Inr (Some (0, 0))
      else if timeout > 0 then Inr (Some (timeout div 1000, (timeout mod 1000) * 1000))
      else if timeout = -1 then Inr None
      else Inl EINVAL)"

definition add_to :: "bool \<Rightarrow> int \<Rightarrow> int set \<Rightarrow> int set res" where
  "add_to wanted fd s = (if wanted then FD_SET fd s else Ok s)"

text \<open>One turn of the loop that creates the sets and finds the largest descriptor.\<close>

definition create_set :: "pollfd \<Rightarrow> fd_sets \<Rightarrow> int \<Rightarrow> (poll_errno + fd_sets \<times> int) res" where
  "create_set p s maxfd =
     (let fd = pl_fd p; events = pl_events p in
      if fd < 0 then Ok (Inr (s, maxfd))
      else
        bind_res (add_to (asks events (POLLIN OR POLLRDNORM)) fd (rfds s)) (\<lambda>r.
        bind_res (add_to (asks events (POLLOUT OR POLLWRNORM OR POLLWRBAND)) fd (wfds s)) (\<lambda>w.
        bind_res (add_to (asks events (POLLPRI OR POLLRDBAND)) fd (efds s)) (\<lambda>e.
        let s = \<lparr>rfds = r, wfds = w, efds = e\<rparr> in
        if fd \<ge> maxfd
           \<and> asks events (POLLIN OR POLLOUT OR POLLPRI OR POLLRDNORM OR POLLRDBAND
                          OR POLLWRNORM OR POLLWRBAND)
        then if fd > FD_SETSIZE then Ok (Inl EOVERFLOW) else Ok (Inr (s, fd))
        else Ok (Inr (s, maxfd))))))"

fun create_sets :: "pollfd list \<Rightarrow> nat \<Rightarrow> fd_sets \<Rightarrow> int \<Rightarrow> (poll_errno + fd_sets \<times> int) res" where
  "create_sets ps 0 s maxfd = Ok (Inr (s, maxfd))"
| "create_sets [] (Suc n) s maxfd = Halt (Undef ''pfd read out of bounds'')"
| "create_sets (p # ps) (Suc n) s maxfd =
     bind_res (create_set p s maxfd) (\<lambda>x.
       case x of Inl err \<Rightarrow> Ok (Inl err) | Inr (s, maxfd) \<Rightarrow> create_sets ps n s maxfd)"

text \<open>
  The loop that stores the events and counts the descriptors with any; \<open>recv i\<close> is the
  answer for the entry at index \<open>i\<close>.
\<close>

fun establish :: "(nat \<Rightarrow> recv_answer) \<Rightarrow> fd_sets \<Rightarrow> nat \<Rightarrow> pollfd list \<Rightarrow> nat \<Rightarrow> nat
    \<Rightarrow> (pollfd list \<times> nat) res" where
  "establish recv s i ps 0 rc = Ok (ps, rc)"
| "establish recv s i [] (Suc n) rc = Halt (Undef ''pfd read out of bounds'')"
| "establish recv s i (p # ps) (Suc n) rc =
     (if pl_fd p < 0
      then bind_res (establish recv s (i + 1) ps n rc) (\<lambda>(ps, rc).
             Ok (p\<lparr>pl_revents := 0\<rparr> # ps, rc))
      else
        bind_res (compute_revents (recv i) (pl_fd p) (scast (pl_events p)) (rfds s) (wfds s) (efds s))
          (\<lambda>happened.
        if happened \<noteq> 0
        then if rc = INT_MAX then Halt (Undef ''integer overflow'')
             else bind_res (establish recv s (i + 1) ps n (rc + 1)) (\<lambda>(ps, rc).
               Ok (p\<lparr>pl_revents := ucast happened\<rparr> # ps, rc))
        else bind_res (establish recv s (i + 1) ps n rc) (\<lambda>(ps, rc).
               Ok (p\<lparr>pl_revents := 0\<rparr> # ps, rc))))"

text \<open>The result (\<open>Inl\<close>: -1 with errno), the array and the static limit after the call.\<close>

definition poll ::
    "int \<Rightarrow> (int \<Rightarrow> fd_sets \<Rightarrow> (int \<times> int) option \<Rightarrow> errnum + fd_sets) \<Rightarrow> (nat \<Rightarrow> recv_answer)
     \<Rightarrow> int \<Rightarrow> pollfd list option \<Rightarrow> 64 word \<Rightarrow> int
     \<Rightarrow> ((poll_errno + nat) \<times> pollfd list option \<times> int) res" where
  "poll sysconf select recv open_max pfd nfd timeout =
     (let (over, open_max) = exceeds_open_max sysconf open_max nfd in
      if over then Ok (Inl EINVAL, pfd, open_max)
      else if pfd = None \<and> nfd \<noteq> 0 then Ok (Inl EFAULT, pfd, open_max)
      else let ps = (case pfd of None \<Rightarrow> [] | Some ps \<Rightarrow> ps) in
      case poll_timeval timeout of
        Inl err \<Rightarrow> Ok (Inl err, pfd, open_max)
      | Inr ptv \<Rightarrow>
          bind_res (create_sets ps (unat nfd) \<lparr>rfds = {}, wfds = {}, efds = {}\<rparr> (-1)) (\<lambda>x.
          case x of
            Inl err \<Rightarrow> Ok (Inl err, pfd, open_max)
          | Inr (s, maxfd) \<Rightarrow>
              (case select (maxfd + 1) s ptv of
                 Inl err \<Rightarrow> Ok (Inl (Select_failed err), pfd, open_max)
               | Inr s \<Rightarrow>
                   bind_res (establish recv s 0 ps (unat nfd) 0) (\<lambda>(ps, rc).
                   Ok (Inr rc, map_option (\<lambda>_. ps) pfd, open_max)))))"

text \<open>
  The wait of handle_nonblock: the status of poll is ignored.  \<open>None\<close>: no wait, the error is
  the caller's.  \<open>revents\<close> is what the uninitialised field holds.
\<close>

definition handle_nonblock_wait ::
    "int \<Rightarrow> (int \<Rightarrow> fd_sets \<Rightarrow> (int \<times> int) option \<Rightarrow> errnum + fd_sets) \<Rightarrow> (nat \<Rightarrow> recv_answer)
     \<Rightarrow> int \<Rightarrow> 16 word \<Rightarrow> int \<Rightarrow> 16 word \<Rightarrow> errnum \<Rightarrow> (bool \<times> int) res" where
  "handle_nonblock_wait sysconf select recv open_max revents fd poll_events err =
     (if err \<noteq> EAGAIN \<and> err \<noteq> EWOULDBLOCK then Ok (False, open_max)
      else
        let pfd = \<lparr>pl_fd = fd, pl_events = poll_events, pl_revents = revents\<rparr> in
        bind_res (poll sysconf select recv open_max (Some [pfd]) 1 (-1)) (\<lambda>(_, _, open_max).
        Ok (True, open_max)))"

text \<open>
  The loop of pk_read and pk_write with the wait spelled out; \<open>k\<close> counts the waits, whose select
  and recv answers may differ.
\<close>

fun io_loop_wait ::
    "int \<Rightarrow> (nat \<Rightarrow> int \<Rightarrow> fd_sets \<Rightarrow> (int \<times> int) option \<Rightarrow> errnum + fd_sets) \<Rightarrow> (nat \<Rightarrow> nat \<Rightarrow> recv_answer)
     \<Rightarrow> nat \<Rightarrow> int \<Rightarrow> 16 word \<Rightarrow> int \<Rightarrow> 16 word \<Rightarrow> io_answer list
     \<Rightarrow> (io_answer \<times> io_answer list) option res" where
  "io_loop_wait sysconf select recv k open_max revents fd poll_events [] = Ok None"
| "io_loop_wait sysconf select recv k open_max revents fd poll_events (Count nr # as) = Ok (Some (Count nr, as))"
| "io_loop_wait sysconf select recv k open_max revents fd poll_events (Fail err # as) =
     (if err = EINTR then io_loop_wait sysconf select recv k open_max revents fd poll_events as
      else bind_res (handle_nonblock_wait sysconf (select k) (recv k) open_max revents fd poll_events err)
        (\<lambda>(again, open_max).
           if again then io_loop_wait sysconf select recv (k + 1) open_max revents fd poll_events as
           else Ok (Some (Fail err, as))))"

section \<open>Masks bit by bit\<close>

lemma asks_bits:
  "asks ev POLLIN \<longleftrightarrow> bit ev 0" "asks ev POLLPRI \<longleftrightarrow> bit ev 1" "asks ev POLLOUT \<longleftrightarrow> bit ev 2"
  "asks ev POLLERR \<longleftrightarrow> bit ev 3" "asks ev POLLHUP \<longleftrightarrow> bit ev 4" "asks ev POLLNVAL \<longleftrightarrow> bit ev 5"
  "asks ev POLLRDNORM \<longleftrightarrow> bit ev 6" "asks ev POLLRDBAND \<longleftrightarrow> bit ev 7"
  "asks ev POLLWRNORM \<longleftrightarrow> bit ev 8" "asks ev POLLWRBAND \<longleftrightarrow> bit ev 9"
proof -
  have *: "(scast ev :: uint) AND 2 ^ n \<noteq> 0 \<longleftrightarrow> bit ev n" if "n < 15" for n
    using that by (simp add: and_exp_eq_0_iff_not_bit bit_signed_iff min_def)
  show "asks ev POLLIN \<longleftrightarrow> bit ev 0" using *[of 0] by (simp add: asks_def poll_masks)
  show "asks ev POLLPRI \<longleftrightarrow> bit ev 1" using *[of 1] by (simp add: asks_def poll_masks)
  show "asks ev POLLOUT \<longleftrightarrow> bit ev 2" using *[of 2] by (simp add: asks_def poll_masks)
  show "asks ev POLLERR \<longleftrightarrow> bit ev 3" using *[of 3] by (simp add: asks_def poll_masks)
  show "asks ev POLLHUP \<longleftrightarrow> bit ev 4" using *[of 4] by (simp add: asks_def poll_masks)
  show "asks ev POLLNVAL \<longleftrightarrow> bit ev 5" using *[of 5] by (simp add: asks_def poll_masks)
  show "asks ev POLLRDNORM \<longleftrightarrow> bit ev 6" using *[of 6] by (simp add: asks_def poll_masks)
  show "asks ev POLLRDBAND \<longleftrightarrow> bit ev 7" using *[of 7] by (simp add: asks_def poll_masks)
  show "asks ev POLLWRNORM \<longleftrightarrow> bit ev 8" using *[of 8] by (simp add: asks_def poll_masks)
  show "asks ev POLLWRBAND \<longleftrightarrow> bit ev 9" using *[of 9] by (simp add: asks_def poll_masks)
qed

lemma asks_or [simp]: "asks ev (m OR m') \<longleftrightarrow> asks ev m \<or> asks ev m'"
  by (auto simp: asks_def bit_eq_iff bit_simps)

lemma bit_masks [simp]:
  "bit POLLIN n \<longleftrightarrow> n = 0" "bit POLLPRI n \<longleftrightarrow> n = 1" "bit POLLOUT n \<longleftrightarrow> n = 2"
  "bit POLLERR n \<longleftrightarrow> n = 3" "bit POLLHUP n \<longleftrightarrow> n = 4" "bit POLLNVAL n \<longleftrightarrow> n = 5"
  "bit POLLRDNORM n \<longleftrightarrow> n = 6" "bit POLLRDBAND n \<longleftrightarrow> n = 7" "bit POLLWRNORM n \<longleftrightarrow> n = 8"
  "bit POLLWRBAND n \<longleftrightarrow> n = 9"
proof -
  have *: "bit (2 ^ m :: uint) n \<longleftrightarrow> n = m" if "m < 32" for m
    using that by (auto simp: bit_exp_iff)
  show "bit POLLIN n \<longleftrightarrow> n = 0" using *[of 0] by (simp add: poll_masks)
  show "bit POLLPRI n \<longleftrightarrow> n = 1" using *[of 1] by (simp add: poll_masks)
  show "bit POLLOUT n \<longleftrightarrow> n = 2" using *[of 2] by (simp add: poll_masks)
  show "bit POLLERR n \<longleftrightarrow> n = 3" using *[of 3] by (simp add: poll_masks)
  show "bit POLLHUP n \<longleftrightarrow> n = 4" using *[of 4] by (simp add: poll_masks)
  show "bit POLLNVAL n \<longleftrightarrow> n = 5" using *[of 5] by (simp add: poll_masks)
  show "bit POLLRDNORM n \<longleftrightarrow> n = 6" using *[of 6] by (simp add: poll_masks)
  show "bit POLLRDBAND n \<longleftrightarrow> n = 7" using *[of 7] by (simp add: poll_masks)
  show "bit POLLWRNORM n \<longleftrightarrow> n = 8" using *[of 8] by (simp add: poll_masks)
  show "bit POLLWRBAND n \<longleftrightarrow> n = 9" using *[of 9] by (simp add: poll_masks)
qed

section \<open>The events found\<close>

text \<open>What recv tells about a readable descriptor.\<close>

definition has_data :: "recv_answer \<Rightarrow> bool" where
  "has_data r = (case r of Received n \<Rightarrow> n > 0 | Recv_failed e \<Rightarrow> e = ENOTCONN \<or> e = ENOTSOCK)"

definition hung_up :: "recv_answer \<Rightarrow> bool" where
  "hung_up r = (case r of
     Received n \<Rightarrow> n = 0
   | Recv_failed e \<Rightarrow> e = ESHUTDOWN \<or> e = ECONNRESET \<or> e = ECONNABORTED \<or> e = ENETRESET)"

definition revents_of :: "recv_answer \<Rightarrow> int \<Rightarrow> uint \<Rightarrow> fd_sets \<Rightarrow> uint" where
  "revents_of r fd sought s =
     (if fd \<notin> rfds s then 0 else if has_data r then READ_EVENTS AND sought
      else if hung_up r then POLLHUP else POLLERR)
     OR (if fd \<in> wfds s then WRITE_EVENTS AND sought else 0)
     OR (if fd \<in> efds s then URGENT_EVENTS AND sought else 0)"

lemma compute_revents_eq:
  "0 \<le> fd \<Longrightarrow> fd < FD_SETSIZE \<Longrightarrow>
   compute_revents r fd sought (rfds s) (wfds s) (efds s) = Ok (revents_of r fd sought s)"
  by (simp add: compute_revents_def FD_ISSET_def revents_of_def has_data_def hung_up_def Let_def
      or.assoc split: recv_answer.split)

lemma revents_of_bits:
  "bit (revents_of r fd (scast (ev :: 16 word)) s) n \<longleftrightarrow>
     fd \<in> rfds s \<and> (if has_data r then n \<in> {0, 6} \<and> bit ev n else if hung_up r then n = 4 else n = 3)
     \<or> fd \<in> wfds s \<and> n \<in> {2, 8, 9} \<and> bit ev n
     \<or> fd \<in> efds s \<and> n \<in> {1, 7} \<and> bit ev n"
  by (auto simp: revents_of_def bit_simps bit_signed_iff min_def)

lemma revents_of_low: "bit (revents_of r fd (scast (ev :: 16 word)) s) n \<Longrightarrow> n < 10"
  by (auto simp: revents_of_bits split: if_splits)

lemma revents_of_short [simp]:
  "(ucast (revents_of r fd (scast (ev :: 16 word)) s) :: 16 word) = 0
   \<longleftrightarrow> revents_of r fd (scast ev) s = 0"
proof
  assume *: "(ucast (revents_of r fd (scast ev) s) :: 16 word) = 0"
  have "bit (revents_of r fd (scast ev) s) n = bit (ucast (revents_of r fd (scast ev) s) :: 16 word) n"
    if "n < 10" for n using that by (simp add: bit_unsigned_iff)
  with * revents_of_low show "revents_of r fd (scast ev) s = 0"
    by (metis bit_0_eq bit_eqI bot_apply bot_bool_def)
qed simp

section \<open>The two loops\<close>

definition wanted :: "pollfd list \<Rightarrow> uint \<Rightarrow> int set" where
  "wanted ps m = {pl_fd p | p. p \<in> set ps \<and> 0 \<le> pl_fd p \<and> asks (pl_events p) m}"

lemma wanted_simps [simp]:
  "wanted [] m = {}"
  "wanted (p # ps) m
   = (if 0 \<le> pl_fd p \<and> asks (pl_events p) m then insert (pl_fd p) (wanted ps m) else wanted ps m)"
  by (auto simp: wanted_def)

lemma add_to_eq: "0 \<le> fd \<Longrightarrow> fd < FD_SETSIZE \<Longrightarrow> add_to w fd s = Ok (if w then insert fd s else s)"
  by (simp add: add_to_def FD_SET_def)

lemma create_sets_eq:
  "\<forall>p \<in> set ps. pl_fd p < FD_SETSIZE \<Longrightarrow>
   \<exists>maxfd'. create_sets ps (length ps) s maxfd
     = Ok (Inr (\<lparr>rfds = rfds s \<union> wanted ps READ_EVENTS, wfds = wfds s \<union> wanted ps WRITE_EVENTS,
               efds = efds s \<union> wanted ps URGENT_EVENTS\<rparr>, maxfd'))
     \<and> maxfd \<le> maxfd'
     \<and> (\<forall>m \<in> {READ_EVENTS, WRITE_EVENTS, URGENT_EVENTS}. \<forall>fd \<in> wanted ps m. fd \<le> maxfd')"
proof (induction ps arbitrary: s maxfd)
  case (Cons p ps)
  let ?s = "if pl_fd p < 0 then s else
      \<lparr>rfds = (if asks (pl_events p) READ_EVENTS then insert (pl_fd p) (rfds s) else rfds s),
       wfds = (if asks (pl_events p) WRITE_EVENTS then insert (pl_fd p) (wfds s) else wfds s),
       efds = (if asks (pl_events p) URGENT_EVENTS then insert (pl_fd p) (efds s) else efds s)\<rparr>"
  let ?any = "asks (pl_events p) READ_EVENTS \<or> asks (pl_events p) WRITE_EVENTS
      \<or> asks (pl_events p) URGENT_EVENTS"
  let ?m = "if 0 \<le> pl_fd p \<and> ?any \<and> maxfd \<le> pl_fd p then pl_fd p else maxfd"
  have step: "create_set p s maxfd = Ok (Inr (?s, ?m))"
    using Cons.prems by (auto simp: create_set_def add_to_eq Let_def)
  from Cons.IH[of ?s ?m] Cons.prems obtain maxfd' where
    "create_sets ps (length ps) ?s ?m
       = Ok (Inr (\<lparr>rfds = rfds ?s \<union> wanted ps READ_EVENTS, wfds = wfds ?s \<union> wanted ps WRITE_EVENTS,
                 efds = efds ?s \<union> wanted ps URGENT_EVENTS\<rparr>, maxfd'))"
    "?m \<le> maxfd'"
    "\<forall>m \<in> {READ_EVENTS, WRITE_EVENTS, URGENT_EVENTS}. \<forall>fd \<in> wanted ps m. fd \<le> maxfd'"
    by auto
  with step show ?case by (intro exI[of _ maxfd']) (auto split: if_splits)
qed simp

lemma create_set_not_EOVERFLOW: "create_set p s maxfd \<noteq> Ok (Inl err)"
  by (auto simp: create_set_def add_to_def FD_SET_def Let_def)

lemma create_sets_not_Inl: "create_sets ps n s maxfd \<noteq> Ok (Inl err)"
proof (induction ps n s maxfd rule: create_sets.induct)
  case (3 p ps n s maxfd)
  then show ?case
    by (cases "create_set p s maxfd") (auto simp: create_set_not_EOVERFLOW split: sum.splits)
qed simp_all

definition poll_settled :: "(nat \<Rightarrow> recv_answer) \<Rightarrow> fd_sets \<Rightarrow> nat \<Rightarrow> pollfd \<Rightarrow> pollfd" where
  "poll_settled recv s i p =
     p\<lparr>pl_revents := if pl_fd p < 0 then 0
                      else ucast (revents_of (recv i) (pl_fd p) (scast (pl_events p)) s)\<rparr>"

abbreviation settle :: "(nat \<Rightarrow> recv_answer) \<Rightarrow> fd_sets \<Rightarrow> nat \<Rightarrow> pollfd list \<Rightarrow> pollfd list" where
  "settle recv s i ps \<equiv> map (\<lambda>(i, p). poll_settled recv s i p) (enumerate i ps)"

lemma establish_eq:
  "\<forall>p \<in> set ps. pl_fd p < FD_SETSIZE \<Longrightarrow> rc + length ps \<le> INT_MAX \<Longrightarrow>
   establish recv s i ps (length ps) rc
   = Ok (settle recv s i ps, rc + length (filter (\<lambda>p. pl_revents p \<noteq> 0) (settle recv s i ps)))"
  by (induction ps arbitrary: i rc) (auto simp: compute_revents_eq poll_settled_def)

lemma establish_Ok_bound:
  "establish recv s i ps n rc = Ok x \<Longrightarrow> p \<in> set (take n ps) \<Longrightarrow> pl_fd p < FD_SETSIZE"
proof (induction recv s i ps n rc arbitrary: x rule: establish.induct)
  case (3 recv s i q ps n rc)
  show ?case
  proof (cases "pl_fd q < 0")
    case True
    with 3 show ?thesis
      by (cases "establish recv s (i + 1) ps n rc") (auto simp: FD_SETSIZE_def)
  next
    case False
    with 3(4) have q: "pl_fd q < FD_SETSIZE"
      by (auto simp: compute_revents_def FD_ISSET_def split: if_splits)
    with 3 False show ?thesis
      by (cases "establish recv s (i + 1) ps n rc"; cases "establish recv s (i + 1) ps n (rc + 1)")
        (auto simp: compute_revents_eq split: if_splits)
  qed
qed simp_all

section \<open>What poll promises\<close>

text \<open>select over predicates that say which descriptors are ready; only those below \<open>nfds\<close> are looked at.\<close>

definition select_ready ::
    "(int \<Rightarrow> bool) \<Rightarrow> (int \<Rightarrow> bool) \<Rightarrow> (int \<Rightarrow> bool) \<Rightarrow> int \<Rightarrow> fd_sets \<Rightarrow> (int \<times> int) option \<Rightarrow> errnum + fd_sets"
  where
  "select_ready rd wr ex nfds s ptv =
     Inr \<lparr>rfds = {fd \<in> rfds s. fd < nfds \<and> rd fd}, wfds = {fd \<in> wfds s. fd < nfds \<and> wr fd},
          efds = {fd \<in> efds s. fd < nfds \<and> ex fd}\<rparr>"

text \<open>The events poll(2) owes the entry \<open>p\<close> of the array \<open>ps\<close>, bit by bit.\<close>

definition reports ::
    "(int \<Rightarrow> bool) \<Rightarrow> (int \<Rightarrow> bool) \<Rightarrow> (int \<Rightarrow> bool) \<Rightarrow> recv_answer \<Rightarrow> pollfd list \<Rightarrow> pollfd \<Rightarrow> 16 word \<Rightarrow> bool"
  where
  "reports rd wr ex r ps p out \<longleftrightarrow>
     (let fd = pl_fd p; ev = pl_events p; input = fd \<in> wanted ps READ_EVENTS \<and> rd fd in
      if fd < 0 then out = 0
      else (\<forall>m \<in> {POLLIN, POLLRDNORM}. asks out m \<longleftrightarrow> asks ev m \<and> rd fd \<and> has_data r)
         \<and> (\<forall>m \<in> {POLLOUT, POLLWRNORM, POLLWRBAND}. asks out m \<longleftrightarrow> asks ev m \<and> wr fd)
         \<and> (\<forall>m \<in> {POLLPRI, POLLRDBAND}. asks out m \<longleftrightarrow> asks ev m \<and> ex fd)
         \<and> (asks out POLLHUP \<longleftrightarrow> input \<and> \<not> has_data r \<and> hung_up r)
         \<and> (asks out POLLERR \<longleftrightarrow> input \<and> \<not> has_data r \<and> \<not> hung_up r)
         \<and> \<not> asks out POLLNVAL \<and> (\<forall>n \<ge> 10. \<not> bit out n))"

text \<open>What the result of select leaves of the requests, once every requested descriptor is below nfds.\<close>

lemma poll_settled_reports:
  assumes p: "p \<in> set ps" and lt: "\<forall>m \<in> {READ_EVENTS, WRITE_EVENTS, URGENT_EVENTS}. \<forall>fd \<in> wanted ps m. fd < n"
  shows "reports rd wr ex (recv i) ps p
    (pl_revents (poll_settled recv \<lparr>rfds = {fd \<in> wanted ps READ_EVENTS. fd < n \<and> rd fd},
       wfds = {fd \<in> wanted ps WRITE_EVENTS. fd < n \<and> wr fd},
       efds = {fd \<in> wanted ps URGENT_EVENTS. fd < n \<and> ex fd}\<rparr> i p))"
proof (cases "pl_fd p < 0")
  case False
  have eq: "{fd \<in> wanted ps m. fd < n \<and> P fd} = {fd \<in> wanted ps m. P fd}"
    if "m \<in> {READ_EVENTS, WRITE_EVENTS, URGENT_EVENTS}" for m P
    using that lt by auto
  have own: "asks (pl_events p) m \<Longrightarrow> pl_fd p \<in> wanted ps m" for m
    using p False by (auto simp: wanted_def)
  have r: "pl_fd p \<in> wanted ps READ_EVENTS" if "bit (pl_events p) 0 \<or> bit (pl_events p) 6"
    using that own[of READ_EVENTS] by (auto simp: asks_bits)
  have w: "pl_fd p \<in> wanted ps WRITE_EVENTS"
    if "bit (pl_events p) 2 \<or> bit (pl_events p) 8 \<or> bit (pl_events p) 9"
    using that own[of WRITE_EVENTS] by (auto simp: asks_bits)
  have u: "pl_fd p \<in> wanted ps URGENT_EVENTS" if "bit (pl_events p) 1 \<or> bit (pl_events p) 7"
    using that own[of URGENT_EVENTS] by (auto simp: asks_bits)
  show ?thesis
    using False r w u
    by (simp add: eq reports_def poll_settled_def asks_bits bit_unsigned_iff revents_of_bits Let_def) blast
qed (simp add: reports_def poll_settled_def)

lemma exceeds_open_max_start [simp]: "exceeds_open_max sysconf (-1) nfd = (False, -1)"
  by (simp add: exceeds_open_max_def)

lemma poll_timeval_ok: "-1 \<le> timeout \<Longrightarrow> \<exists>ptv. poll_timeval timeout = Inr ptv"
  by (auto simp: poll_timeval_def)

lemma INT_MAX_word: "n \<le> INT_MAX \<Longrightarrow> unat (of_nat n :: 64 word) = n"
  by (simp add: unsigned_of_nat take_bit_nat_eq_self_iff INT_MAX_def)

lemma poll_Ok:
  assumes "\<forall>p \<in> set ps. pl_fd p < FD_SETSIZE" and "length ps \<le> INT_MAX" and "-1 \<le> timeout"
  shows "\<exists>v pfd'. poll sysconf select recv (-1) (Some ps) (of_nat (length ps)) timeout = Ok (v, pfd', -1)"
proof -
  obtain ptv where "poll_timeval timeout = Inr ptv"
    using poll_timeval_ok assms(3) by blast
  moreover obtain s m where
    "create_sets ps (length ps) \<lparr>rfds = {}, wfds = {}, efds = {}\<rparr> (-1) = Ok (Inr (s, m))"
    using create_sets_eq[OF assms(1)] by metis
  ultimately show ?thesis
    using assms by (simp add: poll_def INT_MAX_word establish_eq split: sum.split)
qed

text \<open>
  C34. poll on an array whose descriptors fit an fd_set: it returns the number of entries with
  events, leaves descriptors and requests alone, and stores in each entry exactly the events
  poll(2) owes it: input when there is data, output and urgent events when requested and
  ready, POLLHUP and POLLERR from recv, never POLLNVAL, nothing for a negative descriptor.
\<close>

theorem poll_reports:
  assumes "\<forall>p \<in> set ps. pl_fd p < FD_SETSIZE" and "length ps \<le> INT_MAX" and "-1 \<le> timeout"
  shows "\<exists>ps'. poll sysconf (select_ready rd wr ex) recv (-1) (Some ps) (of_nat (length ps)) timeout
      = Ok (Inr (length (filter (\<lambda>p. pl_revents p \<noteq> 0) ps')), Some ps', -1)
    \<and> length ps' = length ps
    \<and> (\<forall>i < length ps. pl_fd (ps' ! i) = pl_fd (ps ! i) \<and> pl_events (ps' ! i) = pl_events (ps ! i)
        \<and> reports rd wr ex (recv i) ps (ps ! i) (pl_revents (ps' ! i)))"
proof -
  obtain ptv where ptv: "poll_timeval timeout = Inr ptv"
    using poll_timeval_ok assms(3) by blast
  obtain maxfd where
    sets: "create_sets ps (length ps) \<lparr>rfds = {}, wfds = {}, efds = {}\<rparr> (-1)
       = Ok (Inr (\<lparr>rfds = wanted ps READ_EVENTS, wfds = wanted ps WRITE_EVENTS,
                 efds = wanted ps URGENT_EVENTS\<rparr>, maxfd))" and
    max: "\<forall>m \<in> {READ_EVENTS, WRITE_EVENTS, URGENT_EVENTS}. \<forall>fd \<in> wanted ps m. fd < maxfd + 1"
    using create_sets_eq[OF assms(1), of "\<lparr>rfds = {}, wfds = {}, efds = {}\<rparr>" "-1"] by auto
  let ?s = "\<lparr>rfds = {fd \<in> wanted ps READ_EVENTS. fd < maxfd + 1 \<and> rd fd},
       wfds = {fd \<in> wanted ps WRITE_EVENTS. fd < maxfd + 1 \<and> wr fd},
       efds = {fd \<in> wanted ps URGENT_EVENTS. fd < maxfd + 1 \<and> ex fd}\<rparr>"
  have "poll sysconf (select_ready rd wr ex) recv (-1) (Some ps) (of_nat (length ps)) timeout
      = Ok (Inr (length (filter (\<lambda>p. pl_revents p \<noteq> 0) (settle recv ?s 0 ps))), Some (settle recv ?s 0 ps), -1)"
    using assms by (simp add: poll_def ptv sets INT_MAX_word establish_eq select_ready_def)
  moreover have "reports rd wr ex (recv i) ps (ps ! i) (pl_revents (settle recv ?s 0 ps ! i))"
    if "i < length ps" for i
    using that poll_settled_reports[OF nth_mem[OF that] max] by (simp add: nth_enumerate_eq)
  ultimately show ?thesis
    by (intro exI[of _ "settle recv ?s 0 ps"]) (simp add: nth_enumerate_eq poll_settled_def)
qed

theorem poll_reports_witness:
  "\<exists>ps'. poll 1024 (select_ready (\<lambda>_. True) (\<lambda>_. False) (\<lambda>_. False)) (\<lambda>_. Received 3) (-1)
      (Some [\<lparr>pl_fd = 5, pl_events = 1, pl_revents = 0\<rparr>]) (of_nat 1) 250 = Ok (Inr 1, Some ps', -1)
    \<and> asks (pl_revents (hd ps')) POLLIN"
proof -
  let ?ps = "[\<lparr>pl_fd = 5, pl_events = 1, pl_revents = 0\<rparr>]"
  obtain ps' where *: "poll 1024 (select_ready (\<lambda>_. True) (\<lambda>_. False) (\<lambda>_. False)) (\<lambda>_. Received 3) (-1)
      (Some ?ps) (of_nat (length ?ps)) 250
      = Ok (Inr (length (filter (\<lambda>p. pl_revents p \<noteq> 0) ps')), Some ps', -1)"
    "length ps' = length ?ps"
    "\<forall>i < length ?ps. pl_fd (ps' ! i) = pl_fd (?ps ! i) \<and> pl_events (ps' ! i) = pl_events (?ps ! i)
      \<and> reports (\<lambda>_. True) (\<lambda>_. False) (\<lambda>_. False) (Received 3) ?ps (?ps ! i) (pl_revents (ps' ! i))"
    using poll_reports[of ?ps 250 1024 "\<lambda>_. True" "\<lambda>_. False" "\<lambda>_. False" "\<lambda>_. Received 3"]
    by (auto simp: FD_SETSIZE_def INT_MAX_def)
  then obtain q where q: "ps' = [q]" by (auto simp: length_Suc_conv)
  with *(3) have "asks (pl_revents q) POLLIN"
    by (simp add: reports_def asks_bits has_data_def)
  moreover from this have "pl_revents q \<noteq> 0" by (auto simp: asks_def)
  ultimately show ?thesis using *(1) q by auto
qed

text \<open>
  C35. With a timeout poll accepts and a select that succeeds, poll runs without undefined
  behaviour exactly when every descriptor of the array is below FD_SETSIZE: the test
  against FD_SETSIZE comes after the write it guards.
\<close>

theorem poll_defined_iff:
  assumes "length ps \<le> INT_MAX" and "-1 \<le> timeout" and "\<forall>n s t. \<exists>s'. select n s t = Inr s'"
  shows "(\<exists>v. poll sysconf select recv (-1) (Some ps) (of_nat (length ps)) timeout = Ok v)
    \<longleftrightarrow> (\<forall>p \<in> set ps. pl_fd p < FD_SETSIZE)"
proof -
  obtain ptv where ptv: "poll_timeval timeout = Inr ptv"
    using poll_timeval_ok assms(2) by blast
  have len: "unat (of_nat (length ps) :: 64 word) = length ps"
    using assms(1) by (rule INT_MAX_word)
  show ?thesis
  proof
    assume "\<forall>p \<in> set ps. pl_fd p < FD_SETSIZE"
    with assms poll_Ok show "\<exists>v. poll sysconf select recv (-1) (Some ps) (of_nat (length ps)) timeout = Ok v"
      by blast
  next
    assume "\<exists>v. poll sysconf select recv (-1) (Some ps) (of_nat (length ps)) timeout = Ok v"
    then obtain v where v: "poll sysconf select recv (-1) (Some ps) (of_nat (length ps)) timeout = Ok v" ..
    then obtain s m where sm: "create_sets ps (length ps) \<lparr>rfds = {}, wfds = {}, efds = {}\<rparr> (-1) = Ok (Inr (s, m))"
      by (cases "create_sets ps (length ps) \<lparr>rfds = {}, wfds = {}, efds = {}\<rparr> (-1)")
        (auto simp: poll_def ptv len create_sets_not_Inl split: sum.splits)
    obtain s' where s': "select (m + 1) s ptv = Inr s'" using assms(3) by blast
    with v sm obtain x where "establish recv s' 0 ps (length ps) 0 = Ok x"
      by (cases "establish recv s' 0 ps (length ps) 0") (auto simp: poll_def ptv len)
    with establish_Ok_bound show "\<forall>p \<in> set ps. pl_fd p < FD_SETSIZE" by fastforce
  qed
qed

theorem poll_defined_iff_witness:
  "(\<exists>v. poll 1024 (\<lambda>n s t. Inr s) (\<lambda>_. Received 0) (-1)
       (Some [\<lparr>pl_fd = 1023, pl_events = 1, pl_revents = 0\<rparr>]) (of_nat 1) (-1) = Ok v)
   \<and> \<not> (\<exists>v. poll 1024 (\<lambda>n s t. Inr s) (\<lambda>_. Received 0) (-1)
       (Some [\<lparr>pl_fd = 1024, pl_events = 1, pl_revents = 0\<rparr>]) (of_nat 1) (-1) = Ok v)"
  using poll_defined_iff[of "[\<lparr>pl_fd = 1023, pl_events = 1, pl_revents = 0\<rparr>]" "-1" "\<lambda>n s t. Inr s" 1024 "\<lambda>_. Received 0"]
    poll_defined_iff[of "[\<lparr>pl_fd = 1024, pl_events = 1, pl_revents = 0\<rparr>]" "-1" "\<lambda>n s t. Inr s" 1024 "\<lambda>_. Received 0"]
  by (simp add: FD_SETSIZE_def INT_MAX_def)

text \<open>
  The failures of poll, for any argument and any limit reported by sysconf: a null array
  with entries, a timeout below -1, or an error of select; the array is as it was, the static
  limit is never stored, and neither the limit nor EOVERFLOW is ever the reason.
\<close>

theorem poll_failures:
  "\<forall>err pfd' om. poll sysconf select recv (-1) pfd nfd timeout = Ok (Inl err, pfd', om)
     \<longrightarrow> pfd' = pfd \<and> om = -1
       \<and> (if pfd = None \<and> nfd \<noteq> 0 then err = EFAULT
          else if timeout < -1 then err = EINVAL else (\<exists>e. err = Select_failed e))"
proof (intro allI impI)
  fix err pfd' om
  assume *: "poll sysconf select recv (-1) pfd nfd timeout = Ok (Inl err, pfd', om)"
  let ?ps = "case pfd of None \<Rightarrow> [] | Some ps \<Rightarrow> ps"
  let ?sets = "create_sets ?ps (unat nfd) \<lparr>rfds = {}, wfds = {}, efds = {}\<rparr> (-1)"
  consider "pfd = None \<and> nfd \<noteq> 0" | "\<not> (pfd = None \<and> nfd \<noteq> 0)" "timeout < -1"
    | "\<not> (pfd = None \<and> nfd \<noteq> 0)" "\<not> timeout < -1" by blast
  then show "pfd' = pfd \<and> om = -1
       \<and> (if pfd = None \<and> nfd \<noteq> 0 then err = EFAULT
          else if timeout < -1 then err = EINVAL else (\<exists>e. err = Select_failed e))"
  proof cases
    case 3
    then obtain ptv where ptv: "poll_timeval timeout = Inr ptv"
      using poll_timeval_ok[of timeout] by auto
    have "poll sysconf select recv (-1) pfd nfd timeout
      = bind_res ?sets (\<lambda>x. case x of
            Inl err \<Rightarrow> Ok (Inl err, pfd, -1)
          | Inr (s, maxfd) \<Rightarrow>
              (case select (maxfd + 1) s ptv of
                 Inl err \<Rightarrow> Ok (Inl (Select_failed err), pfd, -1)
               | Inr s \<Rightarrow>
                   bind_res (establish recv s 0 ?ps (unat nfd) 0) (\<lambda>(ps, rc).
                   Ok (Inr rc, map_option (\<lambda>_. ps) pfd, -1))))"
      by (simp only: poll_def exceeds_open_max_start Let_def prod.case if_False if_not_P[OF 3(1)] ptv sum.case)
    with * obtain s m where "?sets = Ok (Inr (s, m))"
      by (cases ?sets) (auto simp: create_sets_not_Inl split: sum.splits)
    with * 3 ptv show ?thesis
      by (cases "select (m + 1) s ptv"; cases "establish recv (projr (select (m + 1) s ptv)) 0 ?ps (unat nfd) 0")
        (auto simp: poll_def)
  qed (use * in \<open>auto simp: poll_def poll_timeval_def\<close>)
qed

theorem poll_failures_witness:
  "\<exists>err. poll 5 (\<lambda>n s t. Inr s) (\<lambda>_. Received 0) (-1) (Some []) 0 (-2) = Ok (Inl err, Some [], -1) \<and> err = EINVAL"
proof -
  have run: "poll 5 (\<lambda>n s t. Inr s) (\<lambda>_. Received 0) (-1) (Some []) 0 (-2) = Ok (Inl EINVAL, Some [], -1)"
    by (simp add: poll_def poll_timeval_def)
  from poll_failures[rule_format, OF run] run show ?thesis by simp
qed

lemma poll_single:
  "fd < FD_SETSIZE \<Longrightarrow> \<exists>v pfd'. poll sysconf select recv (-1)
    (Some [\<lparr>pl_fd = fd, pl_events = ev, pl_revents = revents\<rparr>]) 1 (-1) = Ok (v, pfd', -1)"
  using poll_Ok[of "[\<lparr>pl_fd = fd, pl_events = ev, pl_revents = revents\<rparr>]" "-1"] by (simp add: INT_MAX_def)



end
