(* ===== verification/Win_Poll.thy ===== *)
theory Win_Poll
  imports Poll
begin

text \<open>
  The Windows branch of \<^verbatim>\<open>src/src/compat/poll.c\<close>.  Entries are classified into sockets
  and other handles, the process waits, and a second loop collects the events; the whole is
  repeated until there are events or the time is over.  What the system answers
  in each pass is a parameter, entry by entry.  Dispatching window messages
  is left out.
\<close>

unbundle bit_operations_syntax

section \<open>Handles\<close>

type_synonym win_handle = "64 word"

abbreviation FD_READ :: uint where "FD_READ \<equiv> 0x01"
abbreviation FD_WRITE :: uint where "FD_WRITE \<equiv> 0x02"
abbreviation FD_OOB :: uint where "FD_OOB \<equiv> 0x04"
abbreviation FD_ACCEPT :: uint where "FD_ACCEPT \<equiv> 0x08"
abbreviation FD_CONNECT :: uint where "FD_CONNECT \<equiv> 0x10"
abbreviation FD_CLOSE :: uint where "FD_CLOSE \<equiv> 0x20"

text \<open>FD_SETSIZE of winsock2.h.\<close>

definition WIN_FD_SETSIZE :: nat where "WIN_FD_SETSIZE = 64"

datatype file_type = FILE_TYPE_PIPE | FILE_TYPE_CHAR | FILE_TYPE_OTHER

datatype pipe_peek = Peeked uint | Broken_pipe | Peek_failed

text \<open>
  What the system answers about a handle: \<open>hs_enum\<close> the network events
  (\<open>None\<close>: WSAEnumNetworkEvents fails and leaves its argument alone), \<open>hs_signalled\<close> that
  WaitForSingleObject gives WAIT_OBJECT_0, \<open>hs_console\<close> the pending console events
  (\<open>None\<close>: not an input buffer), \<open>hs_input\<close> for each peeked console record whether it is a
  KEY_EVENT (\<open>None\<close>: the call fails).
\<close>

record handle_state =
  hs_enum :: "uint option"
  hs_type :: file_type
  hs_peek :: pipe_peek
  hs_signalled :: bool
  hs_console :: "nat option"
  hs_input :: "bool list option"
  hs_recv :: recv_answer

definition IsConsoleHandle :: "win_handle \<Rightarrow> bool" where
  "IsConsoleHandle h \<longleftrightarrow> h AND 3 = 3"

definition IsSocketHandle :: "handle_state \<Rightarrow> win_handle \<Rightarrow> bool" where
  "IsSocketHandle st h =
     (if IsConsoleHandle h then False
      else (case hs_enum st of None \<Rightarrow> 0xDEADBEEF | Some ev \<Rightarrow> ev) \<noteq> 0xDEADBEEF)"

text \<open>The events of a handle that is no socket, and what is left in \<open>*p_sought\<close>.\<close>

definition win32_compute_revents :: "handle_state \<Rightarrow> win_handle \<Rightarrow> uint \<Rightarrow> uint \<times> uint" where
  "win32_compute_revents st h sought =
     (case hs_type st of
        FILE_TYPE_PIPE \<Rightarrow>
          (case hs_peek st of
             Peeked avail \<Rightarrow> (if avail \<noteq> 0 then sought AND (POLLIN OR POLLRDNORM) else 0, sought)
           | Broken_pipe \<Rightarrow> (POLLHUP, sought)
           | Peek_failed \<Rightarrow> (sought AND (POLLOUT OR POLLWRNORM OR POLLWRBAND), sought))
      | FILE_TYPE_CHAR \<Rightarrow>
          if \<not> IsConsoleHandle h
          then (if hs_signalled st then sought AND NOT (POLLPRI OR POLLRDBAND) else 0, sought)
          else
            (case hs_console st of
               Some nbuffer \<Rightarrow>
                 let sought = sought AND (POLLIN OR POLLRDNORM) in
                 if nbuffer = 0 then (POLLHUP, sought)
                 else if sought = 0 then (0, sought)
                 else
                   (case hs_input st of
                      None \<Rightarrow> (POLLHUP, sought)
                    | Some irbuffer \<Rightarrow>
                        if irbuffer = [] then (POLLHUP, sought)
                        else if list_ex (\<lambda>key. key) irbuffer then (sought, sought) else (0, sought))
             | None \<Rightarrow>
                 let sought = sought AND (POLLOUT OR POLLWRNORM OR POLLWRBAND) in (sought, sought))
      | FILE_TYPE_OTHER \<Rightarrow>
          (if hs_signalled st then sought AND NOT (POLLPRI OR POLLRDBAND)
           else sought AND (POLLOUT OR POLLWRNORM OR POLLWRBAND), sought))"

definition win32_compute_revents_socket :: "handle_state \<Rightarrow> uint \<Rightarrow> uint \<Rightarrow> uint" where
  "win32_compute_revents_socket st sought lNetworkEvents =
     (let happened =
            (if lNetworkEvents AND (FD_READ OR FD_ACCEPT OR FD_CLOSE) = FD_ACCEPT
             then (POLLIN OR POLLRDNORM) AND sought
             else if lNetworkEvents AND (FD_READ OR FD_ACCEPT OR FD_CLOSE) \<noteq> 0
             then (case hs_recv st of
                     Received r \<Rightarrow> if r > 0 then (POLLIN OR POLLRDNORM) AND sought else POLLHUP
                   | Recv_failed error \<Rightarrow>
                       if error = ENOTCONN then (POLLIN OR POLLRDNORM) AND sought
                       else if error = ESHUTDOWN \<or> error = ECONNRESET \<or> error = ECONNABORTED
                             \<or> error = ENETRESET then POLLHUP
                       else POLLERR)
             else 0);
          happened =
            (if lNetworkEvents AND (FD_WRITE OR FD_CONNECT) \<noteq> 0
             then happened OR (POLLOUT OR POLLWRNORM OR POLLWRBAND) AND sought else happened)
      in if lNetworkEvents AND FD_OOB \<noteq> 0 then happened OR (POLLPRI OR POLLRDBAND) AND sought
         else happened)"

section \<open>One pass\<close>

abbreviation IO_EVENTS :: uint where
  "IO_EVENTS \<equiv> POLLIN OR POLLRDNORM OR POLLOUT OR POLLWRNORM OR POLLWRBAND"

abbreviation ANY_EVENTS :: uint where
  "ANY_EVENTS \<equiv> POLLIN OR POLLRDNORM OR POLLOUT OR POLLWRNORM OR POLLWRBAND OR POLLPRI OR POLLRDBAND"

declare asks_or [simp del]

text \<open>
  The answers of one pass: about the entry at each index in the two loops, the two calls of
  select, the results of MsgWaitForMultipleObjects (\<open>True\<close>: input of some other kind) for the
  handles and the time it is given, and the clock at the end.
\<close>

record win_sets =
  wr_set :: "win_handle list"
  ww_set :: "win_handle list"
  wx_set :: "win_handle list"

record win_pass =
  wp_first :: "nat \<Rightarrow> handle_state"
  wp_second :: "nat \<Rightarrow> handle_state"
  wp_select1 :: "win_sets \<Rightarrow> int \<times> win_sets"
  wp_select2 :: "win_sets \<Rightarrow> int \<times> win_sets"
  wp_waits :: "win_handle list \<Rightarrow> uint \<Rightarrow> bool list"
  wp_clock :: int

text \<open>
  The variables of the function: \<open>ws_handles\<close> the used part of handle_array, \<open>ws_selected\<close> the network events
  WSAEventSelect has tied to hEvent, \<open>ws_ev\<close> the variable ev (\<open>None\<close>: not yet written).
\<close>

record win_state =
  ws_handles :: "win_handle list"
  ws_sets :: win_sets
  ws_selected :: "win_handle \<Rightarrow> uint"
  ws_timeout :: int
  ws_ev :: "uint option"

text \<open>FD_SET of winsock2.h: no duplicates, and silently nothing when the set is full.\<close>

definition win_FD_SET :: "win_handle \<Rightarrow> win_handle list \<Rightarrow> win_handle list" where
  "win_FD_SET h s = (if h \<in> set s then s else if length s < WIN_FD_SETSIZE then s @ [h] else s)"

text \<open>A store to handle_array[nhandles], which has FD_SETSIZE + 2 cells.\<close>

definition push_handle :: "win_handle \<Rightarrow> win_handle list \<Rightarrow> win_handle list res" where
  "push_handle h hs =
     (if length hs < WIN_FD_SETSIZE + 2 then Ok (hs @ [h]) else Halt (Undef ''handle_array''))"

definition classify_socket :: "win_handle \<Rightarrow> 16 word \<Rightarrow> win_state \<Rightarrow> win_state" where
  "classify_socket h events s =
     (let requested = FD_CLOSE; sets = ws_sets s;
          (requested, sets) =
            (if asks events (POLLIN OR POLLRDNORM)
             then (requested OR (FD_READ OR FD_ACCEPT), sets\<lparr>wr_set := win_FD_SET h (wr_set sets)\<rparr>)
             else (requested, sets));
          (requested, sets) =
            (if asks events (POLLOUT OR POLLWRNORM OR POLLWRBAND)
             then (requested OR (FD_WRITE OR FD_CONNECT), sets\<lparr>ww_set := win_FD_SET h (ww_set sets)\<rparr>)
             else (requested, sets));
          (requested, sets) =
            (if asks events (POLLPRI OR POLLRDBAND)
             then (requested OR FD_OOB, sets\<lparr>wx_set := win_FD_SET h (wx_set sets)\<rparr>)
             else (requested, sets))
      in s\<lparr>ws_sets := sets,
           ws_selected := (if requested \<noteq> 0 then (ws_selected s)(h := requested) else ws_selected s)\<rparr>)"

text \<open>One turn of the first loop: the entry with its new revents.\<close>

definition classify :: "(int \<Rightarrow> win_handle) \<Rightarrow> handle_state \<Rightarrow> pollfd \<Rightarrow> win_state \<Rightarrow> (pollfd \<times> win_state) res" where
  "classify osf st p s =
     (let p0 = p\<lparr>pl_revents := 0\<rparr> in
      if pl_fd p < 0 then Ok (p0, s)
      else if \<not> asks (pl_events p) ANY_EVENTS then Ok (p0, s)
      else let h = osf (pl_fd p) in
      if h = 0 then Halt (Bug ''h != NULL'')
      else if IsSocketHandle st h then Ok (p0, classify_socket h (pl_events p) s)
      else
        let (happened, sought) = win32_compute_revents st h (scast (pl_events p)) in
        bind_res (if sought \<noteq> 0 then push_handle h (ws_handles s) else Ok (ws_handles s)) (\<lambda>hs.
        let p1 = p\<lparr>pl_revents := ucast happened\<rparr> in
        Ok (p1, s\<lparr>ws_handles := hs,
                  ws_timeout := (if pl_revents p1 \<noteq> 0 then 0 else ws_timeout s)\<rparr>)))"

fun classify_all :: "(int \<Rightarrow> win_handle) \<Rightarrow> (nat \<Rightarrow> handle_state) \<Rightarrow> nat \<Rightarrow> pollfd list \<Rightarrow> nat \<Rightarrow> win_state
    \<Rightarrow> (pollfd list \<times> win_state) res" where
  "classify_all osf st i ps 0 s = Ok (ps, s)"
| "classify_all osf st i [] (Suc n) s = Halt (Undef ''pfd read out of bounds'')"
| "classify_all osf st i (p # ps) (Suc n) s =
     bind_res (classify osf (st i) p s) (\<lambda>(p, s).
     bind_res (classify_all osf st (i + 1) ps n s) (\<lambda>(ps, s). Ok (p # ps, s)))"

text \<open>The loop around MsgWaitForMultipleObjects.\<close>

fun win_wait_loop :: "bool list \<Rightarrow> unit res" where
  "win_wait_loop [] = Halt Waits"
| "win_wait_loop (other_input # rets) = (if other_input then win_wait_loop rets else Ok ())"

text \<open>An entry the second loop takes for a socket.\<close>

definition collect_socket :: "handle_state \<Rightarrow> win_handle \<Rightarrow> pollfd \<Rightarrow> win_state \<Rightarrow> (uint \<times> win_state) res" where
  "collect_socket st h p s =
     (let s = s\<lparr>ws_ev := (case hs_enum st of None \<Rightarrow> ws_ev s | Some e \<Rightarrow> Some e),
                ws_selected := (ws_selected s)(h := 0)\<rparr> in
      case ws_ev s of
        None \<Rightarrow> Halt (Undef ''ev not initialised'')
      | Some ev \<Rightarrow>
          let ev = (if h \<in> set (wr_set (ws_sets s)) \<and> ev AND (FD_READ OR FD_ACCEPT) = 0
                    then ev OR (FD_READ OR FD_ACCEPT) else ev);
              ev = (if h \<in> set (ww_set (ws_sets s)) then ev OR (FD_WRITE OR FD_CONNECT) else ev);
              ev = (if h \<in> set (wx_set (ws_sets s)) then ev OR FD_OOB else ev)
          in Ok (win32_compute_revents_socket st (scast (pl_events p)) ev, s\<lparr>ws_ev := Some ev\<rparr>))"

text \<open>One turn of the second loop; \<open>k\<close> is nhandles, \<open>ws_handles\<close> ends with the sentinel.\<close>

definition collect :: "(int \<Rightarrow> win_handle) \<Rightarrow> handle_state \<Rightarrow> pollfd \<Rightarrow> nat \<Rightarrow> nat \<Rightarrow> win_state
    \<Rightarrow> (pollfd \<times> nat \<times> nat \<times> win_state) res" where
  "collect osf st p k rc s =
     (if pl_fd p < 0 then Ok (p, k, rc, s)
      else if \<not> asks (pl_events p) IO_EVENTS
      then Ok (p, k, rc, s)
      else let h = osf (pl_fd p) in
      if k \<ge> length (ws_handles s) then Halt (Undef ''handle_array'')
      else
        bind_res
          (if h \<noteq> ws_handles s ! k
           then bind_res (collect_socket st h p s) (\<lambda>(happened, s). Ok (happened, k, s))
           else Ok (fst (win32_compute_revents st h (scast (pl_events p))), k + 1, s))
          (\<lambda>(happened, k, s).
        let p = p\<lparr>pl_revents := ucast (scast (pl_revents p) OR happened)\<rparr> in
        if pl_revents p = 0 then Ok (p, k, rc, s)
        else if rc = INT_MAX then Halt (Undef ''integer overflow'') else Ok (p, k, rc + 1, s)))"

fun collect_all :: "(int \<Rightarrow> win_handle) \<Rightarrow> (nat \<Rightarrow> handle_state) \<Rightarrow> nat \<Rightarrow> pollfd list \<Rightarrow> nat \<Rightarrow> nat \<Rightarrow> nat
    \<Rightarrow> win_state \<Rightarrow> (pollfd list \<times> nat \<times> win_state) res" where
  "collect_all osf st i ps 0 k rc s = Ok (ps, rc, s)"
| "collect_all osf st i [] (Suc n) k rc s = Halt (Undef ''pfd read out of bounds'')"
| "collect_all osf st i (p # ps) (Suc n) k rc s =
     bind_res (collect osf (st i) p k rc s) (\<lambda>(p, k, rc, s).
     bind_res (collect_all osf st (i + 1) ps n k rc s) (\<lambda>(ps, rc, s). Ok (p # ps, rc, s)))"

abbreviation INFINITE :: uint where "INFINITE \<equiv> 0xFFFFFFFF"

text \<open>From the label restart to the test whether to go back to it.\<close>

definition win_poll_pass :: "(int \<Rightarrow> win_handle) \<Rightarrow> win_pass \<Rightarrow> win_handle \<Rightarrow> int \<Rightarrow> int \<Rightarrow> pollfd list \<Rightarrow> nat
    \<Rightarrow> win_state \<Rightarrow> (pollfd list \<times> nat \<times> win_state) res" where
  "win_poll_pass osf env hEvent start orig_timeout ps nfd s =
     (let s = s\<lparr>ws_handles := [hEvent], ws_sets := \<lparr>wr_set = [], ww_set = [], wx_set = []\<rparr>\<rparr> in
      bind_res (classify_all osf (wp_first env) 0 ps nfd s) (\<lambda>(ps, s).
      let (ready, sets) = wp_select1 env (ws_sets s);
          poll_again = (\<not> ready > 0);
          wait_timeout = (if ready > 0 then 0
                          else if ws_timeout s = -1 then INFINITE else of_int (ws_timeout s)) in
      bind_res (win_wait_loop (wp_waits env (ws_handles s) wait_timeout)) (\<lambda>_.
      let sets = (if poll_again then snd (wp_select2 env sets) else sets) in
      bind_res (push_handle 0 (ws_handles s)) (\<lambda>hs.
      bind_res (collect_all osf (wp_second env) 0 ps nfd 1 0 (s\<lparr>ws_handles := hs, ws_sets := sets\<rparr>)) (\<lambda>(ps, rc, s).
      let timeout =
            (if rc = 0 \<and> orig_timeout \<noteq> 0 \<and> ws_timeout s \<noteq> -1
             then let elapsed = (wp_clock env - start) mod 2 ^ 64
                  in if elapsed \<ge> orig_timeout then 0 else orig_timeout - elapsed
             else ws_timeout s)
      in Ok (ps, rc, s\<lparr>ws_timeout := timeout\<rparr>))))))"

text \<open>The passes from number \<open>k\<close> on; \<open>None\<close> when they never end.\<close>

partial_function (option) win_poll_loop :: "(int \<Rightarrow> win_handle) \<Rightarrow> (nat \<Rightarrow> win_pass) \<Rightarrow> win_handle \<Rightarrow> int \<Rightarrow> int
    \<Rightarrow> nat \<Rightarrow> pollfd list \<Rightarrow> nat \<Rightarrow> win_state \<Rightarrow> (nat \<times> pollfd list) res option" where
  "win_poll_loop osf env hEvent start orig_timeout k ps nfd s =
     (case win_poll_pass osf (env k) hEvent start orig_timeout ps nfd s of
        Halt h \<Rightarrow> Some (Halt h)
      | Ok (ps, rc, s) \<Rightarrow>
          if rc = 0 \<and> ws_timeout s \<noteq> 0
          then win_poll_loop osf env hEvent start orig_timeout (k + 1) ps nfd s
          else Some (Ok (rc, ps)))"

text \<open>
  \<open>hEvent\<close> is the static event (0 before the first call), \<open>event\<close> what CreateEvent returns,
  \<open>start\<close> the clock on entry.  The result comes with the static event after the call.
\<close>

definition win_poll :: "(int \<Rightarrow> win_handle) \<Rightarrow> (nat \<Rightarrow> win_pass) \<Rightarrow> win_handle \<Rightarrow> win_handle \<Rightarrow> int \<Rightarrow> (win_handle \<Rightarrow> uint)
    \<Rightarrow> pollfd list \<Rightarrow> 64 word \<Rightarrow> int \<Rightarrow> ((poll_errno + nat \<times> pollfd list) res \<times> win_handle) option" where
  "win_poll osf env event hEvent start selected ps nfd timeout =
     (if timeout < -1 then Some (Ok (Inl EINVAL), hEvent)
      else
        let orig_timeout = (if timeout \<noteq> -1 then timeout else 0);
            start = (if timeout \<noteq> -1 then start else 0);
            hEvent = (if hEvent = 0 then event else hEvent);
            s = \<lparr>ws_handles = [], ws_sets = \<lparr>wr_set = [], ww_set = [], wx_set = []\<rparr>,
                 ws_selected = selected, ws_timeout = timeout, ws_ev = None\<rparr> in
        map_option (\<lambda>r. (bind_res r (\<lambda>x. Ok (Inr x)), hEvent))
          (win_poll_loop osf env hEvent start orig_timeout 0 ps (unat nfd) s))"

section \<open>Entries\<close>

text \<open>What no pass changes of an entry, and what every pass makes of its events.\<close>

definition same_entry :: "pollfd \<Rightarrow> pollfd \<Rightarrow> bool" where
  "same_entry p q \<longleftrightarrow> pl_fd q = pl_fd p \<and> pl_events q = pl_events p"

definition sound_entry :: "pollfd \<Rightarrow> bool" where
  "sound_entry p \<longleftrightarrow> (pl_fd p < 0 \<longrightarrow> pl_revents p = 0)
     \<and> (\<forall>n. bit (pl_revents p) n \<longrightarrow> n \<in> {3, 4} \<or> bit (pl_events p) n)"

text \<open>The entries the second loop looks at, with events: those the result counts.\<close>

definition counted :: "pollfd \<Rightarrow> bool" where
  "counted p \<longleftrightarrow> pl_revents p \<noteq> 0 \<and> asks (pl_events p) IO_EVENTS"

lemma same_entry_refl [simp]: "same_entry p p"
  by (simp add: same_entry_def)

lemma same_entry_trans: "same_entry p q \<Longrightarrow> same_entry q r \<Longrightarrow> same_entry p r"
  by (simp add: same_entry_def)

lemma same_entries_trans:
  "list_all2 same_entry ps qs \<Longrightarrow> list_all2 same_entry qs rs \<Longrightarrow> list_all2 same_entry ps rs"
  by (rule list_all2_trans[of same_entry same_entry same_entry, OF same_entry_trans])

lemma win32_compute_revents_bits:
  "bit (fst (win32_compute_revents st h sought)) n \<Longrightarrow> n = 4 \<or> bit sought n"
  by (auto simp: win32_compute_revents_def Let_def bit_simps
      split: file_type.splits pipe_peek.splits option.splits if_splits)

lemma win32_compute_revents_socket_bits:
  "bit (win32_compute_revents_socket st sought ev) n \<Longrightarrow> n \<in> {3, 4} \<or> bit sought n"
  by (auto simp: win32_compute_revents_socket_def Let_def bit_simps
      split: recv_answer.splits if_splits)

lemma short_bits:
  "bit (ucast (x :: uint) :: 16 word) n \<Longrightarrow> n < 16 \<and> bit x n"
  "n < 16 \<Longrightarrow> bit (scast (ev :: 16 word) :: uint) n \<longleftrightarrow> bit ev n"
  by (auto simp: bit_simps bit_signed_iff bit_unsigned_iff min_def, cases "n = 15", auto, cases "n = 15", auto)

lemma sound_entry_store:
  assumes "\<And>n. bit h n \<Longrightarrow> n \<in> {3, 4} \<or> bit (scast (pl_events p) :: uint) n" and "0 \<le> pl_fd p"
  shows "sound_entry (p\<lparr>pl_revents := ucast (h :: uint)\<rparr>)"
  using assms short_bits by (fastforce simp: sound_entry_def)

lemma classify_Ok:
  assumes "classify osf st p s = Ok (p', s')"
  shows "same_entry p p' \<and> sound_entry p' \<and> (ws_timeout s' = 0 \<or> ws_timeout s' = ws_timeout s)"
proof -
  obtain happened sought where h: "win32_compute_revents st (osf (pl_fd p)) (scast (pl_events p)) = (happened, sought)"
    by fastforce
  have "sound_entry (p\<lparr>pl_revents := ucast happened\<rparr>)" if "\<not> pl_fd p < 0"
    using that h win32_compute_revents_bits[of st "osf (pl_fd p)" "scast (pl_events p)"]
    by (intro sound_entry_store) auto
  then show ?thesis
    using assms h
    by (cases "push_handle (osf (pl_fd p)) (ws_handles s)")
      (auto simp: classify_def classify_socket_def Let_def same_entry_def sound_entry_def split: if_splits)
qed

lemma classify_all_Ok:
  "classify_all osf st i ps (length ps) s = Ok (ps', s') \<Longrightarrow>
   list_all2 same_entry ps ps' \<and> list_all sound_entry ps' \<and> (ws_timeout s' = 0 \<or> ws_timeout s' = ws_timeout s)"
proof (induction ps arbitrary: i s ps' s')
  case (Cons p ps)
  obtain p1 s1 where 1: "classify osf (st i) p s = Ok (p1, s1)"
    using Cons.prems by (cases "classify osf (st i) p s") auto
  then obtain ps2 where 2: "classify_all osf st (i + 1) ps (length ps) s1 = Ok (ps2, s')" "ps' = p1 # ps2"
    using Cons.prems by (cases "classify_all osf st (i + 1) ps (length ps) s1") auto
  from classify_Ok[OF 1] Cons.IH[OF 2(1)] 2(2) show ?case by auto
qed simp

lemma collect_socket_Ok:
  assumes "collect_socket st h p s = Ok (happened, s')"
  shows "ws_timeout s' = ws_timeout s \<and> ws_handles s' = ws_handles s
    \<and> (bit happened n \<longrightarrow> n \<in> {3, 4} \<or> bit (scast (pl_events p) :: uint) n)"
  using assms win32_compute_revents_socket_bits[of st "scast (pl_events p)" _ n]
  by (auto simp: collect_socket_def Let_def split: option.splits)

lemma collect_Ok:
  assumes sound: "sound_entry p" and run: "collect osf st p k rc s = Ok (p', k', rc', s')"
  shows "same_entry p p' \<and> sound_entry p' \<and> rc' = rc + (if counted p' then 1 else 0)
    \<and> ws_timeout s' = ws_timeout s"
proof -
  let ?h = "osf (pl_fd p)"
  let ?skip = "pl_fd p < 0 \<or> \<not> asks (pl_events p) IO_EVENTS"
  show ?thesis
  proof (cases ?skip)
    case True
    then have "collect osf st p k rc s = Ok (p, k, rc, s)" by (elim disjE) (simp_all add: collect_def)
    with True sound run show ?thesis by (auto simp: counted_def sound_entry_def)
  next
    case False
    from run False obtain happened k1 s1 where *: "(if ?h \<noteq> ws_handles s ! k
           then bind_res (collect_socket st ?h p s) (\<lambda>(happened, s). Ok (happened, k, s))
           else Ok (fst (win32_compute_revents st ?h (scast (pl_events p))), k + 1, s)) = Ok (happened, k1, s1)"
      by (cases "if ?h \<noteq> ws_handles s ! k
           then bind_res (collect_socket st ?h p s) (\<lambda>(happened, s). Ok (happened, k, s))
           else Ok (fst (win32_compute_revents st ?h (scast (pl_events p))), k + 1, s)")
        (auto simp: collect_def Let_def split: if_splits)
    have hap: "bit happened n \<Longrightarrow> n \<in> {3, 4} \<or> bit (scast (pl_events p) :: uint) n" for n
      using * collect_socket_Ok[of st ?h p s happened s1 n] win32_compute_revents_bits[of st ?h "scast (pl_events p)" n]
      by (cases "collect_socket st ?h p s") (auto split: if_splits)
    have t: "ws_timeout s1 = ws_timeout s"
      using * collect_socket_Ok[of st ?h p s happened s1]
      by (cases "collect_socket st ?h p s") (auto split: if_splits)
    have old: "bit (scast (pl_revents p) :: uint) n \<Longrightarrow> n \<in> {3, 4} \<or> bit (scast (pl_events p) :: uint) n" for n
      using sound by (auto simp: sound_entry_def bit_signed_iff)
    have "sound_entry (p\<lparr>pl_revents := ucast (scast (pl_revents p) OR happened)\<rparr>)"
      using False hap old by (intro sound_entry_store) (auto simp: bit_simps)
    with run False * t show ?thesis
      by (auto simp: collect_def Let_def same_entry_def counted_def split: if_splits)
  qed
qed

lemma collect_all_Ok:
  "collect_all osf st i ps (length ps) k rc s = Ok (ps', rc', s') \<Longrightarrow> list_all sound_entry ps \<Longrightarrow>
   list_all2 same_entry ps ps' \<and> list_all sound_entry ps' \<and> rc' = rc + length (filter counted ps')
   \<and> ws_timeout s' = ws_timeout s"
proof (induction ps arbitrary: i k rc s ps' rc' s')
  case (Cons p ps)
  obtain p1 k1 rc1 s1 where 1: "collect osf (st i) p k rc s = Ok (p1, k1, rc1, s1)"
    using Cons.prems by (cases "collect osf (st i) p k rc s") auto
  then obtain ps2 where 2: "collect_all osf st (i + 1) ps (length ps) k1 rc1 s1 = Ok (ps2, rc', s')" "ps' = p1 # ps2"
    using Cons.prems by (cases "collect_all osf st (i + 1) ps (length ps) k1 rc1 s1") auto
  from collect_Ok[OF _ 1] Cons.IH[OF 2(1)] 2(2) Cons.prems(2) show ?case by auto
qed simp

section \<open>A pass and the passes\<close>

text \<open>The end of a pass: its clock against the time limit.\<close>

abbreviation elapsed :: "win_pass \<Rightarrow> int \<Rightarrow> int" where
  "elapsed env start \<equiv> (wp_clock env - start) mod 2 ^ 64"

lemma win_poll_pass_Ok:
  assumes "win_poll_pass osf env hEvent start orig ps (length ps) s = Ok (ps', rc, s')"
  shows "list_all2 same_entry ps ps' \<and> list_all sound_entry ps' \<and> rc = length (filter counted ps')
    \<and> (rc = 0 \<and> orig > 0 \<and> ws_timeout s \<ge> 0
       \<longrightarrow> ws_timeout s' = (if elapsed env start \<ge> orig then 0 else orig - elapsed env start))
    \<and> (ws_timeout s = 0 \<and> orig = 0 \<longrightarrow> ws_timeout s' = 0)"
proof -
  let ?s = "s\<lparr>ws_handles := [hEvent], ws_sets := \<lparr>wr_set = [], ww_set = [], wx_set = []\<rparr>\<rparr>"
  obtain ps1 s1 where 1: "classify_all osf (wp_first env) 0 ps (length ps) ?s = Ok (ps1, s1)"
    using assms by (cases "classify_all osf (wp_first env) 0 ps (length ps) ?s")
      (auto simp: win_poll_pass_def Let_def)
  note c1 = classify_all_Ok[OF 1]
  have len: "length ps = length ps1" using c1 by (auto dest: list_all2_lengthD)
  obtain ready sets where sel: "wp_select1 env (ws_sets s1) = (ready, sets)" by fastforce
  let ?sets = "if \<not> ready > 0 then snd (wp_select2 env sets) else sets"
  let ?wait = "if ready > 0 then 0 else if ws_timeout s1 = -1 then INFINITE else of_int (ws_timeout s1)"
  have wait: "win_wait_loop (wp_waits env (ws_handles s1) ?wait) = Ok ()"
    using assms by (cases "win_wait_loop (wp_waits env (ws_handles s1) ?wait)")
      (auto simp: win_poll_pass_def Let_def 1 sel)
  obtain hs where hs: "push_handle 0 (ws_handles s1) = Ok hs"
    using assms by (cases "push_handle 0 (ws_handles s1)") (auto simp: win_poll_pass_def Let_def 1 sel wait)
  let ?s1 = "s1\<lparr>ws_handles := hs, ws_sets := ?sets\<rparr>"
  obtain s2 where 2: "collect_all osf (wp_second env) 0 ps1 (length ps) 1 0 ?s1 = Ok (ps', rc, s2)"
      and s': "ws_timeout s' = (if rc = 0 \<and> orig \<noteq> 0 \<and> ws_timeout s2 \<noteq> -1
             then if elapsed env start \<ge> orig then 0 else orig - elapsed env start else ws_timeout s2)"
    using assms by (cases "collect_all osf (wp_second env) 0 ps1 (length ps) 1 0 ?s1")
      (auto simp: win_poll_pass_def Let_def 1 sel wait hs)
  from collect_all_Ok[OF 2[unfolded len]] c1 have c2: "list_all2 same_entry ps1 ps'" "list_all sound_entry ps'"
    "rc = length (filter counted ps')" "ws_timeout s2 = ws_timeout s1" by auto
  have "list_all2 same_entry ps ps'" using same_entries_trans[OF _ c2(1)] c1 by blast
  with c1 c2 s' show ?thesis by auto
qed

lemma win_poll_loop_induct [consumes 1, case_names halts ends again]:
  assumes "win_poll_loop osf env hE st orig k ps n s = Some y"
    and halts: "\<And>k ps s h. win_poll_pass osf (env k) hE st orig ps n s = Halt h \<Longrightarrow> P k ps s (Halt h)"
    and ends: "\<And>k ps s ps' rc s'. win_poll_pass osf (env k) hE st orig ps n s = Ok (ps', rc, s') \<Longrightarrow>
      rc \<noteq> 0 \<or> ws_timeout s' = 0 \<Longrightarrow> P k ps s (Ok (rc, ps'))"
    and again: "\<And>k ps s ps' s' y. win_poll_pass osf (env k) hE st orig ps n s = Ok (ps', 0, s') \<Longrightarrow>
      ws_timeout s' \<noteq> 0 \<Longrightarrow> P (k + 1) ps' s' y \<Longrightarrow> P k ps s y"
  shows "P k ps s y"
proof -
  have "osf = osf \<and> env = env \<and> hE = hE \<and> st = st \<and> orig = orig \<and> n = n \<longrightarrow> P k ps s y"
  proof (rule win_poll_loop.raw_induct[where P = "\<lambda>osf' env' hE' st' orig' k ps n' s y.
      osf' = osf \<and> env' = env \<and> hE' = hE \<and> st' = st \<and> orig' = orig \<and> n' = n \<longrightarrow> P k ps s y", OF _ assms(1)])
    fix loop osf' env' hE' st' orig' k ps n' s y
    assume IH: "\<And>osf' env' hE' st' orig' k ps n' s y. loop osf' env' hE' st' orig' k ps n' s = Some y \<Longrightarrow>
        osf' = osf \<and> env' = env \<and> hE' = hE \<and> st' = st \<and> orig' = orig \<and> n' = n \<longrightarrow> P k ps s y"
      and run: "(case win_poll_pass osf' (env' k) hE' st' orig' ps n' s of
        Ok (ps, rc, s) \<Rightarrow> if rc = 0 \<and> ws_timeout s \<noteq> 0 then loop osf' env' hE' st' orig' (k + 1) ps n' s
                          else Some (Ok (rc, ps))
      | Halt h \<Rightarrow> Some (Halt h)) = Some y"
    show "osf' = osf \<and> env' = env \<and> hE' = hE \<and> st' = st \<and> orig' = orig \<and> n' = n \<longrightarrow> P k ps s y"
      using run IH[of osf env hE st orig "k + 1" _ n _ y] halts ends again
      by (auto split: res.splits if_splits)
  qed
  then show ?thesis by simp
qed

text \<open>
  C39. Whatever the Windows branch of poll returns without an error: the array keeps its descriptors and
  requests, an entry with a negative descriptor has no events, no entry shows more than what
  it asked for, POLLERR and POLLHUP, and the value is the number of entries with events among
  those that ask for input or output.
\<close>

theorem win_poll_result:
  assumes "win_poll osf env event hEvent start selected ps (of_nat (length ps)) timeout
       = Some (Ok (Inr (rc, ps')), ev)" and "length ps < 2 ^ 64"
  shows "list_all2 same_entry ps ps' \<and> list_all sound_entry ps' \<and> rc = length (filter counted ps')"
proof -
  have len: "unat (of_nat (length ps) :: 64 word) = length ps"
    using assms(2) by (simp add: unsigned_of_nat take_bit_nat_eq_self_iff)
  have loop: "y = Ok (rc, ps') \<Longrightarrow> n = length ps \<Longrightarrow>
      list_all2 same_entry ps ps' \<and> list_all sound_entry ps' \<and> rc = length (filter counted ps')"
    if "win_poll_loop osf env hE st orig k ps n s = Some y" for hE st orig k ps n s y
    using that
  proof (induction rule: win_poll_loop_induct)
    case (ends k ps s ps'' rc' s')
    then show ?case using win_poll_pass_Ok by fastforce
  next
    case (again k ps s qs s' y)
    then have "list_all2 same_entry ps qs" using win_poll_pass_Ok by metis
    with again show ?case
      by (metis list_all2_lengthD same_entries_trans)
  qed simp
  from assms len obtain hE st orig s where
    "win_poll_loop osf env hE st orig 0 ps (length ps) s = Some (Ok (rc, ps'))"
    by (auto simp: win_poll_def Let_def split: if_splits elim: bind_res.elims)
  with loop show ?thesis by blast
qed

section \<open>Waiting until the deadline\<close>

lemma classify_not_Waits: "classify osf st p s \<noteq> Halt Waits"
  by (simp add: classify_def push_handle_def Let_def split: prod.split)

lemma classify_all_not_Waits: "classify_all osf st i ps n s \<noteq> Halt Waits"
proof (induction osf st i ps n s rule: classify_all.induct)
  case (3 osf st i p ps n s)
  show ?case
  proof (cases "classify osf (st i) p s")
    case (Ok x)
    with 3[of x "fst x" "snd x"] show ?thesis
      by (cases x; cases "classify_all osf st (i + 1) ps n (snd x)") auto
  qed (use classify_not_Waits in auto)
qed simp_all

lemma collect_socket_not_Waits: "collect_socket st h p s \<noteq> Halt Waits"
  by (simp add: collect_socket_def Let_def split: option.split)

lemma collect_not_Waits: "collect osf st p k rc s \<noteq> Halt Waits"
proof (cases "collect_socket st (osf (pl_fd p)) p s")
  case (Ok x)
  then show ?thesis by (cases x) (simp add: collect_def Let_def)
next
  case (Halt h)
  with collect_socket_not_Waits have "h \<noteq> Waits" by metis
  with Halt show ?thesis by (simp add: collect_def Let_def)
qed

lemma collect_all_not_Waits: "collect_all osf st i ps n k rc s \<noteq> Halt Waits"
proof (induction n arbitrary: i ps k rc s)
  case (Suc n)
  show ?case
  proof (cases ps)
    case (Cons p qs)
    show ?thesis
    proof (cases "collect osf (st i) p k rc s")
      case (Ok x)
      obtain p' k' rc' s' where x: "x = (p', k', rc', s')" by (cases x)
      show ?thesis
      proof (cases "collect_all osf st (i + 1) qs n k' rc' s'")
        case (Halt h)
        with Suc[of "i + 1" qs k' rc' s'] have "h \<noteq> Waits" by auto
        with Ok x Cons Halt show ?thesis by simp
      qed (use Ok x Cons in \<open>simp split: prod.split\<close>)
    next
      case (Halt h)
      with collect_not_Waits have "h \<noteq> Waits" by metis
      with Halt Cons show ?thesis by simp
    qed
  qed simp
qed simp

lemma win_wait_loop_Ok: "False \<in> set rets \<Longrightarrow> win_wait_loop rets = Ok ()"
  by (induction rets) auto

lemma win_poll_pass_not_Waits:
  assumes "\<And>hs t. False \<in> set (wp_waits env hs t)"
  shows "win_poll_pass osf env hEvent start orig ps n s \<noteq> Halt Waits"
proof -
  let ?s = "s\<lparr>ws_handles := [hEvent], ws_sets := \<lparr>wr_set = [], ww_set = [], wx_set = []\<rparr>\<rparr>"
  show ?thesis
  proof (cases "classify_all osf (wp_first env) 0 ps n ?s")
    case (Halt h)
    with classify_all_not_Waits show ?thesis by (auto simp: win_poll_pass_def Let_def)
  next
    case (Ok x)
    obtain ps1 s1 where x: "x = (ps1, s1)" by (cases x)
    obtain ready sets where sel: "wp_select1 env (ws_sets s1) = (ready, sets)" by fastforce
    let ?sets = "if \<not> ready > 0 then snd (wp_select2 env sets) else sets"
    show ?thesis
    proof (cases "push_handle 0 (ws_handles s1)")
      case (Halt h)
      then show ?thesis
        by (auto simp: win_poll_pass_def Let_def Ok x sel win_wait_loop_Ok[OF assms] push_handle_def split: if_splits)
    next
      case hs: (Ok hs)
      show ?thesis
        using collect_all_not_Waits[of osf "wp_second env" 0 ps1 n 1 0 "s1\<lparr>ws_handles := hs, ws_sets := ?sets\<rparr>"]
        by (cases "collect_all osf (wp_second env) 0 ps1 n 1 0 (s1\<lparr>ws_handles := hs, ws_sets := ?sets\<rparr>)")
          (auto simp: win_poll_pass_def Let_def Ok x sel win_wait_loop_Ok[OF assms] hs)
    qed
  qed
qed

lemma elapsed_nonneg [simp]: "0 \<le> elapsed env start"
  by simp

text \<open>The limit of time is never below zero once it was set, and a pass at the deadline is the last one.\<close>

lemma win_poll_loop_returns:
  assumes "\<And>k hs t. False \<in> set (wp_waits (env k) hs t)"
    and "orig > 0" and "elapsed (env (k + m)) start \<ge> orig"
  shows "ws_timeout s \<ge> 0 \<Longrightarrow>
    \<exists>v. win_poll_loop osf env hE start orig k ps (length ps) s = Some v \<and> v \<noteq> Halt Waits"
  using assms(3)
proof (induction m arbitrary: k ps s)
  case (0 k ps s)
  show ?case
  proof (cases "win_poll_pass osf (env k) hE start orig ps (length ps) s")
    case (Ok x)
    obtain ps' rc s' where x: "x = (ps', rc, s')" by (cases x)
    with Ok 0 assms(2) win_poll_pass_Ok[of osf "env k" hE start orig ps s ps' rc s']
    have "rc \<noteq> 0 \<or> ws_timeout s' = 0" by auto
    with Ok x show ?thesis by (subst win_poll_loop.simps) auto
  next
    case (Halt h)
    then show ?thesis using win_poll_pass_not_Waits[OF assms(1), of osf k hE start orig ps "length ps" s]
      by (subst win_poll_loop.simps) auto
  qed
next
  case (Suc m k ps s)
  show ?case
  proof (cases "win_poll_pass osf (env k) hE start orig ps (length ps) s")
    case (Ok x)
    obtain ps' rc s' where x: "x = (ps', rc, s')" by (cases x)
    show ?thesis
    proof (cases "rc = 0 \<and> ws_timeout s' \<noteq> 0")
      case True
      with Ok x Suc.prems assms(2) win_poll_pass_Ok[of osf "env k" hE start orig ps s ps' rc s']
      have "ws_timeout s' \<ge> 0" "length ps' = length ps" by (auto dest: list_all2_lengthD)
      with Suc.IH[of s' "k + 1" ps'] Suc.prems(2) Ok x True show ?thesis
        by (subst win_poll_loop.simps) auto
    next
      case False
      with Ok x show ?thesis by (subst win_poll_loop.simps) auto
    qed
  next
    case (Halt h)
    then show ?thesis using win_poll_pass_not_Waits[OF assms(1), of osf k hE start orig ps "length ps" s]
      by (subst win_poll_loop.simps) auto
  qed
qed

text \<open>With a limit of 0 the first pass is the last one.\<close>

lemma win_poll_loop_once:
  assumes "\<And>k hs t. False \<in> set (wp_waits (env k) hs t)" and "ws_timeout s = 0"
  shows "\<exists>v. win_poll_loop osf env hE start 0 k ps (length ps) s = Some v \<and> v \<noteq> Halt Waits"
proof (cases "win_poll_pass osf (env k) hE start 0 ps (length ps) s")
  case (Ok x)
  obtain ps' rc s' where x: "x = (ps', rc, s')" by (cases x)
  with Ok assms(2) win_poll_pass_Ok[of osf "env k" hE start 0 ps s ps' rc s'] have "ws_timeout s' = 0" by auto
  with Ok x show ?thesis by (subst win_poll_loop.simps) auto
next
  case (Halt h)
  then show ?thesis using win_poll_pass_not_Waits[OF assms(1), of osf k hE start 0 ps "length ps" s]
    by (subst win_poll_loop.simps) auto
qed

text \<open>
  C38. The Windows branch of poll with a limit of time comes back: if every wait for messages ends and some
  pass ends after the deadline (or the limit is 0, or the call is refused), it returns.
\<close>

theorem win_poll_returns:
  assumes "\<And>k hs t. False \<in> set (wp_waits (env k) hs t)"
    and "timeout > 0 \<longrightarrow> (\<exists>k. elapsed (env k) start \<ge> timeout)"
    and "timeout \<noteq> -1" and "length ps < 2 ^ 64"
  shows "\<exists>v ev. win_poll osf env event hEvent start selected ps (of_nat (length ps)) timeout = Some (v, ev)
    \<and> v \<noteq> Halt Waits"
proof (cases "timeout > 0")
  case True
  then obtain m where "elapsed (env (0 + m)) start \<ge> timeout" using assms(2) by auto
  note loop = win_poll_loop_returns[where env = env and k = 0, OF assms(1) True this]
  have len: "unat (of_nat (length ps) :: 64 word) = length ps"
    using assms(4) by (simp add: unsigned_of_nat take_bit_nat_eq_self_iff)
  let ?s = "\<lparr>ws_handles = [], ws_sets = \<lparr>wr_set = [], ww_set = [], wx_set = []\<rparr>,
                 ws_selected = selected, ws_timeout = timeout, ws_ev = None\<rparr>"
  obtain v where "win_poll_loop osf env (if hEvent = 0 then event else hEvent) start timeout 0 ps (length ps) ?s = Some v"
    "v \<noteq> Halt Waits"
    using loop[of ?s osf "if hEvent = 0 then event else hEvent" ps] True by auto
  then show ?thesis using True by (cases v) (auto simp: win_poll_def Let_def len)
next
  case False
  then consider "timeout < -1" | "timeout = 0" using assms(3) by linarith
  then show ?thesis
  proof cases
    case 1
    then show ?thesis by (simp add: win_poll_def)
  next
    case 2
    have len: "unat (of_nat (length ps) :: 64 word) = length ps"
      using assms(4) by (simp add: unsigned_of_nat take_bit_nat_eq_self_iff)
    let ?s = "\<lparr>ws_handles = [], ws_sets = \<lparr>wr_set = [], ww_set = [], wx_set = []\<rparr>,
          ws_selected = selected, ws_timeout = 0, ws_ev = None\<rparr>"
    have "\<exists>v. win_poll_loop osf env (if hEvent = 0 then event else hEvent) start 0 0 ps (length ps) ?s = Some v
        \<and> v \<noteq> Halt Waits"
      by (rule win_poll_loop_once) (simp_all add: assms(1))
    then obtain v where "win_poll_loop osf env (if hEvent = 0 then event else hEvent) start 0 0 ps (length ps) ?s = Some v"
      "v \<noteq> Halt Waits" by blast
    then show ?thesis using 2 by (cases v) (auto simp: win_poll_def Let_def len)
  qed
qed

text \<open>A pass about one pipe with \<open>avail\<close> bytes to read, ending when the clock shows \<open>now\<close>.\<close>

definition pipe_pass :: "uint \<Rightarrow> int \<Rightarrow> win_pass" where
  "pipe_pass avail now =
     (let st = \<lparr>hs_enum = None, hs_type = FILE_TYPE_PIPE, hs_peek = Peeked avail, hs_signalled = False,
                hs_console = None, hs_input = None, hs_recv = Received 0\<rparr>
      in \<lparr>wp_first = \<lambda>_. st, wp_second = \<lambda>_. st, wp_select1 = \<lambda>s. (-1, s), wp_select2 = \<lambda>s. (-1, s),
          wp_waits = \<lambda>_ _. [False], wp_clock = now\<rparr>)"

theorem win_poll_returns_witness:
  "\<exists>v ev. win_poll (\<lambda>_. 4) (\<lambda>k. pipe_pass 0 (100 + 16 * int k)) 8 0 100 (\<lambda>_. 0)
     [\<lparr>pl_fd = 3, pl_events = 1, pl_revents = 0\<rparr>] (of_nat (length [\<lparr>pl_fd = 3, pl_events = 1, pl_revents = 0\<rparr>])) 250
     = Some (v, ev) \<and> v \<noteq> Halt Waits"
proof (rule win_poll_returns)
  have "elapsed (pipe_pass 0 (100 + 16 * int 16)) 100 \<ge> 250" by (simp add: pipe_pass_def Let_def)
  then show "250 > (0::int) \<longrightarrow> (\<exists>k. elapsed (pipe_pass 0 (100 + 16 * int k)) 100 \<ge> 250)" by blast
qed (simp_all add: pipe_pass_def Let_def)

text \<open>
  With a limit of time the Windows branch of poll never gives up early: when it returns 0, a pass had ended at
  or after the deadline.
\<close>

theorem win_poll_not_early:
  assumes "win_poll osf env event hEvent start selected ps (of_nat (length ps)) timeout
       = Some (Ok (Inr (0, ps')), ev)" and "timeout > 0" and "length ps < 2 ^ 64"
  shows "\<exists>k. elapsed (env k) start \<ge> timeout"
proof -
  have len: "unat (of_nat (length ps) :: 64 word) = length ps"
    using assms(3) by (simp add: unsigned_of_nat take_bit_nat_eq_self_iff)
  have loop: "y = Ok (0, ps') \<Longrightarrow> n = length ps \<Longrightarrow> ws_timeout s \<ge> 0 \<Longrightarrow> \<exists>k. elapsed (env k) start \<ge> timeout"
    if "win_poll_loop osf env hE start timeout k ps n s = Some y" for hE k ps n s y
    using that
  proof (induction rule: win_poll_loop_induct)
    case (ends k ps s ps'' rc' s')
    with win_poll_pass_Ok[of osf "env k" hE start timeout ps s ps'' rc' s'] assms(2)
    show ?case by (auto split: if_splits)
  next
    case (again k ps s qs s' y)
    with win_poll_pass_Ok[of osf "env k" hE start timeout ps s qs 0 s'] assms(2)
    have "ws_timeout s' \<ge> 0" "length qs = length ps" by (auto dest: list_all2_lengthD split: if_splits)
    with again show ?case by simp
  qed simp
  let ?s = "\<lparr>ws_handles = [], ws_sets = \<lparr>wr_set = [], ww_set = [], wx_set = []\<rparr>,
          ws_selected = selected, ws_timeout = timeout, ws_ev = None\<rparr>"
  from assms len obtain hE where
    "win_poll_loop osf env hE start timeout 0 ps (length ps) ?s = Some (Ok (0, ps'))"
    by (auto simp: win_poll_def Let_def split: if_splits elim: bind_res.elims)
  with loop[of hE 0 ps "length ps" ?s "Ok (0, ps')"] assms(2) show ?thesis by simp
qed

lemma pipe_pass_run:
  "win_poll (\<lambda>_. 4) (\<lambda>_. pipe_pass 0 500) 8 0 100 (\<lambda>_. 0)
     [\<lparr>pl_fd = 3, pl_events = 1, pl_revents = 0\<rparr>] 1 250
     = Some (Ok (Inr (0, [\<lparr>pl_fd = 3, pl_events = 1, pl_revents = 0\<rparr>])), 8)"
  by (subst win_poll_def, subst win_poll_loop.simps)
    (simp add: win_poll_pass_def pipe_pass_def classify_def collect_def Let_def push_handle_def
      WIN_FD_SETSIZE_def asks_def poll_masks IsSocketHandle_def IsConsoleHandle_def win32_compute_revents_def)

theorem win_poll_not_early_witness:
  "win_poll (\<lambda>_. 4) (\<lambda>_. pipe_pass 0 500) 8 0 100 (\<lambda>_. 0)
     [\<lparr>pl_fd = 3, pl_events = 1, pl_revents = 0\<rparr>] 1 250
     = Some (Ok (Inr (0, [\<lparr>pl_fd = 3, pl_events = 1, pl_revents = 0\<rparr>])), 8)
   \<and> (\<exists>k :: nat. elapsed (pipe_pass 0 500) 100 \<ge> 250)"
  using pipe_pass_run win_poll_not_early[of "\<lambda>_. 4" "\<lambda>_. pipe_pass 0 500" 8 0 100 "\<lambda>_. 0"
    "[\<lparr>pl_fd = 3, pl_events = 1, pl_revents = 0\<rparr>]" 250] by simp

theorem win_poll_result_witness:
  "list_all sound_entry [\<lparr>pl_fd = 3, pl_events = 1, pl_revents = 0\<rparr>]"
  using pipe_pass_run win_poll_result[of "\<lambda>_. 4" "\<lambda>_. pipe_pass 0 500" 8 0 100 "\<lambda>_. 0"
    "[\<lparr>pl_fd = 3, pl_events = 1, pl_revents = 0\<rparr>]" 250 0] by simp

section \<open>Sockets and other handles in the second loop\<close>

text \<open>
  The second loop does not ask again what is a socket: it compares each handle with the next one of
  handle_array.  As a reference, the loop that is told by \<open>sock\<close>.
\<close>

definition collect_kind :: "(int \<Rightarrow> win_handle) \<Rightarrow> (win_handle \<Rightarrow> bool) \<Rightarrow> handle_state \<Rightarrow> pollfd \<Rightarrow> nat
    \<Rightarrow> win_state \<Rightarrow> (pollfd \<times> nat \<times> win_state) res" where
  "collect_kind osf sock st p rc s =
     (let h = osf (pl_fd p) in
      if pl_fd p < 0 \<or> \<not> asks (pl_events p) IO_EVENTS then Ok (p, rc, s)
      else
        bind_res
          (if sock h then collect_socket st h p s
           else Ok (fst (win32_compute_revents st h (scast (pl_events p))), s))
          (\<lambda>(happened, s).
        let p = p\<lparr>pl_revents := ucast (scast (pl_revents p) OR happened)\<rparr> in
        if pl_revents p = 0 then Ok (p, rc, s)
        else if rc = INT_MAX then Halt (Undef ''integer overflow'') else Ok (p, rc + 1, s)))"

fun collect_all_kind :: "(int \<Rightarrow> win_handle) \<Rightarrow> (win_handle \<Rightarrow> bool) \<Rightarrow> (nat \<Rightarrow> handle_state) \<Rightarrow> nat \<Rightarrow> pollfd list
    \<Rightarrow> nat \<Rightarrow> win_state \<Rightarrow> (pollfd list \<times> nat \<times> win_state) res" where
  "collect_all_kind osf sock st i [] rc s = Ok ([], rc, s)"
| "collect_all_kind osf sock st i (p # ps) rc s =
     bind_res (collect_kind osf sock (st i) p rc s) (\<lambda>(p, rc, s).
     bind_res (collect_all_kind osf sock st (i + 1) ps rc s) (\<lambda>(ps, rc, s). Ok (p # ps, rc, s)))"

text \<open>
  An entry the comparison gets right: the system says of its handle what \<open>sock\<close> says, and a handle that is no
  socket asks for input or output and keeps some of it in the first loop.
\<close>

definition steady_entry :: "(int \<Rightarrow> win_handle) \<Rightarrow> (win_handle \<Rightarrow> bool) \<Rightarrow> handle_state \<Rightarrow> pollfd \<Rightarrow> bool" where
  "steady_entry osf sock st p \<longleftrightarrow>
     (let h = osf (pl_fd p) in
      0 \<le> pl_fd p \<and> asks (pl_events p) ANY_EVENTS \<longrightarrow>
        IsSocketHandle st h = sock h
        \<and> (\<not> sock h \<longrightarrow> asks (pl_events p) IO_EVENTS
             \<and> snd (win32_compute_revents st h (scast (pl_events p))) \<noteq> 0))"

definition registered :: "(int \<Rightarrow> win_handle) \<Rightarrow> (win_handle \<Rightarrow> bool) \<Rightarrow> pollfd \<Rightarrow> bool" where
  "registered osf sock p \<longleftrightarrow> 0 \<le> pl_fd p \<and> asks (pl_events p) ANY_EVENTS \<and> \<not> sock (osf (pl_fd p))"

abbreviation waitable :: "(int \<Rightarrow> win_handle) \<Rightarrow> (win_handle \<Rightarrow> bool) \<Rightarrow> pollfd list \<Rightarrow> win_handle list" where
  "waitable osf sock ps \<equiv> map (\<lambda>p. osf (pl_fd p)) (filter (registered osf sock) ps)"

lemma asks_IO_ANY: "asks ev IO_EVENTS \<Longrightarrow> asks ev ANY_EVENTS"
  by (auto simp: asks_or)

lemma registered_same: "same_entry p q \<Longrightarrow> registered osf sock q = registered osf sock p"
  by (simp add: registered_def same_entry_def)

lemma registered_length:
  "list_all2 same_entry ps qs \<Longrightarrow>
   length (filter (registered osf sock) qs) = length (filter (registered osf sock) ps)"
  by (induction rule: list_all2_induct) (simp_all add: registered_same)

text \<open>What the second loop needs of an entry.\<close>

definition orderly :: "(int \<Rightarrow> win_handle) \<Rightarrow> (win_handle \<Rightarrow> bool) \<Rightarrow> pollfd \<Rightarrow> bool" where
  "orderly osf sock p \<longleftrightarrow> 0 \<le> pl_fd p \<and> asks (pl_events p) ANY_EVENTS \<longrightarrow>
     osf (pl_fd p) \<noteq> 0 \<and> (\<not> sock (osf (pl_fd p)) \<longrightarrow> asks (pl_events p) IO_EVENTS)"

lemma classify_steady:
  assumes "steady_entry osf sock st p" and "classify osf st p s = Ok (p', s')"
  shows "ws_handles s' = ws_handles s @ (if registered osf sock p' then [osf (pl_fd p')] else [])
    \<and> orderly osf sock p'"
proof -
  let ?h = "osf (pl_fd p)"
  have same: "pl_fd p' = pl_fd p" "pl_events p' = pl_events p"
    using classify_Ok[OF assms(2)] by (simp_all add: same_entry_def)
  obtain happened sought where w: "win32_compute_revents st ?h (scast (pl_events p)) = (happened, sought)"
    by fastforce
  consider "pl_fd p < 0 \<or> \<not> asks (pl_events p) ANY_EVENTS"
    | "0 \<le> pl_fd p" "asks (pl_events p) ANY_EVENTS" "sock ?h"
    | "0 \<le> pl_fd p" "asks (pl_events p) ANY_EVENTS" "\<not> sock ?h" by force
  then show ?thesis
  proof cases
    case 1
    then have "classify osf st p s = Ok (p\<lparr>pl_revents := 0\<rparr>, s)" by (elim disjE) (simp_all add: classify_def Let_def)
    with 1 assms(2) show ?thesis by (auto simp: registered_def orderly_def)
  next
    case 2
    with assms same show ?thesis
      by (auto simp: classify_def registered_def orderly_def steady_entry_def classify_socket_def Let_def split: if_splits)
  next
    case 3
    with assms same w show ?thesis
      by (auto simp: classify_def registered_def orderly_def steady_entry_def push_handle_def Let_def split: if_splits)
  qed
qed

lemma classify_all_steady:
  "\<forall>(j, p) \<in> set (enumerate i ps). steady_entry osf sock (st j) p \<Longrightarrow>
   classify_all osf st i ps (length ps) s = Ok (ps', s') \<Longrightarrow>
   ws_handles s' = ws_handles s @ waitable osf sock ps' \<and> list_all (orderly osf sock) ps'"
proof (induction ps arbitrary: i s ps' s')
  case (Cons p ps)
  obtain p1 s1 where 1: "classify osf (st i) p s = Ok (p1, s1)"
    using Cons.prems by (cases "classify osf (st i) p s") auto
  then obtain ps2 where 2: "classify_all osf st (i + 1) ps (length ps) s1 = Ok (ps2, s')" "ps' = p1 # ps2"
    using Cons.prems by (cases "classify_all osf st (i + 1) ps (length ps) s1") auto
  have "steady_entry osf sock (st i) p" "\<forall>(j, p) \<in> set (enumerate (i + 1) ps). steady_entry osf sock (st j) p"
    using Cons.prems(1) by simp_all
  from classify_steady[OF this(1) 1] Cons.IH[OF this(2) 2(1)] 2(2) show ?case by auto
qed simp

text \<open>The handle at hand against the next registered one.\<close>

lemma next_waitable:
  assumes "orderly osf sock p" and "0 \<le> pl_fd p" and "asks (pl_events p) IO_EVENTS"
  shows "(osf (pl_fd p) = (waitable osf sock (p # ps) @ [0]) ! 0) = (\<not> sock (osf (pl_fd p)))"
proof (cases "sock (osf (pl_fd p))")
  case True
  then have skip: "waitable osf sock (p # ps) = waitable osf sock ps" by (simp add: registered_def)
  have "osf (pl_fd p) \<noteq> 0" using assms asks_IO_ANY by (auto simp: orderly_def)
  moreover have "h \<noteq> osf (pl_fd p)" if "h \<in> set (waitable osf sock ps)" for h
    using that True by (auto simp: registered_def)
  ultimately show ?thesis
    unfolding skip using True by (cases "waitable osf sock ps") auto
next
  case False
  then show ?thesis using assms asks_IO_ANY by (auto simp: registered_def)
qed

lemma collect_by_kind:
  assumes "orderly osf sock p" and "ws_handles s = pre @ waitable osf sock (p # ps) @ [0]" and "length pre = k"
  shows "collect osf st p k rc s = bind_res (collect_kind osf sock st p rc s) (\<lambda>(p', rc, s).
    Ok (p', k + (if registered osf sock p then 1 else 0), rc, s))"
proof -
  let ?h = "osf (pl_fd p)"
  let ?skip = "pl_fd p < 0 \<or> \<not> asks (pl_events p) IO_EVENTS"
  show ?thesis
  proof (cases ?skip)
    case True
    with assms(1) have "\<not> registered osf sock p" by (auto simp: orderly_def registered_def)
    with True show ?thesis by (auto simp: collect_def collect_kind_def Let_def)
  next
    case False
    have "ws_handles s ! k = (waitable osf sock (p # ps) @ [0]) ! 0" "k < length (ws_handles s)"
      using assms(2,3) by (simp_all add: nth_append)
    with next_waitable[OF assms(1), of ps] False
    have h: "(?h = ws_handles s ! k) = (\<not> sock ?h)" "\<not> length (ws_handles s) \<le> k" by auto
    have reg: "registered osf sock p = (\<not> sock ?h)"
      using False asks_IO_ANY by (auto simp: registered_def)
    show ?thesis
    proof (cases "sock ?h")
      case True
      with False h reg show ?thesis
        by (cases "collect_socket st ?h p s") (auto simp: collect_def collect_kind_def Let_def split: prod.split)
    next
      case False
      with \<open>\<not> ?skip\<close> h reg show ?thesis
        by (simp add: collect_def collect_kind_def Let_def)
    qed
  qed
qed

lemma collect_kind_handles: "collect_kind osf sock st p rc s = Ok (p', rc', s') \<Longrightarrow> ws_handles s' = ws_handles s"
proof (cases "collect_socket st (osf (pl_fd p)) p s")
  case (Ok x)
  assume "collect_kind osf sock st p rc s = Ok (p', rc', s')"
  with Ok collect_socket_Ok[of st "osf (pl_fd p)" p s "fst x" "snd x"] show ?thesis
    by (cases x) (auto simp: collect_kind_def Let_def split: if_splits)
qed (auto simp: collect_kind_def Let_def split: if_splits)

lemma collect_all_by_kind:
  "list_all (orderly osf sock) ps \<Longrightarrow> ws_handles s = pre @ waitable osf sock ps @ [0] \<Longrightarrow> length pre = k \<Longrightarrow>
   collect_all osf st i ps (length ps) k rc s = collect_all_kind osf sock st i ps rc s"
proof (induction ps arbitrary: i pre k rc s)
  case (Cons p ps)
  have turn: "collect osf (st i) p k rc s = bind_res (collect_kind osf sock (st i) p rc s) (\<lambda>(p', rc, s).
    Ok (p', k + (if registered osf sock p then 1 else 0), rc, s))"
    using Cons.prems by (intro collect_by_kind) auto
  show ?case
  proof (cases "collect_kind osf sock (st i) p rc s")
    case (Ok x)
    obtain p' rc' s' where x: "x = (p', rc', s')" by (cases x)
    let ?pre = "pre @ (if registered osf sock p then [osf (pl_fd p)] else [])"
    have "ws_handles s' = ?pre @ waitable osf sock ps @ [0]"
      using collect_kind_handles[OF Ok[unfolded x]] Cons.prems(2) by auto
    moreover have "length ?pre = k + (if registered osf sock p then 1 else 0)"
      using Cons.prems(3) by simp
    ultimately have "collect_all osf st (i + 1) ps (length ps) (k + (if registered osf sock p then 1 else 0)) rc' s'
        = collect_all_kind osf sock st (i + 1) ps rc' s'"
      using Cons.prems(1) by (intro Cons.IH) auto
    with turn Ok x show ?thesis by simp
  qed (use turn in simp)
qed simp

text \<open>
  C37. The second loop of the Windows branch of poll tells sockets from other handles rightly: if
  every handle that is no socket asks for input or output and keeps some of it in the first loop, the comparison with
  handle_array gives the same result as asking the system again.
\<close>

theorem win_second_loop_by_kind:
  assumes "\<forall>(j, p) \<in> set (enumerate 0 ps). steady_entry osf sock (first j) p"
    and "classify_all osf first 0 ps (length ps) (s\<lparr>ws_handles := [hEvent]\<rparr>) = Ok (ps', s')"
  shows "collect_all osf second 0 ps' (length ps) 1 0 (s'\<lparr>ws_handles := ws_handles s' @ [0], ws_sets := sets\<rparr>)
    = collect_all_kind osf sock second 0 ps' 0 (s'\<lparr>ws_handles := ws_handles s' @ [0], ws_sets := sets\<rparr>)"
proof -
  have "length ps = length ps'" using classify_all_Ok[OF assms(2)] by (auto dest: list_all2_lengthD)
  with classify_all_steady[OF assms] show ?thesis
    by (simp add: collect_all_by_kind[where pre = "[hEvent]"])
qed

lemma win_second_loop_steady_run:
  "classify_all (\<lambda>_. 4) (wp_first (pipe_pass 3 0)) 0 [\<lparr>pl_fd = 3, pl_events = 1, pl_revents = 0\<rparr>] 1
     (\<lparr>ws_handles = [], ws_sets = \<lparr>wr_set = [], ww_set = [], wx_set = []\<rparr>, ws_selected = \<lambda>_. 0, ws_timeout = 5,
       ws_ev = None\<rparr>\<lparr>ws_handles := [8]\<rparr>)
   = Ok ([\<lparr>pl_fd = 3, pl_events = 1, pl_revents = 1\<rparr>],
         \<lparr>ws_handles = [8, 4], ws_sets = \<lparr>wr_set = [], ww_set = [], wx_set = []\<rparr>, ws_selected = \<lambda>_. 0, ws_timeout = 0,
           ws_ev = None\<rparr>)"
  by (simp add: pipe_pass_def classify_def Let_def push_handle_def
      WIN_FD_SETSIZE_def asks_def poll_masks IsSocketHandle_def IsConsoleHandle_def win32_compute_revents_def)

theorem win_second_loop_by_kind_witness:
  "collect_all (\<lambda>_. 4) (wp_second (pipe_pass 3 0)) 0 [\<lparr>pl_fd = 3, pl_events = 1, pl_revents = 1\<rparr>] 1 1 0
     \<lparr>ws_handles = [8, 4, 0], ws_sets = \<lparr>wr_set = [], ww_set = [], wx_set = []\<rparr>, ws_selected = \<lambda>_. 0, ws_timeout = 0,
       ws_ev = None\<rparr>
   = collect_all_kind (\<lambda>_. 4) (\<lambda>_. False) (wp_second (pipe_pass 3 0)) 0 [\<lparr>pl_fd = 3, pl_events = 1, pl_revents = 1\<rparr>] 0
     \<lparr>ws_handles = [8, 4, 0], ws_sets = \<lparr>wr_set = [], ww_set = [], wx_set = []\<rparr>, ws_selected = \<lambda>_. 0, ws_timeout = 0,
       ws_ev = None\<rparr>"
proof -
  let ?s = "\<lparr>ws_handles = [], ws_sets = \<lparr>wr_set = [], ww_set = [], wx_set = []\<rparr>, ws_selected = \<lambda>_. 0, ws_timeout = 5,
       ws_ev = None\<rparr>"
  have "\<forall>(j, p) \<in> set (enumerate 0 [\<lparr>pl_fd = 3, pl_events = 1, pl_revents = 0\<rparr>]).
      steady_entry (\<lambda>_. 4) (\<lambda>_. False) (wp_first (pipe_pass 3 0) j) p"
    by (simp add: steady_entry_def pipe_pass_def asks_def poll_masks IsSocketHandle_def IsConsoleHandle_def
        win32_compute_revents_def Let_def)
  from win_second_loop_by_kind[OF this, where s = ?s and hEvent = 8 and second = "wp_second (pipe_pass 3 0)"
      and sets = "\<lparr>wr_set = [], ww_set = [], wx_set = []\<rparr>"]
    win_second_loop_steady_run
  show ?thesis by simp
qed

text \<open>
  When the condition fails the loops disagree: a console input buffer asked for output keeps nothing in the first loop,
  so the second loop takes it for a socket and, when WSAEnumNetworkEvents refuses it, reads a
  variable that was never written.
\<close>

definition console_pass :: win_pass where
  "console_pass =
     (let st = \<lparr>hs_enum = None, hs_type = FILE_TYPE_CHAR, hs_peek = Peek_failed, hs_signalled = False,
                hs_console = Some 1, hs_input = Some [True], hs_recv = Received 0\<rparr>
      in \<lparr>wp_first = \<lambda>_. st, wp_second = \<lambda>_. st, wp_select1 = \<lambda>s. (-1, s), wp_select2 = \<lambda>s. (-1, s),
          wp_waits = \<lambda>_ _. [False], wp_clock = 0\<rparr>)"

theorem console_output_undefined:
  "win_poll (\<lambda>_. 7) (\<lambda>_. console_pass) 8 0 0 (\<lambda>_. 0) [\<lparr>pl_fd = 0, pl_events = 4, pl_revents = 0\<rparr>] 1 0
     = Some (Halt (Undef ''ev not initialised''), 8)"
  by (subst win_poll_def, subst win_poll_loop.simps)
    (simp add: win_poll_pass_def console_pass_def classify_def collect_def collect_socket_def Let_def push_handle_def
      WIN_FD_SETSIZE_def asks_def poll_masks IsSocketHandle_def IsConsoleHandle_def win32_compute_revents_def)

text \<open>A console with nothing typed counts as hung up, so a poll without a limit of time does not wait for a key.\<close>

theorem idle_console_hangs_up:
  "win_poll (\<lambda>_. 7) (\<lambda>_. console_pass\<lparr>wp_first := \<lambda>i. (wp_first console_pass i)\<lparr>hs_console := Some 0\<rparr>,
      wp_second := \<lambda>i. (wp_second console_pass i)\<lparr>hs_console := Some 0\<rparr>\<rparr>) 8 0 0 (\<lambda>_. 0)
      [\<lparr>pl_fd = 0, pl_events = 1, pl_revents = 0\<rparr>] 1 (-1)
     = Some (Ok (Inr (1, [\<lparr>pl_fd = 0, pl_events = 1, pl_revents = 0x10\<rparr>])), 8)"
  by (subst win_poll_def, subst win_poll_loop.simps)
    (simp add: win_poll_pass_def console_pass_def classify_def collect_def Let_def push_handle_def INT_MAX_def
      WIN_FD_SETSIZE_def asks_def poll_masks IsSocketHandle_def IsConsoleHandle_def win32_compute_revents_def)

text \<open>
  handle_array is never checked: a pass that ends without undefined behaviour had at most FD_SETSIZE handles that are
  no sockets.
\<close>

theorem win_poll_pass_bound:
  assumes "\<forall>(j, p) \<in> set (enumerate 0 ps). steady_entry osf sock (wp_first env j) p"
    and "win_poll_pass osf env hEvent start orig ps (length ps) s = Ok x"
  shows "length (filter (registered osf sock) ps) \<le> WIN_FD_SETSIZE"
proof -
  let ?s = "s\<lparr>ws_handles := [hEvent], ws_sets := \<lparr>wr_set = [], ww_set = [], wx_set = []\<rparr>\<rparr>"
  obtain ps1 s1 where 1: "classify_all osf (wp_first env) 0 ps (length ps) ?s = Ok (ps1, s1)"
    using assms(2) by (cases "classify_all osf (wp_first env) 0 ps (length ps) ?s")
      (auto simp: win_poll_pass_def Let_def)
  obtain ready sets where sel: "wp_select1 env (ws_sets s1) = (ready, sets)" by fastforce
  let ?wait = "if ready > 0 then 0 else if ws_timeout s1 = -1 then INFINITE else of_int (ws_timeout s1)"
  have wait: "win_wait_loop (wp_waits env (ws_handles s1) ?wait) = Ok ()"
    using assms(2) by (cases "win_wait_loop (wp_waits env (ws_handles s1) ?wait)")
      (auto simp: win_poll_pass_def Let_def 1 sel)
  have "length (ws_handles s1) < WIN_FD_SETSIZE + 2"
    using assms(2) by (cases "length (ws_handles s1) < WIN_FD_SETSIZE + 2")
      (auto simp: win_poll_pass_def Let_def 1 sel wait push_handle_def)
  moreover have "length (ws_handles s1) = 1 + length (filter (registered osf sock) ps1)"
    using classify_all_steady[OF assms(1) 1] by simp
  moreover have "length (filter (registered osf sock) ps1) = length (filter (registered osf sock) ps)"
    using classify_all_Ok[OF 1] registered_length by simp
  ultimately show ?thesis by simp
qed

end
