(* ===== verification/Own_Memory.thy ===== *)
theory Own_Memory
  imports Helper Strutil Security Messages
begin

text \<open>
  What the program owns on the heap: the allocation wrappers of \<^verbatim>\<open>wrapper.h\<close>, the string arrays of
  \<^verbatim>\<open>strlist.c\<close>, and the buffers that hold a key (\<^verbatim>\<open>security.c\<close>, \<^verbatim>\<open>command/init.c\<close>).  The other
  theories pass blocks by value; here a block has an address, and what is given back
  to the allocator is kept with its last content.
\<close>

section \<open>The heap\<close>

datatype heap_block = Chars "char block" | Bytes "byte block" | Ptrs "nat option block"

text \<open>
  \<open>h_next\<close> counts the calls of the allocator and gives the next address, so no address is used
  twice; \<open>h_released\<close> are the contents given back, the last one first.
\<close>

record heap =
  h_next :: nat
  h_live :: "nat \<rightharpoonup> heap_block"
  h_released :: "heap_block list"

text \<open>\<open>oom k\<close>: call number \<open>k\<close> of the allocator fails.  An object of \<open>sz\<close> bytes.\<close>

definition h_malloc :: "(nat \<Rightarrow> bool) \<Rightarrow> size_t \<Rightarrow> heap_block \<Rightarrow> heap \<Rightarrow> nat option \<times> heap" where
  "h_malloc oom sz obj h =
     (if oom (h_next h) \<or> ALLOC_MAX < sz then (None, h\<lparr>h_next := h_next h + 1\<rparr>)
      else (Some (h_next h), h\<lparr>h_next := h_next h + 1, h_live := (h_live h)(h_next h \<mapsto> obj)\<rparr>))"

definition h_free :: "nat option \<Rightarrow> heap \<Rightarrow> heap res" where
  "h_free p h =
     (case p of
        None \<Rightarrow> Ok h
      | Some a \<Rightarrow>
          (case h_live h a of
             None \<Rightarrow> Halt (Undef ''free of a block that is not allocated'')
           | Some obj \<Rightarrow> Ok (h\<lparr>h_live := (h_live h)(a := None), h_released := obj # h_released h\<rparr>)))"

definition xmalloc_at :: "(nat \<Rightarrow> bool) \<Rightarrow> size_t \<Rightarrow> heap_block \<Rightarrow> heap \<Rightarrow> (nat \<times> heap) res" where
  "xmalloc_at oom sz obj h =
     (case h_malloc oom sz obj h of
        (None, _) \<Rightarrow> Halt (Die ''out of memory, malloc failed'')
      | (Some a, h) \<Rightarrow> Ok (a, h))"

text \<open>calloc checks the product itself.\<close>

definition xcalloc :: "(nat \<Rightarrow> bool) \<Rightarrow> size_t \<Rightarrow> size_t \<Rightarrow> heap \<Rightarrow> (nat \<times> heap) res" where
  "xcalloc oom nmemb sz h =
     (case h_malloc oom (nmemb * sz) (Bytes (replicate (nmemb * sz) (Some 0))) h of
        (None, _) \<Rightarrow> Halt (Die ''out of memory, malloc failed'')
      | (Some a, h) \<Rightarrow> Ok (a, h))"

definition strdup_at :: "(nat \<Rightarrow> bool) \<Rightarrow> string \<Rightarrow> heap \<Rightarrow> nat option \<times> heap" where
  "strdup_at oom s h = h_malloc oom (length s + 1) (Chars (map Some (s @ [NUL]))) h"

definition xstrdup :: "(nat \<Rightarrow> bool) \<Rightarrow> string \<Rightarrow> heap \<Rightarrow> (nat \<times> heap) res" where
  "xstrdup oom s h =
     (case strdup_at oom s h of
        (None, _) \<Rightarrow> Halt (Die ''Out of memory, strdup() failed.'')
      | (Some buf, h) \<Rightarrow> Ok (buf, h))"

definition char_cells :: "nat \<Rightarrow> heap \<Rightarrow> char block res" where
  "char_cells a h =
     (case h_live h a of Some (Chars b) \<Rightarrow> Ok b | _ \<Rightarrow> Halt (Undef ''not an allocated block of characters''))"

text \<open>memcpy copies cells, written to or not.\<close>

definition xmemdup :: "(nat \<Rightarrow> bool) \<Rightarrow> nat \<Rightarrow> size_t \<Rightarrow> heap \<Rightarrow> (nat \<times> heap) res" where
  "xmemdup oom ptr sz h =
     bind_res (char_cells ptr h) (\<lambda>b.
       if length b < sz then Halt (Undef ''read outside the block'')
       else xmalloc_at oom sz (Chars (take sz b)) h)"

text \<open>Clear the first \<open>len\<close> bytes, then free.\<close>

definition sfree :: "nat option \<Rightarrow> size_t \<Rightarrow> heap \<Rightarrow> heap res" where
  "sfree p len h =
     (case p of
        None \<Rightarrow> if len = 0 then Ok h else Halt (Undef ''store through NULL'')
      | Some a \<Rightarrow>
          (case h_live h a of
             Some (Chars b) \<Rightarrow> bind_res (mem_write b 0 (replicate len NUL)) (\<lambda>b.
               h_free p (h\<lparr>h_live := (h_live h)(a \<mapsto> Chars b)\<rparr>))
           | Some (Bytes b) \<Rightarrow> bind_res (mem_write b 0 (replicate len 0)) (\<lambda>b.
               h_free p (h\<lparr>h_live := (h_live h)(a \<mapsto> Bytes b)\<rparr>))
           | _ \<Rightarrow> Halt (Undef ''not an allocated block of bytes'')))"

section \<open>Arrays of strings\<close>

definition ptr_cells :: "nat \<Rightarrow> heap \<Rightarrow> nat option block res" where
  "ptr_cells a h =
     (case h_live h a of Some (Ptrs b) \<Rightarrow> Ok b | _ \<Rightarrow> Halt (Undef ''not an allocated array''))"

definition store_ptr_at :: "nat \<Rightarrow> nat \<Rightarrow> nat option \<Rightarrow> heap \<Rightarrow> heap res" where
  "store_ptr_at a i v h =
     bind_res (ptr_cells a h) (\<lambda>b.
     bind_res (mem_write b i [v]) (\<lambda>b. Ok (h\<lparr>h_live := (h_live h)(a \<mapsto> Ptrs b)\<rparr>)))"

text \<open>The result of strdup is stored unchecked.\<close>

fun fill_array :: "(nat \<Rightarrow> bool) \<Rightarrow> nat \<Rightarrow> nat \<Rightarrow> string list \<Rightarrow> heap \<Rightarrow> heap res" where
  "fill_array oom a i [] h = store_ptr_at a i None h"
| "fill_array oom a i (s # strs) h =
     (case strdup_at oom s h of (p, h) \<Rightarrow>
        bind_res (store_ptr_at a i p h) (\<lambda>h. fill_array oom a (i + 1) strs h))"

text \<open>\<open>strs\<close>: the strings of the elements that are copied.\<close>

definition strlist_to_array_at :: "(nat \<Rightarrow> bool) \<Rightarrow> string list \<Rightarrow> heap \<Rightarrow> (nat \<times> heap) res" where
  "strlist_to_array_at oom strs h =
     bind_res (st_mult (sz_wrap (length strs + 1)) 8) (\<lambda>bytes.
     bind_res (xmalloc_at oom bytes (Ptrs (replicate (length strs + 1) None)) h) (\<lambda>(buf, h).
     bind_res (fill_array oom buf 0 strs h) (\<lambda>h. Ok (buf, h))))"

definition array_left :: "nat \<Rightarrow> nat \<Rightarrow> heap \<Rightarrow> nat" where
  "array_left a i h = (case h_live h a of Some (Ptrs b) \<Rightarrow> length b - i | _ \<Rightarrow> 0)"

text \<open>The loop of strarr_free from cell \<open>i\<close> on; each turn reads the array again.\<close>

function free_cells :: "nat \<Rightarrow> nat \<Rightarrow> heap \<Rightarrow> heap res" where
  "free_cells a i h =
     (case ptr_cells a h of
        Halt x \<Rightarrow> Halt x
      | Ok b \<Rightarrow>
          (case mem_read b i 1 of
             Halt x \<Rightarrow> Halt x
           | Ok cell \<Rightarrow>
               (case hd cell of
                  None \<Rightarrow> Ok h
                | Some q \<Rightarrow>
                    (case h_free (Some q) h of Halt x \<Rightarrow> Halt x | Ok h \<Rightarrow> free_cells a (i + 1) h))))"
  by pat_completeness auto
termination
  by (relation "measure (\<lambda>(a, i, h). array_left a i h)")
    (auto simp: array_left_def ptr_cells_def h_free_def mem_read_def
      split: option.splits heap_block.splits if_splits)

declare free_cells.simps [simp del]

definition strarr_free :: "nat \<Rightarrow> heap \<Rightarrow> heap res" where
  "strarr_free array h = bind_res (free_cells array 0 h) (h_free (Some array))"

section \<open>An array and its copies are given back\<close>

text \<open>The pointers that the loop of strlist_to_array stores, and what it adds to the heap.\<close>

definition copies :: "(nat \<Rightarrow> bool) \<Rightarrow> nat \<Rightarrow> nat \<Rightarrow> nat option list" where
  "copies oom b n = map (\<lambda>j. if oom j then None else Some j) [b ..< b + n]"

fun with_copies :: "(nat \<Rightarrow> bool) \<Rightarrow> nat \<Rightarrow> string list \<Rightarrow> (nat \<rightharpoonup> heap_block) \<Rightarrow> (nat \<rightharpoonup> heap_block)" where
  "with_copies oom b [] m = m"
| "with_copies oom b (s # strs) m =
     with_copies oom (b + 1) strs (if oom b then m else m(b \<mapsto> Chars (map Some (s @ [NUL]))))"

lemma copies_0 [simp]: "copies oom b 0 = []"
  by (simp add: copies_def)

lemma copies_Suc [simp]: "copies oom b (Suc n) = (if oom b then None else Some b) # copies oom (Suc b) n"
  unfolding copies_def by (subst upt_conv_Cons) (simp_all del: upt_Suc)

lemma with_copies_below: "x < b \<Longrightarrow> with_copies oom b strs m x = m x"
  by (induction strs arbitrary: b m) auto

lemma with_copies_dom:
  "x \<in> dom (with_copies oom b strs m) \<longleftrightarrow> x \<in> dom m \<or> b \<le> x \<and> x < b + length strs \<and> \<not> oom x"
proof (induction strs arbitrary: b m)
  case (Cons s strs)
  show ?case
  proof (cases "x = b")
    case True
    then show ?thesis by (simp add: dom_def with_copies_below)
  next
    case False
    then show ?thesis by (auto simp: Cons)
  qed
qed auto

lemma with_copies_upd: "a < b \<Longrightarrow> with_copies oom b strs (m(a \<mapsto> v)) = (with_copies oom b strs m)(a \<mapsto> v)"
proof (induction strs arbitrary: b m)
  case (Cons s strs)
  have "(if oom b then m(a \<mapsto> v) else (m(a \<mapsto> v))(b \<mapsto> c)) = (if oom b then m else m(b \<mapsto> c))(a \<mapsto> v)" for c
    using Cons.prems by (cases "oom b") (auto simp: fun_eq_iff)
  with Cons.IH[of "b + 1"] Cons.prems show ?case by (simp only: with_copies.simps)
qed simp

lemma store_ptr_next:
  assumes "h_live h a = Some (Ptrs (pre @ None # rest))" and "length pre = i"
  shows "store_ptr_at a i v h = Ok (h\<lparr>h_live := (h_live h)(a \<mapsto> Ptrs (pre @ Some v # rest))\<rparr>)"
  using assms by (simp add: store_ptr_at_def ptr_cells_def mem_write_def)

lemma fill_array_runs:
  assumes "h_live h a = Some (Ptrs (pre @ replicate (length strs + 1) None))" and "length pre = i"
    and "a < h_next h" and "\<forall>s \<in> set strs. length s < ALLOC_MAX"
  shows "\<exists>h'. fill_array oom a i strs h = Ok h' \<and> h_live h' = (with_copies oom (h_next h) strs (h_live h))
              (a \<mapsto> Ptrs (pre @ map Some (copies oom (h_next h) (length strs)) @ [Some None]))"
  using assms
proof (induction strs arbitrary: pre i h)
  case Nil
  then show ?case using store_ptr_next[of h a pre "[]" i None] by (simp add: fun_upd_def)
next
  case (Cons s strs)
  let ?p = "if oom (h_next h) then None else Some (h_next h)"
  let ?m = "if oom (h_next h) then h_live h else (h_live h)(h_next h \<mapsto> Chars (map Some (s @ [NUL])))"
  let ?h1 = "h\<lparr>h_next := h_next h + 1, h_live := ?m\<rparr>"
  let ?h2 = "?h1\<lparr>h_live := ?m(a \<mapsto> Ptrs ((pre @ [Some ?p]) @ replicate (length strs + 1) None))\<rparr>"
  have dup: "strdup_at oom s h = (?p, ?h1)"
    using Cons.prems(4) by (auto simp: strdup_at_def h_malloc_def)
  have "h_live ?h1 a = Some (Ptrs (pre @ None # replicate (length strs + 1) None))"
    using Cons.prems(1,3) by simp
  from store_ptr_next[OF this Cons.prems(2)] have st: "store_ptr_at a i ?p ?h1 = Ok ?h2" by simp
  have "\<exists>h'. fill_array oom a (i + 1) strs ?h2 = Ok h' \<and> h_live h' = (with_copies oom (h_next ?h2) strs (h_live ?h2))
              (a \<mapsto> Ptrs ((pre @ [Some ?p]) @ map Some (copies oom (h_next ?h2) (length strs)) @ [Some None]))"
    by (rule Cons.IH) (use Cons.prems in auto)
  then obtain h' where h': "fill_array oom a (i + 1) strs ?h2 = Ok h'"
    "h_live h' = (with_copies oom (h_next ?h2) strs (h_live ?h2))
              (a \<mapsto> Ptrs ((pre @ [Some ?p]) @ map Some (copies oom (h_next ?h2) (length strs)) @ [Some None]))"
    by blast
  have "h_live h' = (with_copies oom (h_next h) (s # strs) (h_live h))
              (a \<mapsto> Ptrs (pre @ map Some (copies oom (h_next h) (length (s # strs))) @ [Some None]))"
    unfolding h'(2) using Cons.prems(3) with_copies_upd[of a "h_next h + 1" oom strs ?m] by simp
  moreover have "fill_array oom a i (s # strs) h = Ok h'" using dup st h'(1) by simp
  ultimately show ?case by blast
qed

lemma free_cells_runs:
  assumes "h_live h a = Some (Ptrs (pre @ map Some ps @ [Some None]))" and "length pre = i"
    and "distinct (takeWhile (\<lambda>p. p \<noteq> None) ps)"
    and "\<forall>q. Some q \<in> set (takeWhile (\<lambda>p. p \<noteq> None) ps) \<longrightarrow> q \<noteq> a \<and> q \<in> dom (h_live h)"
  shows "\<exists>h'. free_cells a i h = Ok h' \<and>
    h_live h' = (\<lambda>x. if Some x \<in> set (takeWhile (\<lambda>p. p \<noteq> None) ps) then None else h_live h x)"
  using assms
proof (induction ps arbitrary: pre i h)
  case Nil
  then show ?case by (subst free_cells.simps) (simp add: ptr_cells_def mem_read_def)
next
  case (Cons p ps)
  show ?case
  proof (cases p)
    case None
    then show ?thesis using Cons.prems
      by (subst free_cells.simps) (simp add: ptr_cells_def mem_read_def)
  next
    case (Some q)
    then obtain obj where q: "h_live h q = Some obj" "q \<noteq> a" using Cons.prems(4) by auto
    let ?h = "h\<lparr>h_live := (h_live h)(q := None), h_released := obj # h_released h\<rparr>"
    have "h_live ?h a = Some (Ptrs ((pre @ [Some p]) @ map Some ps @ [Some None]))"
      using Cons.prems(1) q by simp
    then obtain h' where h': "free_cells a (i + 1) ?h = Ok h'"
      "h_live h' = (\<lambda>x. if Some x \<in> set (takeWhile (\<lambda>p. p \<noteq> None) ps) then None else h_live ?h x)"
      using Cons.IH[of ?h "pre @ [Some p]" "i + 1"] Cons.prems(2-4) Some by fastforce
    have "free_cells a i h = free_cells a (i + 1) ?h"
      using Cons.prems(1,2) Some q by (subst free_cells.simps) (simp add: ptr_cells_def mem_read_def h_free_def)
    with h' Some show ?thesis by (auto simp: fun_eq_iff)
  qed
qed

lemma copies_takeWhile:
  "Some q \<in> set (takeWhile (\<lambda>p. p \<noteq> None) (copies oom b n)) \<longleftrightarrow> b \<le> q \<and> q < b + n \<and> (\<forall>k. b \<le> k \<and> k \<le> q \<longrightarrow> \<not> oom k)"
proof (induction n arbitrary: b)
  case (Suc n)
  have "(\<forall>k. b \<le> k \<and> k \<le> q \<longrightarrow> \<not> oom k) \<longleftrightarrow> \<not> oom b \<and> (\<forall>k. b + 1 \<le> k \<and> k \<le> q \<longrightarrow> \<not> oom k)" if "b \<le> q"
  proof -
    have "b \<le> k \<longleftrightarrow> k = b \<or> b + 1 \<le> k" for k by auto
    with that show ?thesis by (metis order_refl)
  qed
  with Suc[of "b + 1"] show ?case
    by (cases "q = b") (auto simp: copies_Suc)
qed simp

lemma copies_distinct: "distinct (takeWhile (\<lambda>p. p \<noteq> None) (copies oom b n))"
proof (induction n arbitrary: b)
  case (Suc n)
  with Suc[of "b + 1"] show ?case by (auto simp: copies_takeWhile simp del: not_None_eq)
qed simp

lemma strlist_to_array_runs:
  assumes "\<not> oom (h_next h)" and "\<forall>s \<in> set strs. length s < ALLOC_MAX" and "length strs < SAFE_SIZE"
  shows "\<exists>h1. strlist_to_array_at oom strs h = Ok (h_next h, h1)
    \<and> h_live h1 = (with_copies oom (h_next h + 1) strs
           ((h_live h)(h_next h \<mapsto> Ptrs (replicate (length strs + 1) None))))
         (h_next h \<mapsto> Ptrs (map Some (copies oom (h_next h + 1) (length strs)) @ [Some None]))"
proof -
  let ?n = "length strs"
  let ?cells = "Ptrs (replicate (?n + 1) None)"
  let ?h0 = "h\<lparr>h_next := h_next h + 1, h_live := (h_live h)(h_next h \<mapsto> ?cells)\<rparr>"
  have mult: "st_mult (sz_wrap (?n + 1)) 8 = Ok ((?n + 1) * 8)" and "\<not> ALLOC_MAX < (?n + 1) * 8"
    using assms(3) by (simp_all add: st_mult_exact size_bounds)
  then have x: "xmalloc_at oom ((?n + 1) * 8) ?cells h = Ok (h_next h, ?h0)"
    using assms(1) by (simp add: xmalloc_at_def h_malloc_def)
  have "\<exists>h'. fill_array oom (h_next h) 0 strs ?h0 = Ok h' \<and> h_live h' = (with_copies oom (h_next h + 1) strs (h_live ?h0))
              (h_next h \<mapsto> Ptrs ([] @ map Some (copies oom (h_next h + 1) ?n) @ [Some None]))"
    using fill_array_runs[of ?h0 "h_next h" "[]" strs 0 oom] assms(2) by simp
  then obtain h1 where "fill_array oom (h_next h) 0 strs ?h0 = Ok h1"
    "h_live h1 = (with_copies oom (h_next h + 1) strs ((h_live h)(h_next h \<mapsto> ?cells)))
              (h_next h \<mapsto> Ptrs (map Some (copies oom (h_next h + 1) ?n) @ [Some None]))" by auto
  moreover have "strlist_to_array_at oom strs h
      = bind_res (fill_array oom (h_next h) 0 strs ?h0) (\<lambda>h. Ok (h_next ?h0 - 1, h))"
    by (simp only: strlist_to_array_at_def mult x bind_res.simps prod.case) simp
  ultimately show ?thesis by simp
qed

text \<open>
  C32. An array made by strlist_to_array and freed by strarr_free leaves on the heap exactly the copies behind the
  first one that could not be allocated; without a failure the heap is as it was.
\<close>

theorem strarr_free_leaks_iff:
  assumes "strlist_to_array_at oom strs h = Ok (a, h1)"
    and "\<forall>x \<ge> h_next h. h_live h x = None"
    and "\<forall>s \<in> set strs. length s < ALLOC_MAX" and "length strs < SAFE_SIZE"
  shows "\<exists>h2. strarr_free a h1 = Ok h2 \<and> (\<forall>x < h_next h. h_live h2 x = h_live h x)
    \<and> dom (h_live h2) = dom (h_live h) \<union> {j. h_next h < j \<and> j \<le> h_next h + length strs \<and> \<not> oom j
          \<and> (\<exists>k. h_next h < k \<and> k < j \<and> oom k)}"
proof -
  let ?n = "length strs"
  let ?ps = "copies oom (h_next h + 1) ?n"
  let ?m = "(h_live h)(h_next h \<mapsto> Ptrs (replicate (?n + 1) None))"
  have "st_mult (sz_wrap (?n + 1)) 8 = Ok ((?n + 1) * 8)"
    using assms(4) by (simp add: st_mult_exact size_bounds)
  then have "\<exists>x. xmalloc_at oom ((?n + 1) * 8) (Ptrs (replicate (?n + 1) None)) h = Ok x"
    using assms(1) by (cases "xmalloc_at oom ((?n + 1) * 8) (Ptrs (replicate (?n + 1) None)) h")
      (simp_all add: strlist_to_array_at_def)
  then have "\<not> oom (h_next h)" by (auto simp: xmalloc_at_def h_malloc_def)
  with strlist_to_array_runs[of oom h strs] assms(1,3,4)
  have a: "a = h_next h" and live: "h_live h1 = (with_copies oom (h_next h + 1) strs ?m)
              (h_next h \<mapsto> Ptrs ([] @ map Some ?ps @ [Some None]))"
    by auto
  have "dom (with_copies oom (h_next h + 1) strs ?m)
      = insert a (dom (h_live h)) \<union> {j. a < j \<and> j \<le> a + ?n \<and> \<not> oom j}"
    by (rule set_eqI, unfold with_copies_dom) (auto simp: a)
  then have dom1: "dom (h_live h1) = insert a (dom (h_live h) \<union> {j. a < j \<and> j \<le> a + ?n \<and> \<not> oom j})"
    unfolding live dom_fun_upd a by simp
  have "\<exists>h'. free_cells a 0 h1 = Ok h' \<and>
    h_live h' = (\<lambda>x. if Some x \<in> set (takeWhile (\<lambda>p. p \<noteq> None) ?ps) then None else h_live h1 x)"
  proof (rule free_cells_runs[where pre = "[]"])
    show "h_live h1 a = Some (Ptrs ([] @ map Some ?ps @ [Some None]))" using live a by simp
    show "\<forall>q. Some q \<in> set (takeWhile (\<lambda>p. p \<noteq> None) ?ps) \<longrightarrow> q \<noteq> a \<and> q \<in> dom (h_live h1)"
      unfolding dom1 copies_takeWhile a by auto
  qed (rule copies_distinct | simp)+
  then obtain h' where h': "free_cells a 0 h1 = Ok h'"
    "h_live h' = (\<lambda>x. if Some x \<in> set (takeWhile (\<lambda>p. p \<noteq> None) ?ps) then None else h_live h1 x)" by blast
  have "h_live h' a = Some (Ptrs ([] @ map Some ?ps @ [Some None]))"
    unfolding h'(2) copies_takeWhile using live a by simp
  then obtain h2 where h2: "strarr_free a h1 = Ok h2" "h_live h2 = (h_live h')(a := None)"
    using h'(1) by (auto simp: strarr_free_def h_free_def)
  have "h_live h2 x = h_live h x" if "x < h_next h" for x
    using that unfolding h2(2) h'(2) copies_takeWhile live a by (simp add: with_copies_below)
  moreover have "dom (h_live h2) = dom (h_live h) \<union> {j. h_next h < j \<and> j \<le> h_next h + ?n \<and> \<not> oom j
          \<and> (\<exists>k. h_next h < k \<and> k < j \<and> oom k)}"
  proof -
    have "dom (h_live h2) = dom (h_live h1) - {q. Some q \<in> set (takeWhile (\<lambda>p. p \<noteq> None) ?ps)} - {a}"
      unfolding h2(2) h'(2) by (auto split: if_splits)
    then have "x \<in> dom (h_live h2) \<longleftrightarrow> x \<in> dom (h_live h) \<or> a < x \<and> x \<le> a + ?n \<and> \<not> oom x
        \<and> (\<exists>k. a < k \<and> k < x \<and> oom k)" for x
    proof -
      assume dom2: "dom (h_live h2) = dom (h_live h1) - {q. Some q \<in> set (takeWhile (\<lambda>p. p \<noteq> None) ?ps)} - {a}"
      have out: "x \<notin> dom (h_live h)" if "a \<le> x" using assms(2) a that by auto
      have gap: "(\<exists>k. a < k \<and> k < x \<and> oom k) \<longleftrightarrow> \<not> (\<forall>k. a + 1 \<le> k \<and> k \<le> x \<longrightarrow> \<not> oom k)" if "\<not> oom x"
        using that by (metis Suc_eq_plus1 Suc_le_eq le_neq_implies_less less_imp_le)
      consider "x < a" | "x = a" | "a < x" by linarith
      then show ?thesis
      proof cases
        case 3
        then show ?thesis
          unfolding dom2 dom1 Diff_iff mem_Collect_eq copies_takeWhile a [symmetric]
          using gap out by (cases "oom x") auto
      qed (use out in \<open>auto simp: dom2 dom1 copies_takeWhile a simp del: not_None_eq\<close>)
    qed
    then show ?thesis unfolding a by blast
  qed
  ultimately show ?thesis using h2(1) by blast
qed

abbreviation empty_heap :: heap where
  "empty_heap \<equiv> \<lparr>h_next = 0, h_live = Map.empty, h_released = []\<rparr>"

theorem strarr_free_leaks_iff_witness:
  "\<exists>h1 h2. strlist_to_array_at (\<lambda>k. k = 2) [''a'', ''b'', ''c''] empty_heap = Ok (0, h1)
     \<and> strarr_free 0 h1 = Ok h2 \<and> dom (h_live h2) = {3}"
proof -
  let ?strs = "[''a'', ''b'', ''c'']"
  have small: "\<forall>s \<in> set ?strs. length s < ALLOC_MAX" "length ?strs < SAFE_SIZE"
    by (simp_all add: size_bounds)
  obtain h1 where run: "strlist_to_array_at (\<lambda>k. k = 2) ?strs empty_heap = Ok (0, h1)"
    using strlist_to_array_runs[of "\<lambda>k. k = 2" empty_heap, OF _ small] by (simp only: heap.simps) force
  obtain h2 where h2: "strarr_free 0 h1 = Ok h2"
    "dom (h_live h2) = dom (h_live empty_heap) \<union> {j. h_next empty_heap < j \<and> j \<le> h_next empty_heap + length ?strs
      \<and> j \<noteq> 2 \<and> (\<exists>k. h_next empty_heap < k \<and> k < j \<and> k = 2)}"
    using strarr_free_leaks_iff[OF run _ small] by (simp only: heap.simps) blast
  have "0 < j \<and> j \<le> Suc (Suc (Suc 0)) \<and> j \<noteq> 2 \<and> 2 < j \<longleftrightarrow> j = 3" for j :: nat by linarith
  then have "dom (h_live h2) = {3}" unfolding h2(2) by (intro set_eqI) simp
  with h2(1) run show ?thesis by blast
qed

section \<open>Buffers that hold a key\<close>

text \<open>A variable of type \<^verbatim>\<open>char *\<close> that read_cmdkey may set.\<close>

datatype key_var = Unset | Ptr nat

text \<open>The loop that replaces the newlines at the end of the line, and the length that is left.\<close>

definition strip_at :: "nat \<Rightarrow> string \<Rightarrow> heap \<Rightarrow> (size_t \<times> heap) res" where
  "strip_at key line h =
     (let k = strip_newlines line in
      if k = [] then Halt (Undef ''key[-1] is read'')
      else bind_res (char_cells key h) (\<lambda>b.
           bind_res (mem_write b (length k) (replicate (length line - length k) NUL)) (\<lambda>b.
           Ok (length k, h\<lparr>h_live := (h_live h)(key \<mapsto> Chars b)\<rparr>))))"

text \<open>
  read_cmdkey: \<open>spare line\<close> is what getline allocates beyond the line and its terminator, \<open>v\<close> the variable
  behind \<open>key0\<close>.
\<close>

fun read_key_at :: "(nat \<Rightarrow> bool) \<Rightarrow> (string \<Rightarrow> nat) \<Rightarrow> input_event list \<Rightarrow> key_var \<Rightarrow> heap
    \<Rightarrow> ((size_t \<times> key_var \<times> input_event list) \<times> heap) res" where
  "read_key_at oom spare [] v h = Ok ((0, v, []), h)"
| "read_key_at oom spare (InEof # evs) v h = Ok ((0, v, evs), h)"
| "read_key_at oom spare (InError # evs) v h = Halt (Die ''An error occurred while getting input'')"
| "read_key_at oom spare (InLine line # evs) v h =
     (case h_malloc oom (length line + 1 + spare line)
             (Chars (map Some (line @ [NUL]) @ replicate (spare line) None)) h of
        (None, _) \<Rightarrow> Halt (Die ''An error occurred while getting input'')
      | (Some key, h) \<Rightarrow>
          if line = [NL]
          then bind_res (h_free (Some key) h) (\<lambda>h. read_key_at oom spare evs v h)
          else bind_res (strip_at key line h) (\<lambda>(len, h). Ok ((len, Ptr key, evs), h)))"

text \<open>strcmp reads up to the first NUL.\<close>

definition cstr_cells :: "char block \<Rightarrow> string res" where
  "cstr_cells b =
     (let p = takeWhile (\<lambda>c. c \<noteq> Some NUL) b in
      if length p = length b then Halt (Undef ''read outside the block'')
      else if None \<in> set p then Halt (Undef ''read of an uninitialised cell'')
      else Ok (map the p))"

definition var_text :: "key_var \<Rightarrow> heap \<Rightarrow> string res" where
  "var_text v h =
     (case v of Unset \<Rightarrow> Halt (Undef ''pointer not set'') | Ptr a \<Rightarrow> bind_res (char_cells a h) cstr_cells)"

definition sfree_var :: "key_var \<Rightarrow> size_t \<Rightarrow> heap \<Rightarrow> heap res" where
  "sfree_var v len h =
     (case v of Unset \<Rightarrow> Halt (Undef ''pointer not set'') | Ptr a \<Rightarrow> sfree (Some a) len h)"

definition same_keys :: "size_t \<Rightarrow> key_var \<Rightarrow> size_t \<Rightarrow> key_var \<Rightarrow> heap \<Rightarrow> bool res" where
  "same_keys len1 v1 len2 v2 h =
     (if len1 \<noteq> len2 then Ok False
      else bind_res (var_text v1 h) (\<lambda>k1. bind_res (var_text v2 h) (\<lambda>k2. Ok (k1 = k2))))"

lemma read_key_at_shorter:
  "read_key_at oom spare evs v h = Ok ((len, v', evs'), h') \<Longrightarrow> len \<noteq> 0 \<Longrightarrow> length evs' < length evs"
proof (induction oom spare evs v h rule: read_key_at.induct)
  case (4 oom spare line evs v h)
  show ?case
  proof (cases "h_malloc oom (length line + 1 + spare line)
             (Chars (map Some (line @ [NUL]) @ replicate (spare line) None)) h")
    case (Pair p h1)
    with 4 show ?thesis
      by (cases p; cases "strip_at (the p) line h1"; cases "h_free p h1")
        (auto split: if_splits simp: less_Suc_eq)
  qed
qed auto

lemma read_key_at_le: "read_key_at oom spare evs v h = Ok ((len, v', evs'), h') \<Longrightarrow> length evs' \<le> length evs"
proof (induction oom spare evs v h rule: read_key_at.induct)
  case (4 oom spare line evs v h)
  show ?case
  proof (cases "h_malloc oom (length line + 1 + spare line)
             (Chars (map Some (line @ [NUL]) @ replicate (spare line) None)) h")
    case (Pair p h1)
    with 4 show ?thesis
      by (cases p; cases "strip_at (the p) line h1"; cases "h_free p h1")
        (auto split: if_splits simp: le_SucI)
  qed
qed auto

text \<open>request_cmdkey of \<^verbatim>\<open>pk init\<close>, its buffers only; both variables keep their value when it starts again.\<close>

function request_cmdkey_at :: "(nat \<Rightarrow> bool) \<Rightarrow> (string \<Rightarrow> nat) \<Rightarrow> input_event list \<Rightarrow> key_var \<Rightarrow> key_var \<Rightarrow> heap
    \<Rightarrow> ((key_var \<times> size_t) \<times> heap) res" where
  "request_cmdkey_at oom spare evs v1 v2 h =
     (case read_key_at oom spare evs v1 h of
        Halt x \<Rightarrow> Halt x
      | Ok ((len1, v1, evs), h) \<Rightarrow>
          if len1 = 0 then Halt (Exit EXIT_FAILURE)
          else
            (case read_key_at oom spare evs v2 h of
               Halt x \<Rightarrow> Halt x
             | Ok ((len2, v2, evs), h) \<Rightarrow>
                 (case same_keys len1 v1 len2 v2 h of
                    Halt x \<Rightarrow> Halt x
                  | Ok True \<Rightarrow> bind_res (sfree_var v2 len2 h) (\<lambda>h. Ok ((v1, len1), h))
                  | Ok False \<Rightarrow>
                      (case bind_res (sfree_var v1 len1 h) (sfree_var v2 len2) of
                         Halt x \<Rightarrow> Halt x
                       | Ok h \<Rightarrow> request_cmdkey_at oom spare evs v1 v2 h))))"
  by pat_completeness auto
termination
proof (relation "measure (\<lambda>(oom, spare, evs, v1, v2, h). length evs)", goal_cases)
  case 2
  then show ?case
    by clarsimp (drule read_key_at_shorter, simp, drule read_key_at_le, simp)
qed simp

declare request_cmdkey_at.simps [simp del]

text \<open>A block without any text: only cells never written to, terminators and line breaks.\<close>

definition blank :: "heap_block \<Rightarrow> bool" where
  "blank obj \<longleftrightarrow> (case obj of Chars b \<Rightarrow> set b \<subseteq> {None, Some NUL, Some NL} | _ \<Rightarrow> False)"

definition all_blank :: "heap \<Rightarrow> bool" where
  "all_blank h \<longleftrightarrow> list_all blank (h_released h)"

definition fresh :: "heap \<Rightarrow> bool" where
  "fresh h \<longleftrightarrow> (\<forall>x \<ge> h_next h. h_live h x = None)"

text \<open>The buffer of a key of which \<open>n\<close> line breaks and the terminator follow.\<close>

definition key_block :: "string \<Rightarrow> nat \<Rightarrow> nat \<Rightarrow> heap_block" where
  "key_block k n sp = Chars (map Some (k @ replicate n NUL) @ replicate sp None)"

text \<open>A variable that does not point to a live block.\<close>

definition dangling :: "key_var \<Rightarrow> heap \<Rightarrow> bool" where
  "dangling v h \<longleftrightarrow> (case v of Unset \<Rightarrow> True | Ptr a \<Rightarrow> a < h_next h \<and> h_live h a = None)"

lemma strip_newlines_prefix: "\<exists>n. line = strip_newlines line @ replicate n NL"
proof (induction line rule: rev_induct)
  case (snoc c cs)
  then obtain n where n: "cs = strip_newlines cs @ replicate n NL" by blast
  show ?case
  proof (cases "c = NL")
    case True
    then have "strip_newlines (cs @ [c]) = strip_newlines cs" by (simp add: strip_newlines_def)
    moreover have "cs @ [c] = strip_newlines cs @ replicate (n + 1) NL"
      using n True by (metis Suc_eq_plus1 append.assoc replicate_Suc replicate_append_same)
    ultimately show ?thesis by metis
  next
    case False
    then have "strip_newlines (cs @ [c]) = cs @ [c]" by (simp add: strip_newlines_def)
    then show ?thesis by (intro exI[of _ 0]) simp
  qed
qed (simp add: strip_newlines_def)

lemma strip_at_Ok:
  assumes "strip_at a line h = Ok (len, h')"
    and "h_live h a = Some (Chars (map Some (line @ [NUL]) @ replicate sp None))"
  shows "\<exists>n. strip_newlines line \<noteq> [] \<and> len = length (strip_newlines line)
    \<and> h' = h\<lparr>h_live := (h_live h)(a \<mapsto> key_block (strip_newlines line) (n + 1) sp)\<rparr>"
proof -
  let ?k = "strip_newlines line"
  obtain n where n: "line = ?k @ replicate n NL" using strip_newlines_prefix by blast
  then have "length line - length ?k = n" by (metis add_diff_cancel_left' length_append length_replicate)
  moreover have "mem_write (map Some ((k @ replicate n NL) @ [NUL]) @ replicate sp None) (length k) (replicate n NUL)
      = Ok (map Some (k @ replicate (n + 1) NUL) @ replicate sp None)" for k
    by (simp add: mem_write_def replicate_append_same)
  then have "mem_write (map Some (line @ [NUL]) @ replicate sp None) (length ?k) (replicate n NUL)
      = Ok (map Some (?k @ replicate (n + 1) NUL) @ replicate sp None)"
    using n by metis
  ultimately show ?thesis
    using assms by (auto simp: strip_at_def char_cells_def key_block_def Let_def split: if_splits)
qed

lemma h_malloc_Some:
  "h_malloc oom sz obj h = (Some a, h') \<Longrightarrow>
   a = h_next h \<and> h' = h\<lparr>h_next := h_next h + 1, h_live := (h_live h)(h_next h \<mapsto> obj)\<rparr>"
  by (auto simp: h_malloc_def split: if_splits)

text \<open>What a reading leaves: nothing new on the heap, or one block with the key.\<close>

definition reads_key :: "heap \<Rightarrow> size_t \<Rightarrow> key_var \<Rightarrow> key_var \<Rightarrow> heap \<Rightarrow> bool" where
  "reads_key h len v v' h' \<longleftrightarrow> fresh h' \<and> h_next h \<le> h_next h' \<and> all_blank h'
     \<and> (len = 0 \<and> v' = v \<and> h_live h' = h_live h
        \<or> (\<exists>a k n sp. v' = Ptr a \<and> h_next h \<le> a \<and> a < h_next h' \<and> len = length k \<and> k \<noteq> []
             \<and> h_live h' = (h_live h)(a \<mapsto> key_block k (n + 1) sp)))"

lemma reads_key_weaken:
  assumes "h_live g = h_live h" and "h_next h \<le> h_next g" and "reads_key g len v v' h'"
  shows "reads_key h len v v' h'"
  using assms unfolding reads_key_def by (metis order_trans)

lemma read_key_at_reads:
  "read_key_at oom spare evs v h = Ok ((len, v', evs'), h') \<Longrightarrow> fresh h \<Longrightarrow> all_blank h \<Longrightarrow> reads_key h len v v' h'"
proof (induction oom spare evs v h arbitrary: rule: read_key_at.induct)
  case (4 oom spare line evs v h)
  let ?obj = "Chars (map Some (line @ [NUL]) @ replicate (spare line) None)"
  obtain a h1 where m: "h_malloc oom (length line + 1 + spare line) ?obj h = (Some a, h1)"
    using 4(2) by (cases "h_malloc oom (length line + 1 + spare line) ?obj h"; cases "fst (h_malloc oom (length line + 1 + spare line) ?obj h)") auto
  note h1 = h_malloc_Some[OF m]
  have new: "h_live h (h_next h) = None" using 4(3) by (simp add: fresh_def)
  show ?case
  proof (cases "line = [NL]")
    case True
    let ?h2 = "h1\<lparr>h_live := (h_live h1)(a := None), h_released := ?obj # h_released h1\<rparr>"
    have free: "h_free (Some a) h1 = Ok ?h2" using h1 by (simp add: h_free_def)
    have live: "h_live ?h2 = h_live h" using h1 new by (auto simp: fun_eq_iff)
    have "read_key_at oom spare evs v ?h2 = Ok ((len, v', evs'), h')"
      using 4(2) m True free by simp
    moreover have "fresh ?h2" using 4(3) h1 by (simp add: fresh_def)
    moreover have "all_blank ?h2" using 4(4) h1 True by (auto simp: all_blank_def blank_def)
    ultimately have "reads_key ?h2 len v v' h'"
      using 4(1)[OF m[symmetric] refl True free] by blast
    then show ?thesis by (rule reads_key_weaken[OF live, rotated]) (use h1 in simp)
  next
    case False
    then obtain len1 h2 where s: "strip_at a line h1 = Ok (len1, h2)" "len = len1" "v' = Ptr a" "h' = h2"
      using 4(2) m by (cases "strip_at a line h1") auto
    have cell: "h_live h1 a = Some ?obj" using h1 by simp
    obtain n where n: "strip_newlines line \<noteq> []" "len1 = length (strip_newlines line)"
      "h2 = h1\<lparr>h_live := (h_live h1)(a \<mapsto> key_block (strip_newlines line) (n + 1) (spare line))\<rparr>"
      using strip_at_Ok[OF s(1) cell] by auto
    have "h_live h2 = (h_live h)(a \<mapsto> key_block (strip_newlines line) (n + 1) (spare line))"
      using n h1 by (simp add: fun_eq_iff)
    moreover have "fresh h2" "h_next h2 = h_next h + 1" "all_blank h2"
      using n h1 4(3,4) by (auto simp: fresh_def all_blank_def)
    ultimately show ?thesis
      using n(1,2) s h1 unfolding reads_key_def by (intro conjI disjI2 exI[of _ a] exI[of _ "strip_newlines line"] exI[of _ n] exI[of _ "spare line"]) auto
  qed
qed (auto simp: reads_key_def)

lemma sfree_key:
  assumes "h_live h a = Some (key_block k n sp)"
  shows "sfree (Some a) (length k) h
    = Ok (h\<lparr>h_live := (h_live h)(a := None), h_released := key_block [] (length k + n) sp # h_released h\<rparr>)"
  using assms by (simp add: sfree_def key_block_def mem_write_def h_free_def replicate_add map_replicate)

lemma key_block_blank: "blank (key_block [] n sp)"
  by (auto simp: blank_def key_block_def)

lemma sfree_dangling_stops: "dangling v h \<Longrightarrow> \<exists>x. sfree_var v len h = Halt x"
  by (auto simp: dangling_def sfree_var_def sfree_def split: key_var.splits)

text \<open>
  A round of request_cmdkey in which the keys differ gives both buffers back cleared, and the heap is as before; when
  the second reading finds no line, the buffer to be cleared was never read or is freed already.
\<close>

lemma mismatch_round:
  assumes r1: "reads_key h len1 w1 (Ptr a1) h1" and l1: "len1 \<noteq> 0"
    and r2: "reads_key h1 len2 v2 w2 h2" and v2: "dangling v2 h" and fresh: "fresh h"
    and run: "bind_res (sfree_var (Ptr a1) len1 h2) (sfree_var w2 len2) = Ok h3"
  shows "h_live h3 = h_live h \<and> fresh h3 \<and> all_blank h3 \<and> h_next h \<le> h_next h3
    \<and> dangling w2 h3"
proof -
  obtain k1 n1 sp1 where 1: "h_next h \<le> a1" "a1 < h_next h1" "len1 = length k1" "k1 \<noteq> []"
      "h_live h1 = (h_live h)(a1 \<mapsto> key_block k1 (n1 + 1) sp1)"
    and h1: "fresh h1" "h_next h \<le> h_next h1" "all_blank h1"
    using r1 l1 by (auto simp: reads_key_def)
  have a1: "h_live h a1 = None" using fresh 1(1) by (simp add: fresh_def)
  have h2: "fresh h2" "h_next h1 \<le> h_next h2" "all_blank h2" using r2 by (auto simp: reads_key_def)
  consider (eof) "w2 = v2" "h_live h2 = h_live h1"
    | (key) a2 k2 n2 sp2 where "w2 = Ptr a2" "h_next h1 \<le> a2" "a2 < h_next h2" "len2 = length k2"
      "h_live h2 = (h_live h1)(a2 \<mapsto> key_block k2 (n2 + 1) sp2)"
    using r2 unfolding reads_key_def by blast
  then show ?thesis
  proof cases
    case eof
    let ?h = "h2\<lparr>h_live := (h_live h2)(a1 := None), h_released := key_block [] (length k1 + (n1 + 1)) sp1 # h_released h2\<rparr>"
    have "sfree_var (Ptr a1) len1 h2 = Ok ?h"
      using sfree_key[of h2 a1 k1 "n1 + 1" sp1] 1 eof by (simp add: sfree_var_def)
    moreover have "h_live ?h = h_live h" using eof 1(5) a1 by (auto simp: fun_eq_iff)
    then have "dangling w2 ?h" using v2 eof h1 h2 by (auto simp: dangling_def split: key_var.splits)
    from sfree_dangling_stops[OF this] obtain x where "sfree_var w2 len2 ?h = Halt x" by blast
    ultimately show ?thesis using run by simp
  next
    case (key a2 k2 n2 sp2)
    have ne: "a1 \<noteq> a2" using 1(2) key(2) by simp
    let ?g = "h2\<lparr>h_live := (h_live h2)(a1 := None), h_released := key_block [] (length k1 + (n1 + 1)) sp1 # h_released h2\<rparr>"
    let ?h = "?g\<lparr>h_live := (h_live ?g)(a2 := None), h_released := key_block [] (length k2 + (n2 + 1)) sp2 # h_released ?g\<rparr>"
    have "sfree_var (Ptr a1) len1 h2 = Ok ?g"
      using sfree_key[of h2 a1 k1 "n1 + 1" sp1] 1 key ne by (simp add: sfree_var_def)
    moreover have "sfree_var w2 len2 ?g = Ok ?h"
      using sfree_key[of ?g a2 k2 "n2 + 1" sp2] key ne by (simp add: sfree_var_def)
    ultimately have h3: "h3 = ?h" using run by simp
    have "h_live h a2 = None" using fresh key(2) h1(2) by (simp add: fresh_def)
    then have live: "h_live h3 = h_live h" using h3 key(5) 1(5) a1 ne by (auto simp: fun_eq_iff)
    moreover have "fresh h3" using h3 h2(1) by (simp add: fresh_def)
    moreover have "all_blank h3" using h3 h2(3) key_block_blank by (simp add: all_blank_def)
    ultimately show ?thesis
      using h3 h1(2) h2(2) key(1,3) \<open>h_live h a2 = None\<close> by (simp add: dangling_def)
  qed
qed

lemma reads_key_Ptr: "reads_key h len v w h' \<Longrightarrow> len \<noteq> 0 \<Longrightarrow> \<exists>a. w = Ptr a"
  by (auto simp: reads_key_def)

text \<open>
  C30. When request_cmdkey of \<^verbatim>\<open>pk init\<close> returns, whatever was typed and however often, the heap has one new block,
  the key with its terminator, and no block given back on the way holds any text: every
  rejected key and the confirmation were cleared before they were freed.
\<close>

theorem request_cmdkey_keeps_one:
  assumes "request_cmdkey_at oom spare evs v1 v2 h = Ok ((v, len), h')"
    and "fresh h" and "all_blank h" and "dangling v2 h"
  shows "\<exists>a k n sp. v = Ptr a \<and> len = length k \<and> h_live h a = None
    \<and> h_live h' = (h_live h)(a \<mapsto> key_block k (n + 1) sp) \<and> all_blank h'"
  using assms
proof (induction oom spare evs v1 v2 h rule: request_cmdkey_at.induct)
  case (1 oom spare evs v1 v2 h)
  obtain len1 w1 evs1 h1 where r1: "read_key_at oom spare evs v1 h = Ok ((len1, w1, evs1), h1)"
    using 1(2) by (subst (asm) request_cmdkey_at.simps) (auto split: res.splits prod.splits)
  then have l1: "len1 \<noteq> 0" using 1(2) by (subst (asm) request_cmdkey_at.simps) (auto split: if_splits)
  obtain len2 w2 evs2 h2 where r2: "read_key_at oom spare evs1 v2 h1 = Ok ((len2, w2, evs2), h2)"
    using 1(2) r1 l1 by (subst (asm) request_cmdkey_at.simps) (auto split: res.splits prod.splits)
  have k1: "reads_key h len1 v1 w1 h1" using read_key_at_reads[OF r1 1(3,4)] .
  then have "fresh h1" "all_blank h1" by (auto simp: reads_key_def)
  from read_key_at_reads[OF r2 this] have k2: "reads_key h1 len2 v2 w2 h2" .
  obtain a1 where a1: "w1 = Ptr a1" using reads_key_Ptr[OF k1 l1] by blast
  obtain eq where eq: "same_keys len1 w1 len2 w2 h2 = Ok eq"
    using 1(2) r1 l1 r2 by (subst (asm) request_cmdkey_at.simps) (auto split: res.splits)
  show ?case
  proof (cases eq)
    case False
    then obtain h3 where h3: "bind_res (sfree_var w1 len1 h2) (sfree_var w2 len2) = Ok h3"
      "request_cmdkey_at oom spare evs2 w1 w2 h3 = Ok ((v, len), h')"
      using 1(2) r1 l1 r2 eq by (subst (asm) request_cmdkey_at.simps) (auto split: res.splits)
    from mismatch_round[OF k1[unfolded a1] l1 k2 1(5,3) h3(1)[unfolded a1]]
    have s: "h_live h3 = h_live h" "fresh h3" "all_blank h3" "dangling w2 h3" by auto
    have "\<exists>a k n sp. v = Ptr a \<and> len = length k \<and> h_live h3 a = None
      \<and> h_live h' = (h_live h3)(a \<mapsto> key_block k (n + 1) sp) \<and> all_blank h'"
      by (rule 1(1)[OF r1 refl refl refl l1 r2 refl refl refl eq _ h3 s(2,3,4)]) (simp add: False)
    then show ?thesis unfolding s(1) .
  next
    case True
    then have fin: "bind_res (sfree_var w2 len2 h2) (\<lambda>h. Ok ((w1, len1), h)) = Ok ((v, len), h')" and len: "len1 = len2"
      using 1(2) r1 l1 r2 eq
      by (subst (asm) request_cmdkey_at.simps, simp, simp add: same_keys_def split: if_splits)
    obtain k1' n1 sp1 where b1: "h_next h \<le> a1" "a1 < h_next h1" "len1 = length k1'"
        "h_live h1 = (h_live h)(a1 \<mapsto> key_block k1' (n1 + 1) sp1)"
      using k1 l1 a1 by (auto simp: reads_key_def)
    obtain a2 k2' n2 sp2 where b2: "w2 = Ptr a2" "h_next h1 \<le> a2" "len2 = length k2'" "all_blank h2"
        "h_live h2 = (h_live h1)(a2 \<mapsto> key_block k2' (n2 + 1) sp2)"
      using k2 l1 len by (auto simp: reads_key_def)
    have none: "h_live h a1 = None" "h_live h1 a2 = None"
      using 1(3) b1(1) k1 b2(2) by (auto simp: fresh_def reads_key_def)
    let ?h = "h2\<lparr>h_live := (h_live h2)(a2 := None), h_released := key_block [] (length k2' + (n2 + 1)) sp2 # h_released h2\<rparr>"
    have "sfree_var w2 len2 h2 = Ok ?h"
      using sfree_key[of h2 a2 k2' "n2 + 1" sp2] b2 by (simp add: sfree_var_def)
    with fin have h': "v = w1" "len = len1" "h' = ?h" by auto
    have "h_live h' = h_live h1" using h'(3) b2(5) none(2) by (auto simp: fun_eq_iff)
    moreover have "all_blank h'" using h'(3) b2(4) key_block_blank by (simp add: all_blank_def)
    ultimately show ?thesis using h' a1 b1 none by auto
  qed
qed

text \<open>A first pair of keys that differ, then the same key twice.\<close>

theorem request_cmdkey_keeps_one_witness:
  "\<exists>v len h' a k n sp. request_cmdkey_at (\<lambda>_. False) (\<lambda>_. 1)
       [InLine [CHR ''a'', NL], InLine [CHR ''b'', NL], InLine [CHR ''c'', NL], InLine [CHR ''c'', NL]]
       Unset Unset empty_heap = Ok ((v, len), h')
     \<and> v = Ptr a \<and> len = length k \<and> h_live h' = Map.empty(a \<mapsto> key_block k (n + 1) sp) \<and> all_blank h'"
proof -
  let ?evs = "[InLine [CHR ''a'', NL], InLine [CHR ''b'', NL], InLine [CHR ''c'', NL], InLine [CHR ''c'', NL]]"
  obtain v len h' where run: "request_cmdkey_at (\<lambda>_. False) (\<lambda>_. 1) ?evs Unset Unset empty_heap = Ok ((v, len), h')"
    by (subst (asm) request_cmdkey_at.simps, simp add: h_malloc_def strip_at_def strip_newlines_def char_cells_def
        mem_write_def same_keys_def var_text_def cstr_cells_def sfree_var_def sfree_def h_free_def size_bounds Let_def,
        subst (asm) request_cmdkey_at.simps, simp add: h_malloc_def strip_at_def strip_newlines_def char_cells_def
        mem_write_def same_keys_def var_text_def cstr_cells_def sfree_var_def sfree_def h_free_def size_bounds Let_def)
  from request_cmdkey_keeps_one[OF run] run show ?thesis
    by (auto simp: fresh_def all_blank_def dangling_def)
qed

section \<open>What other copies of a key leave behind\<close>

text \<open>bin2blob of random bytes: the block that grew to the digits is freed as it is.\<close>

definition bin2blob_at :: "(nat \<Rightarrow> bool) \<Rightarrow> nat \<Rightarrow> size_t \<Rightarrow> heap \<Rightarrow> ((nat \<times> size_t) \<times> heap) res" where
  "bin2blob_at oom a bin_len h =
     (case h_live h a of
        Some (Bytes b) \<Rightarrow>
          bind_res (bin2hex b bin_len) (\<lambda>(hex, hex_len).
          bind_res (bin2blob b bin_len) (\<lambda>(blob, blob_len).
          bind_res (xmalloc_at oom (blob_len + 1) (Bytes blob) (h\<lparr>h_live := (h_live h)(a \<mapsto> Bytes hex)\<rparr>)) (\<lambda>(p, h).
          bind_res (h_free (Some a) h) (\<lambda>h. Ok ((p, blob_len), h)))))
      | _ \<Rightarrow> Halt (Undef ''not an allocated block of bytes''))"

text \<open>
  The copy of a blob key that \<^verbatim>\<open>pk init\<close> decodes in place and writes to the configuration, up to the sfree with
  the length of the decoded key.
\<close>

definition stored_copy_at :: "(nat \<Rightarrow> bool) \<Rightarrow> byte list \<Rightarrow> heap \<Rightarrow> heap res" where
  "stored_copy_at oom keybuf h =
     (case h_malloc oom (length keybuf + 1) (Bytes (map Some (keybuf @ [0]))) h of
        (None, _) \<Rightarrow> Halt (Undef ''memory access through NULL'')
      | (Some a, h) \<Rightarrow>
          bind_res (blob2bin (map Some (keybuf @ [0])) (length keybuf)) (\<lambda>(b, len).
          sfree (Some a) len (h\<lparr>h_live := (h_live h)(a \<mapsto> Bytes b)\<rparr>)))"

lemma bin2blob_leaves_digits:
  assumes "h_live h a = Some (Bytes (map Some bs))" and "a < h_next h" and "length bs \<le> SAFE_SIZE"
    and "\<not> oom (h_next h)"
  shows "\<exists>p h'. bin2blob_at oom a (length bs) h = Ok ((p, 2 * length bs + 3), h')
    \<and> h_released h' = Bytes (map Some (hex_encode bs @ [0])) # h_released h"
proof -
  have "\<not> ALLOC_MAX < 2 * length bs + 3 + 1" using assms(3) by (simp add: size_bounds)
  with assms show ?thesis
    using bin2hex_encodes[OF assms(3)] bin2blob_text[OF assms(3)]
    by (simp add: bin2blob_at_def xmalloc_at_def h_malloc_def h_free_def)
qed

lemma hex_encode_drop: "drop (2 * m) (hex_encode bs) = hex_encode (drop m bs)"
proof (induction m arbitrary: bs)
  case (Suc m)
  show ?case
  proof (cases bs)
    case (Cons b list)
    then show ?thesis using Suc[of list] by (simp add: hex_encode_def hex_pair_def)
  qed (simp add: hex_encode_def)
qed simp

lemma blob2bin_cells:
  assumes "\<forall>c\<in>set hex. is_hexdigit c" "even (length hex)" "length hex \<le> SAFE_SIZE" "n = length hex div 2" "2 \<le> n"
  shows "blob2bin (map Some (blob_text hex @ [0])) (length hex + 3)
    = Ok (map Some (hex_decode hex @ drop (n - 2) (hex_decode hex) @ drop n hex @ [ch (CHR 0x27), 0]), n)"
proof -
  let ?b = "map Some (blob_text hex @ [0])"
  let ?pre = "[Some (ch (CHR ''x'')), Some (ch (CHR 0x27))]"
  let ?b1 = "?pre @ map Some (hex_decode hex) @ drop (2 + n) ?b"
  have "sz_sub (length hex + 3) 3 = length hex"
    using assms(3) by (simp add: size_bounds)
  moreover have "hex2bin ?b 2 (length hex) = Ok (?b1, n)"
    using hex2bin_decodes [of ?b ?pre hex "[Some (ch (CHR 0x27)), Some 0]"] assms(1,2,4)
    by (simp add: blob_text_def numeral_2_eq_2 del: mult_Suc)
  moreover have "mem_read ?b1 2 n = Ok (hex_decode hex)"
    by (simp add: mem_read_def length_hex_decode comp_def assms(4))
  moreover have "mem_write ?b1 0 (hex_decode hex) = Ok (map Some (hex_decode hex) @ drop n ?b1)"
    by (simp add: mem_write_def length_hex_decode assms(4))
  moreover have "n \<le> length hex" using assms(4) by simp
  then have "drop n ?b1 = map Some (drop (n - 2) (hex_decode hex) @ drop n hex @ [ch (CHR 0x27), 0])"
    using assms(4,5) by (simp add: blob_text_def length_hex_decode drop_map numeral_2_eq_2 Suc_diff_le drop_Cons')
  ultimately show ?thesis
    by (simp add: blob2bin_def)
qed

text \<open>
  C31. When \<^verbatim>\<open>pk init\<close> stores a binary key, it clears only as many bytes of its copy as the decoded key has: the block
  goes back to the allocator with the last two bytes of the key and the digits of the whole
  second half of the key in it.
\<close>

theorem stored_copy_leaves_half:
  assumes "length bs = BINKEY_LEN" and "\<not> oom (h_next h)"
  shows "\<exists>h'. stored_copy_at oom (blob_text (hex_encode bs)) h = Ok h'
    \<and> h_live h' = (h_live h)(h_next h := None)
    \<and> h_released h' = Bytes (replicate BINKEY_LEN (Some 0)
         @ map Some (drop (BINKEY_LEN - 2) bs @ hex_encode (drop (BINKEY_LEN div 2) bs) @ [ch (CHR 0x27), 0])) # h_released h"
proof -
  let ?hex = "hex_encode bs"
  have hex: "\<forall>c\<in>set ?hex. is_hexdigit c" "hex_decode ?hex = bs" "length ?hex = 64"
    using assms(1) by (simp_all add: hex_encode_digits hex_decode_encode length_hex_encode BINKEY_LEN_def)
  have tail: "drop 32 ?hex = hex_encode (drop 16 bs)" using hex_encode_drop[of 16 bs] by simp
  have "blob2bin (map Some (blob_text ?hex @ [0])) (length (blob_text ?hex))
      = Ok (map Some (bs @ drop 30 bs @ hex_encode (drop 16 bs) @ [ch (CHR 0x27), 0]), 32)"
    using blob2bin_cells[of ?hex 32] hex tail by (simp add: size_bounds blob_text_def)
  moreover have "h_malloc oom (length (blob_text ?hex) + 1) (Bytes (map Some (blob_text ?hex @ [0]))) h
      = (Some (h_next h), h\<lparr>h_next := h_next h + 1, h_live := (h_live h)(h_next h \<mapsto> Bytes (map Some (blob_text ?hex @ [0])))\<rparr>)"
    using assms(2) hex(3) by (simp add: h_malloc_def size_bounds blob_text_def)
  ultimately show ?thesis
    using assms(1) by (simp add: stored_copy_at_def sfree_def mem_write_def h_free_def BINKEY_LEN_def)
qed

theorem stored_copy_leaves_half_witness:
  "\<exists>h'. stored_copy_at (\<lambda>_. False) (blob_text (hex_encode (replicate 32 7))) empty_heap = Ok h'
    \<and> h_released h' = [Bytes (replicate 32 (Some 0)
         @ map Some (drop 30 (replicate 32 7) @ hex_encode (drop 16 (replicate 32 7)) @ [ch (CHR 0x27), 0]))]"
  using stored_copy_leaves_half[of "replicate 32 7" "\<lambda>_. False" empty_heap] by (auto simp: BINKEY_LEN_def)

end
