(* ===== verification/Animation.thy ===== *)
theory Animation
  imports Levenshtein "HOL-Library.Signed_Division"
begin

text \<open>
  The two small parts without callers in the rest of the model: the loops of
  \<^verbatim>\<open>src/src/spinner.c\<close>, which run in a process of their own until they are killed, and the
  date bias of \<^verbatim>\<open>src/src/compat/uni/datebias.c\<close> and \<^verbatim>\<open>compat/win/datebias.c\<close>.
\<close>

section \<open>The spinners\<close>

text \<open>
  A round writes a part of a string and sleeps for some microseconds.  The loops do not end; the
  functions give their first \<open>n\<close> rounds, where \<open>i\<close> is the loop variable and an
  index outside the table is undefined.
\<close>

type_synonym spin = "string \<times> uint"

definition BS :: char where "BS = CHR 0x08"
definition CR :: char where "CR = CHR 0x0D"

definition table_entry :: "string list \<Rightarrow> nat \<Rightarrow> string res" where
  "table_entry snch i = (if i < length snch then Ok (snch ! i) else Halt (Undef ''index out of range''))"

definition default_snch :: "string list" where
  "default_snch = [[CHR 0x5C, BS], [CHR ''|'', BS], [CHR ''/'', BS], [CHR ''-'', BS]]"

fun run_default_spinner :: "nat \<Rightarrow> nat \<Rightarrow> uint \<Rightarrow> spin list res" where
  "run_default_spinner 0 i period_mult = Ok []"
| "run_default_spinner (Suc n) i period_mult =
     bind_res (table_entry default_snch i) (\<lambda>s.
     bind_res (run_default_spinner n ((i + 1) mod 4) period_mult) (\<lambda>rest.
       Ok ((take 2 s, period_mult) # rest)))"

definition kawaii_snch :: "string list" where
  "kawaii_snch = [''_'', ''<'', [CR, CHR '' '', CHR '' '', CHR '' '', CR, CHR ''>'']]"

fun kawaii_loop :: "nat \<Rightarrow> nat \<Rightarrow> uint \<Rightarrow> spin list res" where
  "kawaii_loop 0 i period_mult = Ok []"
| "kawaii_loop (Suc n) i period_mult =
     bind_res (table_entry kawaii_snch i) (\<lambda>s.
     bind_res (kawaii_loop n ((i + 1) mod 3) period_mult) (\<lambda>rest.
       Ok ((take (if i = 2 then 6 else 1) s, period_mult * of_nat (i mod 2 + 1)) # rest)))"

definition run_kawaii_spinner :: "nat \<Rightarrow> uint \<Rightarrow> spin list res" where
  "run_kawaii_spinner n period_mult = bind_res (kawaii_loop n 0 period_mult) (\<lambda>rest. Ok ((''>'', period_mult) # rest))"

text \<open>
  The default spinner writes whole entries, one after the other, and never leaves the table;
  each entry ends where it started, so the cursor does not move.
\<close>

lemma run_default_spinner_rounds:
  "i < 4 \<Longrightarrow> run_default_spinner n i p = Ok (map (\<lambda>j. (default_snch ! ((i + j) mod 4), p)) [0..<n])"
proof (induction n arbitrary: i)
  case (Suc n)
  have "take 2 (default_snch ! i) = default_snch ! i"
    using Suc.prems by (simp add: default_snch_def nth_Cons split: nat.split)
  moreover have "map (\<lambda>j. (default_snch ! ((i + j) mod 4), p)) [0..<Suc n]
      = (default_snch ! i, p) # map (\<lambda>j. (default_snch ! (((i + 1) mod 4 + j) mod 4), p)) [0..<n]"
    using Suc.prems by (simp add: map_upt_Suc mod_simps del: upt_Suc)
  ultimately show ?case
    using Suc.prems Suc.IH [of "(i + 1) mod 4"] by (simp add: table_entry_def default_snch_def)
qed simp

lemma run_kawaii_spinner_rounds:
  "run_kawaii_spinner n p = Ok ((''>'', p) # map (\<lambda>j. (kawaii_snch ! (j mod 3), p * of_nat (j mod 3 mod 2 + 1))) [0..<n])"
proof -
  have "kawaii_loop n i p = Ok (map (\<lambda>j. (kawaii_snch ! ((i + j) mod 3), p * of_nat ((i + j) mod 3 mod 2 + 1))) [0..<n])"
    if "i < 3" for i
    using that
  proof (induction n arbitrary: i)
    case (Suc n)
    have "take (if i = 2 then 6 else 1) (kawaii_snch ! i) = kawaii_snch ! i"
      using Suc.prems by (auto simp: kawaii_snch_def nth_Cons less_Suc_eq numeral_3_eq_3 split: nat.split)
    moreover have "map (\<lambda>j. (kawaii_snch ! ((i + j) mod 3), p * of_nat ((i + j) mod 3 mod 2 + 1))) [0..<Suc n]
        = (kawaii_snch ! i, p * of_nat (i mod 2 + 1))
          # map (\<lambda>j. (kawaii_snch ! (((i + 1) mod 3 + j) mod 3), p * of_nat (((i + 1) mod 3 + j) mod 3 mod 2 + 1))) [0..<n]"
      using Suc.prems by (simp add: map_upt_Suc mod_simps del: upt_Suc of_nat_Suc of_nat_add)
    ultimately show ?case
      using Suc.prems Suc.IH [of "(i + 1) mod 3"] by (simp add: table_entry_def kawaii_snch_def del: of_nat_Suc of_nat_add)
  qed simp
  from this [of 0] show ?thesis by (simp add: run_kawaii_spinner_def)
qed

section \<open>The date bias\<close>

text \<open>GetTimeZoneInformation: which period the time is in, and the minutes that make local time universal.\<close>

datatype time_zone_id = TIME_ZONE_ID_UNKNOWN | TIME_ZONE_ID_STANDARD | TIME_ZONE_ID_DAYLIGHT | TIME_ZONE_ID_INVALID

record time_zone =
  Bias :: int
  StandardBias :: int
  DaylightBias :: int

definition win_get_bias :: "time_zone_id \<Rightarrow> time_zone \<Rightarrow> (int \<times> int option) res" where
  "win_get_bias answer time_zone =
     (let hours = (\<lambda>bias. Ok (0, Some (- (bias sdiv 60))))
      in case answer of
           TIME_ZONE_ID_UNKNOWN \<Rightarrow> hours (Bias time_zone)
         | TIME_ZONE_ID_STANDARD \<Rightarrow> bind_res (int_add (Bias time_zone) (StandardBias time_zone)) hours
         | TIME_ZONE_ID_DAYLIGHT \<Rightarrow> bind_res (int_add (Bias time_zone) (DaylightBias time_zone)) hours
         | TIME_ZONE_ID_INVALID \<Rightarrow> Ok (-1, None))"

text \<open>\<open>now\<close> is the answer of time, \<open>gmnow\<close> what mktime makes of the fields of gmtime.\<close>

definition get_bias :: "int \<Rightarrow> int \<Rightarrow> int \<times> int" where
  "get_bias now gmnow = (0, (now - gmnow) sdiv 3600)"

lemma minutes_to_hours: "(- (60 * b)) sdiv 3600 = - (b sdiv 60)" for b :: int
proof -
  have "\<bar>60 * b\<bar> div 3600 = \<bar>b\<bar> div 60"
    using div_mult_mult1 [of 60 "\<bar>b\<bar>" 60] by (simp add: abs_mult)
  then show ?thesis by (simp add: signed_divide_int_def sgn_mult)
qed

text \<open>
  The two agree: if the fields of universal time, read as local time, are \<open>b\<close> minutes late, both
  compute the same hours, rounded towards zero.
\<close>

lemma date_bias_agrees:
  assumes "win_get_bias answer time_zone = Ok (0, Some hours)"
    "gmnow = now + 60 * (Bias time_zone + (case answer of TIME_ZONE_ID_STANDARD \<Rightarrow> StandardBias time_zone
       | TIME_ZONE_ID_DAYLIGHT \<Rightarrow> DaylightBias time_zone | _ \<Rightarrow> 0))"
  shows "get_bias now gmnow = (0, hours)"
proof -
  let ?b = "Bias time_zone + (case answer of TIME_ZONE_ID_STANDARD \<Rightarrow> StandardBias time_zone
       | TIME_ZONE_ID_DAYLIGHT \<Rightarrow> DaylightBias time_zone | _ \<Rightarrow> 0)"
  have "hours = - (?b sdiv 60)"
    using assms(1) by (cases answer) (auto simp: win_get_bias_def int_add_def split: if_splits)
  moreover have "now - gmnow = - (60 * ?b)" using assms(2) by simp
  ultimately show ?thesis using minutes_to_hours [of ?b] by (simp only: get_bias_def)
qed

end
