(* ===== verification/Spec2Isabelle.thy ===== *)
theory Spec2Isabelle
  imports Helper Strbuf Strutil Strlist Msort Levenshtein Command Atexit Security
    Cipher_Config Handle_Record Messages System_Calls Compat Option_Laws Option_Types
    Cmd_Init Cmd_Create Passkeeper Own_Files Sessions
    Win_Process Win_Poll Own_Memory Animation
begin

text \<open>
  PassKeeper (\<^verbatim>\<open>src/src\<close>, C) is a password manager for the command line: \<^verbatim>\<open>pk init\<close>
  creates a database of sqlite3 (SQLCipher), \<^verbatim>\<open>pk create\<close> adds a record to it, and a few
  small commands go with them.  This library models the program from the words of the
  command line to the calls of the operating system, of sqlite3 and of OpenSSL, for the
  build on Linux with 64-bit pointers, and the Win32 back end on its own.

  \<^bold>\<open>How a call ends.\<close>  A function that can stop the process returns a \<open>res\<close> (theory Pk_Prelude):
  \<open>Ok\<close> with its value, or \<open>Halt\<close> with the reason: exit, die, bug, a system call that never
  answers, or undefined behaviour of the C program.  Undefined behaviour is thus a value that
  theorems exclude or exhibit; a read of memory that was never written is one.  Buffers are
  blocks of cells that may be uninitialised; a \<^verbatim>\<open>size_t\<close> is a natural number with its
  reduction written out, \<^verbatim>\<open>unsigned\<close> is a 32-bit word, sums of \<^verbatim>\<open>int\<close> are checked.

  \<^bold>\<open>State.\<close>  From theory Running on, an action takes the state of the program (the chain of
  cleanup functions and \<open>pk_world\<close>: files, output, terminal, lines typed, calls made to
  sqlite3, key buffer, ignored signals, the variables of \<^verbatim>\<open>enval.c\<close>) and returns a \<open>res\<close> and
  a state; the state is there also when the action stops, because the cleanup functions run
  on it.  The answers of the system are the fields of the record \<open>os\<close>, an argument of every
  definition that uses them; nothing is assumed of them but where a theorem says so.

  \<^bold>\<open>Theories, from the bottom up.\<close>
  \<^item> Pk_Prelude: the vocabulary above, C strings, memory blocks, character classes.
  \<^item> Helper (\<^verbatim>\<open>helper.h\<close>, \<^verbatim>\<open>wrapper.h\<close>): checked sizes, growth of arrays, allocation.
  \<^item> Strbuf and Strutil (\<^verbatim>\<open>strbuf.c\<close>, \<^verbatim>\<open>strbuf.h\<close>): string buffers as memory; any sequence of
    appends yields the concatenation (locale \<open>append_sink\<close>, interpreted on string buffers and
    on the buffer of the cipher configuration); prefixes, UTF-8, numbers.
  \<^item> Strlist (\<^verbatim>\<open>strlist.c\<close>): the array of strings; split and join, filter in place.
  \<^item> Msort (\<^verbatim>\<open>sort.c\<close>): the merge sort is sorted, stable and a permutation (locale
    \<open>keyed_sort\<close>).  Levenshtein (\<^verbatim>\<open>levenshtein.c\<close>): three rotating rows compute the least
    cost over all alignments.  Command (\<^verbatim>\<open>command.c\<close>): the table, and the names proposed for a
    mistyped one, which puts these three together.
  \<^item> Atexit (\<^verbatim>\<open>atexit-chain.c\<close>): the stack of cleanup functions (locale \<open>cleanup_stack\<close>).
  \<^item> Messages (\<^verbatim>\<open>usage.c\<close>, \<^verbatim>\<open>message.h\<close>, \<^verbatim>\<open>pkerrno.c\<close>), System_Calls (\<^verbatim>\<open>wrapper.c\<close>,
    \<^verbatim>\<open>filesys.c\<close>), Compat (the replaced C library functions of \<^verbatim>\<open>compat\<close>).
  \<^item> Security (\<^verbatim>\<open>security.c\<close>): hexadecimal and blob keys, digests, the key typed in.
  \<^item> Cipher_Config (\<^verbatim>\<open>cipher-config.c\<close>): the binary file format, its writer and its reader.
  \<^item> Handle_Record (\<^verbatim>\<open>handle-record.c\<close>): the text file of a record, and its columns.
  \<^item> Parse_Option, Option_Laws, Option_Types (\<^verbatim>\<open>parse-option.c\<close>): the option parser over a
    store of cells and the argument array; what it returns; that it keeps the types.
  \<^item> Process (\<^verbatim>\<open>compat/uni/pkproc.c\<close>): fork, exec and the pipe between the processes as a step
    relation that interleaves both sides.
  \<^item> Running, Steps: state, actions, triples \<open>triple P m Q E\<close> with a postcondition for the case
    that the program stops, and the contract \<open>covered_run\<close> of commands that clean up (locale,
    interpreted for the two commands, for the insertion of a record and for the whole program).
  \<^item> Editor (\<^verbatim>\<open>exteditor.c\<close>, \<^verbatim>\<open>spinner.c\<close>), Cmd_Init, Cmd_Create, Cmd_Others
    (\<^verbatim>\<open>command/*.c\<close>): the commands, branch by branch.
  \<^item> Passkeeper (\<^verbatim>\<open>passkeeper.c\<close>, \<^verbatim>\<open>enval.c\<close>): the main program.
  \<^item> Own_Files: what the program as a whole does to the files of the user.  Sessions: what
    a whole run of \<^verbatim>\<open>pk create\<close> sends to sqlite3, and one key across two commands.
  \<^item> Poll (\<^verbatim>\<open>compat/poll.c\<close>, \<^verbatim>\<open>poll.h\<close>): poll on top of select, which events it reports and for which
    descriptors it is defined, and the loop of System_Calls with this wait in it.
  \<^item> Win_Process (\<^verbatim>\<open>compat/win\<close>): processes, threads and their handles on Windows.  Win_Poll: the
    Windows branch of \<^verbatim>\<open>poll.c\<close>, its two loops over sockets and other handles and its deadline.
  \<^item> Own_Memory (\<^verbatim>\<open>wrapper.h\<close>, \<^verbatim>\<open>strlist.c\<close>, \<^verbatim>\<open>security.c\<close>, \<^verbatim>\<open>init.c\<close>): a heap with addresses; which
    blocks stay allocated, and what the blocks given back still show of a key.
  \<^item> Animation (\<^verbatim>\<open>spinner.c\<close>, \<^verbatim>\<open>datebias.c\<close>): the first rounds of the two endless loops, and that
    the date biases of the two systems agree.

  \<^bold>\<open>Bounds and loops.\<close>  Theorems about memory assume texts of at most \<open>SAFE_SIZE\<close>, which keeps
  each growth below \<open>SIZE_MAX\<close> and \<open>ALLOC_MAX\<close>; the 4096 bytes of a report are \<open>REPORT_SIZE\<close>.
  Loops are structural recursions, or functions with a measure: the words that are left
  for the option parser, the lines that are left for the loop that asks for a key.  The
  loops whose end depends on the system recurse over its list of answers and wait when that is
  used up (\<open>io_loop\<close>, \<open>wait_loop\<close>), so no fuel can run out unseen.  The loop around getcwd, the loop
  over the cleanup functions and the passes of the Windows poll are partial functions, with theorems that they return.

  \<^bold>\<open>Not modelled.\<close>  The contents of a database and the journal that sqlite3 keeps: a call of
  sqlite3 is recorded, and its answer and the file it leaves are parameters.  What the
  editor writes, the digests and the random bytes are parameters.  \<open>os_unlink\<close> is
  the error for a file that exists; the text that reports a directory that cannot be made is
  not kept in the output.  The text of printf formats is built by hand.  Of \<^verbatim>\<open>poll.c\<close>, the
  recv of macOS and the dispatching of window messages are left out.  The owner of a block is
  accounted for in Own_Memory only; elsewhere blocks are passed by value, and where freeing or clearing
  goes wrong (free_cipher_config, the second key of \<^verbatim>\<open>pk init\<close>), the model has the error.
\<close>

end
